(* ===== verification/Go_Prelude.thy ===== *)
theory Go_Prelude
  imports Main "HOL-Library.Word"
begin

text \<open>
  What the components share: the parts of Go and of its standard library that the modelled code
  uses. Strings are Go strings, that is byte sequences, as \<^typ>\<open>string\<close>; \<open>int\<close> is Go's 64-bit
  \<open>int\<close> on the platforms Shipwick is built for, as an \<^typ>\<open>int\<close> with the wrap-around written out
  (\<open>wrap64\<close>) where the code can reach it. A \<open>time.Time\<close> is the number of nanoseconds since the
  zero time (1 January of year 1, UTC), so that \<open>time.Time{}\<close> is 0; a \<open>time.Duration\<close> is a number of
  nanoseconds.
\<close>

named_theorems go_simps \<open>rewrite rules of the modelled parts of Go's standard library\<close>

type_synonym go_time = int
type_synonym duration = int

section \<open>Definitions\<close>

subsection \<open>Integers, strconv\<close>

definition max_int64 :: int where "max_int64 = 9223372036854775807"

definition min_int64 :: int where "min_int64 = - 9223372036854775808"

text \<open>Two's complement wrap-around of a 64-bit \<open>int\<close>.\<close>

definition wrap64 :: "int \<Rightarrow> int" where
  "wrap64 x = (x + 9223372036854775808) mod 18446744073709551616 - 9223372036854775808"

definition is_digit :: "char \<Rightarrow> bool" where
  "is_digit c \<longleftrightarrow> 48 \<le> (of_char c :: nat) \<and> (of_char c :: nat) \<le> 57"

definition digit_val :: "char \<Rightarrow> int" where
  "digit_val c = of_char c - 48"

fun digits_val :: "int \<Rightarrow> string \<Rightarrow> int option" where
  "digits_val n [] = Some n"
| "digits_val n (c # cs) = (if is_digit c then digits_val (10 * n + digit_val c) cs else None)"

definition in_int64 :: "int \<Rightarrow> bool" where
  "in_int64 n \<longleftrightarrow> min_int64 \<le> n \<and> n \<le> max_int64"

text \<open>
  \<open>strconv.Atoi\<close>: an optional sign and at least one decimal digit; None is the error, of
  syntax or of range.
\<close>

definition atoi :: "string \<Rightarrow> int option" where
  "atoi s =
     (let (neg, ds) = (case s of
          [] \<Rightarrow> (False, [])
        | c # cs \<Rightarrow> if c = CHR ''-'' then (True, cs) else if c = CHR ''+'' then (False, cs) else (False, s))
      in if ds = [] then None
         else case digits_val 0 ds of
             None \<Rightarrow> None
           | Some n \<Rightarrow>
               let v = (if neg then - n else n)
               in if in_int64 v then Some v else None)"

definition digit_char :: "nat \<Rightarrow> char" where
  "digit_char d = char_of (48 + d)"

text \<open>\<open>strconv.Itoa\<close> for a natural number, the only way the modelled code calls it.\<close>

fun itoa_nat :: "nat \<Rightarrow> string" where
  "itoa_nat n = (if n < 10 then [digit_char n] else itoa_nat (n div 10) @ [digit_char (n mod 10)])"

declare itoa_nat.simps [simp del]

definition itoa :: "int \<Rightarrow> string" where
  "itoa n = (if n < 0 then CHR ''-'' # itoa_nat (nat (- n)) else itoa_nat (nat n))"

subsection \<open>Package strings\<close>

text \<open>\<open>strings.Split\<close> and \<open>strings.Join\<close> with a one-byte separator.\<close>

fun split_on :: "char \<Rightarrow> string \<Rightarrow> string list" where
  "split_on sep [] = [[]]"
| "split_on sep (c # cs) =
     (if c = sep then [] # split_on sep cs
      else case split_on sep cs of [] \<Rightarrow> [[c]] | p # ps \<Rightarrow> (c # p) # ps)"

fun join_with :: "char \<Rightarrow> string list \<Rightarrow> string" where
  "join_with sep [] = []"
| "join_with sep [s] = s"
| "join_with sep (s # t # ss) = s @ sep # join_with sep (t # ss)"

text \<open>\<open>strings.Cut\<close> with a one-byte separator: before, after, found.\<close>

fun cut_at :: "char \<Rightarrow> string \<Rightarrow> string \<times> string \<times> bool" where
  "cut_at sep [] = ([], [], False)"
| "cut_at sep (c # cs) =
     (if c = sep then ([], cs, True)
      else let (before, after, found) = cut_at sep cs in (c # before, after, found))"

fun has_prefix :: "string \<Rightarrow> string \<Rightarrow> bool" where
  "has_prefix s [] = True"
| "has_prefix [] (p # ps) = False"
| "has_prefix (c # cs) (p # ps) = (c = p \<and> has_prefix cs ps)"

definition has_suffix :: "string \<Rightarrow> string \<Rightarrow> bool" where
  "has_suffix s p = has_prefix (rev s) (rev p)"

definition trim_prefix :: "string \<Rightarrow> string \<Rightarrow> string" where
  "trim_prefix s p = (if has_prefix s p then drop (length p) s else s)"

definition trim_suffix :: "string \<Rightarrow> string \<Rightarrow> string" where
  "trim_suffix s p = (if has_suffix s p then take (length s - length p) s else s)"

text \<open>\<open>strings.CutSuffix\<close>.\<close>

definition cut_suffix :: "string \<Rightarrow> string \<Rightarrow> string \<times> bool" where
  "cut_suffix s p = (if has_suffix s p then (take (length s - length p) s, True) else (s, False))"

text \<open>
  The bytes that the white space rune at the start of a string takes in UTF-8, 0 if there is none
  (\<open>unicode.IsSpace\<close>). A lead byte never occurs inside another rune, so looking at the bytes from
  the left finds exactly the runes that Go's decoder finds.
\<close>

definition byte_val :: "char \<Rightarrow> nat" where "byte_val c = of_char c"

definition space_width :: "string \<Rightarrow> nat" where
  "space_width s =
     (case map byte_val (take 3 s) of
        [] \<Rightarrow> 0
      | a # rest \<Rightarrow>
          if (9 \<le> a \<and> a \<le> 13) \<or> a = 32 then 1
          else case rest of
              [] \<Rightarrow> 0
            | b # rest' \<Rightarrow>
                if a = 194 \<and> (b = 133 \<or> b = 160) then 2
                else case rest' of
                    [] \<Rightarrow> 0
                  | c # _ \<Rightarrow>
                      if (a = 225 \<and> b = 154 \<and> c = 128)
                         \<or> (a = 226 \<and> b = 128 \<and> (128 \<le> c \<and> c \<le> 138 \<or> c = 168 \<or> c = 169 \<or> c = 175))
                         \<or> (a = 226 \<and> b = 129 \<and> c = 159)
                         \<or> (a = 227 \<and> b = 128 \<and> c = 128)
                      then 3 else 0)"

text \<open>\<open>strings.Fields\<close>: \<open>cur\<close> is the field being read, reversed.\<close>

function fields_from :: "string \<Rightarrow> string \<Rightarrow> string list" where
  "fields_from cur [] = (if cur = [] then [] else [rev cur])"
| "fields_from cur (c # cs) =
     (if space_width (c # cs) = 0 then fields_from (c # cur) cs
      else (if cur = [] then [] else [rev cur]) @ fields_from [] (drop (space_width (c # cs) - 1) cs))"
  by pat_completeness auto
termination
  by (relation "measure (\<lambda>(cur, s). length s)") auto

definition string_fields :: "string \<Rightarrow> string list" where
  "string_fields s = fields_from [] s"

function trim_left_space :: "string \<Rightarrow> string" where
  "trim_left_space [] = []"
| "trim_left_space (c # cs) =
     (if space_width (c # cs) = 0 then c # cs else trim_left_space (drop (space_width (c # cs) - 1) cs))"
  by pat_completeness auto
termination
  by (relation "measure length") auto

text \<open>
  \<open>strings.TrimSpace\<close>. From the right, a suffix that is one white space rune is dropped until
  there is none; a white space rune has one to three bytes.
\<close>

definition space_suffix :: "string \<Rightarrow> nat" where
  "space_suffix s =
     (if s \<noteq> [] \<and> space_width (drop (length s - 1) s) = 1 then 1
      else if 2 \<le> length s \<and> space_width (drop (length s - 2) s) = 2 then 2
      else if 3 \<le> length s \<and> space_width (drop (length s - 3) s) = 3 then 3
      else 0)"

function trim_right_space :: "string \<Rightarrow> string" where
  "trim_right_space s =
     (if space_suffix s = 0 then s else trim_right_space (take (length s - space_suffix s) s))"
  by pat_completeness auto
termination
  by (relation "measure length") (auto simp: space_suffix_def split: if_splits)

declare trim_right_space.simps [simp del]

definition trim_space :: "string \<Rightarrow> string" where
  "trim_space s = trim_right_space (trim_left_space s)"

text \<open>
  \<open>strings.EqualFold\<close> against an ASCII word: Unicode's simple folding takes an ASCII capital to
  its small letter, and the long s (U+017F) and the Kelvin sign (U+212A) to \<open>s\<close> and \<open>k\<close>; no other
  rune folds to an ASCII letter.
\<close>

definition lower_char :: "char \<Rightarrow> char" where
  "lower_char c = (if 65 \<le> byte_val c \<and> byte_val c \<le> 90 then char_of (byte_val c + 32) else c)"

fun fold_ascii :: "string \<Rightarrow> string" where
  "fold_ascii [] = []"
| "fold_ascii [a] = [lower_char a]"
| "fold_ascii [a, b] =
     (if byte_val a = 197 \<and> byte_val b = 191 then ''s'' else lower_char a # fold_ascii [b])"
| "fold_ascii (a # b # c # cs) =
     (if byte_val a = 197 \<and> byte_val b = 191 then CHR ''s'' # fold_ascii (c # cs)
      else if byte_val a = 226 \<and> byte_val b = 132 \<and> byte_val c = 170 then CHR ''k'' # fold_ascii cs
      else lower_char a # fold_ascii (b # c # cs))"

definition equal_fold :: "string \<Rightarrow> string \<Rightarrow> bool" where
  "equal_fold word text \<longleftrightarrow> fold_ascii word = fold_ascii text"

text \<open>\<open>strings.Compare\<close>: bytewise lexicographic.\<close>

fun string_compare :: "string \<Rightarrow> string \<Rightarrow> int" where
  "string_compare [] [] = 0"
| "string_compare [] (b # bs) = -1"
| "string_compare (a # as) [] = 1"
| "string_compare (a # as) (b # bs) =
     (if byte_val a < byte_val b then -1
      else if byte_val a > byte_val b then 1
      else string_compare as bs)"

subsection \<open>Package time\<close>

definition nanosecond :: duration where "nanosecond = 1"
definition second :: duration where "second = 1000000000"
definition minute :: duration where "minute = 60000000000"
definition hour :: duration where "hour = 3600000000000"
definition day_ns :: duration where "day_ns = 86400000000000"

definition zero_time :: go_time where "zero_time = 0"

text \<open>\<open>Time.Sub\<close> saturates at the ends of \<open>Duration\<close>.\<close>

definition time_sub :: "go_time \<Rightarrow> go_time \<Rightarrow> duration" where
  "time_sub t u = max min_int64 (min max_int64 (t - u))"

definition time_truncate :: "go_time \<Rightarrow> duration \<Rightarrow> go_time" where
  "time_truncate t d = t - t mod d"

section \<open>Lemmas\<close>

lemma wrap64_id: "in_int64 x \<Longrightarrow> wrap64 x = x"
  by (simp add: wrap64_def in_int64_def min_int64_def max_int64_def)

lemma wrap64_in_int64: "in_int64 (wrap64 x)"
proof -
  let ?m = "(x + 9223372036854775808) mod 18446744073709551616"
  have "0 \<le> ?m" "?m < 18446744073709551616"
    by simp_all
  then show ?thesis
    by (simp add: wrap64_def in_int64_def min_int64_def max_int64_def)
qed

lemma wrap64_over:
  assumes "max_int64 < x" "x \<le> 2 * max_int64 + 1"
  shows "wrap64 x = x - 18446744073709551616"
proof -
  have "(x + 9223372036854775808) mod 18446744073709551616
      = ((x - 9223372036854775808) + 18446744073709551616) mod 18446744073709551616"
    by (simp add: add.commute)
  also have "\<dots> = x - 9223372036854775808"
    unfolding mod_add_self2 using assms by (simp add: max_int64_def)
  finally have "(x + 9223372036854775808) mod 18446744073709551616 = x - 9223372036854775808" .
  then show ?thesis
    by (simp add: wrap64_def)
qed

lemma atoi_in_int64: "atoi s = Some n \<Longrightarrow> in_int64 n"
  by (auto simp: atoi_def Let_def split: prod.splits option.splits if_splits)

lemma split_on_not_Nil [simp]: "split_on sep s \<noteq> []"
  by (cases s) (auto split: list.splits)

lemma join_with_Cons: "ss \<noteq> [] \<Longrightarrow> join_with sep (s # ss) = s @ sep # join_with sep ss"
  by (cases ss) simp_all

lemma join_with_Cons_char: "join_with sep ((c # s) # ss) = c # join_with sep (s # ss)"
  by (cases ss) simp_all

lemma join_split [simp]: "join_with sep (split_on sep s) = s"
proof (induction s)
  case (Cons c s)
  then show ?case
    by (auto simp: join_with_Cons join_with_Cons_char split: list.splits)
qed simp

lemma split_on_no_sep: "p \<in> set (split_on sep s) \<Longrightarrow> sep \<notin> set p"
  by (induction s arbitrary: p) (fastforce split: if_splits list.splits)+

lemma string_compare_range: "string_compare a b \<in> {-1, 0, 1}"
  by (induction a b rule: string_compare.induct) auto

lemma string_compare_refl [simp]: "string_compare a a = 0"
  by (induction a) auto

lemma byte_val_inject [simp]: "byte_val a = byte_val b \<longleftrightarrow> a = b"
  by (simp add: byte_val_def)

lemma string_compare_eq [simp]: "string_compare a b = 0 \<longleftrightarrow> a = b"
proof (induction a b rule: string_compare.induct)
  case (4 a as b bs)
  then show ?case
    by (cases "byte_val a" "byte_val b" rule: linorder_cases) auto
qed auto

lemma string_compare_antisym: "string_compare a b = - string_compare b a"
  by (induction a b rule: string_compare.induct) auto

lemma string_compare_Nil [simp]: "string_compare [] b \<le> 0" "string_compare a [] \<le> 0 \<longleftrightarrow> a = []"
  by (cases b; simp) (cases a; simp)

lemma string_compare_Cons_le:
  "string_compare (a # as) (b # bs) \<le> 0 \<longleftrightarrow>
     byte_val a < byte_val b \<or> a = b \<and> string_compare as bs \<le> 0"
  by (cases "byte_val a" "byte_val b" rule: linorder_cases) auto

lemma string_compare_trans:
  "string_compare a b \<le> 0 \<Longrightarrow> string_compare b c \<le> 0 \<Longrightarrow> string_compare a c \<le> 0"
proof (induction a arbitrary: b c)
  case (Cons x xs)
  then obtain y ys where b: "b = y # ys"
    by (cases b) simp_all
  with Cons.prems obtain z zs where c: "c = z # zs"
    by (cases c) simp_all
  show ?case
    using Cons.prems Cons.IH [of ys zs] unfolding b c string_compare_Cons_le by auto
qed simp

lemma time_sub_le_iff: "min_int64 < d \<Longrightarrow> d \<le> max_int64 \<Longrightarrow> d \<le> time_sub t u \<longleftrightarrow> d \<le> t - u"
  by (auto simp: time_sub_def)

lemma time_sub_less_iff: "min_int64 \<le> d \<Longrightarrow> d < max_int64 \<Longrightarrow> d < time_sub t u \<longleftrightarrow> d < t - u"
  by (auto simp: time_sub_def)

subsection \<open>Lists\<close>

lemma find_Some_iff_distinct:
  "distinct (map f xs) \<Longrightarrow> find (\<lambda>x. f x = k) xs = Some x \<longleftrightarrow> x \<in> set xs \<and> f x = k"
  by (induction xs) auto

lemma find_SomeD: "find P xs = Some x \<Longrightarrow> x \<in> set xs \<and> P x"
  by (induction xs) (auto split: if_splits)

lemma find_None_iff': "find P xs = None \<longleftrightarrow> (\<forall>x \<in> set xs. \<not> P x)"
  by (induction xs) auto

lemma find_map_update:
  "(\<And>x. k (g x) = k x) \<Longrightarrow> find (\<lambda>x. k x = i) (map g xs) = map_option g (find (\<lambda>x. k x = i) xs)"
  by (induction xs) auto

lemma find_filter: "find P (filter Q xs) = find (\<lambda>x. Q x \<and> P x) xs"
  by (induction xs) auto

lemma has_prefix_append [simp]: "has_prefix (p @ s) p"
  by (induction p) simp_all

lemma trim_append [simp]: "trim_prefix (p @ s) p = s"
  by (simp add: trim_prefix_def)

end
