(* ===== verification/Calendar.thy ===== *)
theory Calendar
  imports Go_Prelude
begin

text \<open>
  The part of Go's package \<open>time\<close> that package cron uses: the proleptic Gregorian calendar in UTC.
  A time is a number of nanoseconds since 1 January of year 1, a day the number of whole days since
  then. \<open>time_date\<close> is \<open>time.Date\<close> (with its normalization of a day or an hour past the end),
  \<open>add_years\<close> is \<open>Time.AddDate(n, 0, 0)\<close>. The lemmas show that the fields of a time and
  \<open>time.Date\<close> are inverse to each other, and where dates stand relative to each other.
\<close>

section \<open>Definitions\<close>

definition is_leap :: "int \<Rightarrow> bool" where
  "is_leap y \<longleftrightarrow> y mod 4 = 0 \<and> (y mod 100 \<noteq> 0 \<or> y mod 400 = 0)"

definition days_before_year :: "int \<Rightarrow> int" where
  "days_before_year y = 365 * (y - 1) + (y - 1) div 4 - (y - 1) div 100 + (y - 1) div 400"

definition days_in_month :: "int \<Rightarrow> int \<Rightarrow> int" where
  "days_in_month y m =
     (if m = 2 then (if is_leap y then 29 else 28)
      else if m = 4 \<or> m = 6 \<or> m = 9 \<or> m = 11 then 30 else 31)"

text \<open>The days of a year before its month \<open>m\<close>, \<open>1 \<le> m \<le> 12\<close>.\<close>

definition days_before_month :: "int \<Rightarrow> int \<Rightarrow> int" where
  "days_before_month y m =
     (if m \<le> 1 then 0 else if m = 2 then 31
      else (if is_leap y then 1 else 0) +
        (if m = 3 then 59 else if m = 4 then 90 else if m = 5 then 120 else if m = 6 then 151
         else if m = 7 then 181 else if m = 8 then 212 else if m = 9 then 243 else if m = 10 then 273
         else if m = 11 then 304 else 334))"

definition date_day :: "int \<Rightarrow> int \<Rightarrow> int \<Rightarrow> int" where
  "date_day y m d = days_before_year y + days_before_month y m + (d - 1)"

text \<open>The year of a day, by cycles of 400, 100, 4 years and 1 year.\<close>

definition year_of_day :: "int \<Rightarrow> int" where
  "year_of_day n =
     (let n400 = n div 146097; r400 = n mod 146097;
          n100 = min (r400 div 36524) 3; r100 = r400 - 36524 * n100;
          n4 = r100 div 1461; r4 = r100 mod 1461;
          n1 = min (r4 div 365) 3
      in 400 * n400 + 100 * n100 + 4 * n4 + n1 + 1)"

definition year_day :: "int \<Rightarrow> int" where
  "year_day n = n - days_before_year (year_of_day n)"

definition month_of_day :: "int \<Rightarrow> int" where
  "month_of_day n =
     1 + int (length (filter (\<lambda>m. days_before_month (year_of_day n) m \<le> year_day n) [2, 3, 4, 5, 6, 7, 8, 9, 10, 11, 12]))"

definition day_of_month :: "int \<Rightarrow> int" where
  "day_of_month n = year_day n - days_before_month (year_of_day n) (month_of_day n) + 1"

text \<open>Day 0 was a Monday; Sunday is 0.\<close>

definition weekday_of_day :: "int \<Rightarrow> int" where
  "weekday_of_day n = (n + 1) mod 7"

definition day_number :: "go_time \<Rightarrow> int" where
  "day_number t = t div day_ns"

definition time_year :: "go_time \<Rightarrow> int" where "time_year t = year_of_day (day_number t)"
definition time_month :: "go_time \<Rightarrow> int" where "time_month t = month_of_day (day_number t)"
definition time_day :: "go_time \<Rightarrow> int" where "time_day t = day_of_month (day_number t)"
definition time_weekday :: "go_time \<Rightarrow> int" where "time_weekday t = weekday_of_day (day_number t)"
definition time_hour :: "go_time \<Rightarrow> int" where "time_hour t = t mod day_ns div hour"
definition time_minute :: "go_time \<Rightarrow> int" where "time_minute t = t mod hour div minute"

text \<open>
  \<open>time.Date(y, m, d, h, mi, 0, 0, time.UTC)\<close> for a month in 1..12; days, hours and minutes out of
  range carry over.
\<close>

definition time_date :: "int \<Rightarrow> int \<Rightarrow> int \<Rightarrow> int \<Rightarrow> int \<Rightarrow> go_time" where
  "time_date y m d h mi = date_day y m d * day_ns + h * hour + mi * minute"

text \<open>\<open>t.AddDate(years, 0, 0)\<close>: the same month, day and time of day, normalized.\<close>

definition add_years :: "go_time \<Rightarrow> int \<Rightarrow> go_time" where
  "add_years t years =
     date_day (time_year t + years) (time_month t) (time_day t) * day_ns + t mod day_ns"

definition valid_date :: "int \<Rightarrow> int \<Rightarrow> int \<Rightarrow> bool" where
  "valid_date y m d \<longleftrightarrow> 1 \<le> m \<and> m \<le> 12 \<and> 1 \<le> d \<and> d \<le> days_in_month y m"

section \<open>Lemmas\<close>

lemmas ns_defs = day_ns_def hour_def minute_def

subsection \<open>Years\<close>

lemma days_before_year_cycles:
  assumes "0 \<le> b" "b \<le> 3" "0 \<le> c" "c \<le> 24" "0 \<le> d" "d \<le> 3"
  shows "days_before_year (400 * a + 100 * b + 4 * c + d + 1) = 146097 * a + 36524 * b + 1461 * c + 365 * d"
proof -
  have "(400 * a + 100 * b + 4 * c + d) div 4 = 100 * a + 25 * b + c"
    using assms by (intro int_div_pos_eq [where r = d]) simp_all
  moreover have "(400 * a + 100 * b + 4 * c + d) div 100 = 4 * a + b"
    using assms by (intro int_div_pos_eq [where r = "4 * c + d"]) simp_all
  moreover have "(400 * a + 100 * b + 4 * c + d) div 400 = a"
    using assms by (intro int_div_pos_eq [where r = "100 * b + 4 * c + d"]) simp_all
  ultimately show ?thesis
    by (simp add: days_before_year_def)
qed

lemma div_pred:
  assumes "0 < (k :: int)"
  shows "y div k = (y - 1) div k + (if y mod k = 0 then 1 else 0)"
proof (cases "y mod k = 0")
  case True
  then have "(y - 1) div k = y div k - 1"
    using assms mult_div_mod_eq [of k y]
    by (intro int_div_pos_eq [where r = "k - 1"]) (auto simp: right_diff_distrib)
  then show ?thesis using True by simp
next
  case False
  moreover have "0 \<le> y mod k" "y mod k < k" using assms by simp_all
  ultimately have "(y - 1) div k = y div k"
    using mult_div_mod_eq [of k y] by (intro int_div_pos_eq [where r = "y mod k - 1"]) auto
  then show ?thesis using False by simp
qed

lemma leap_dvds: "(y :: int) mod 100 = 0 \<Longrightarrow> y mod 4 = 0" "y mod 400 = 0 \<Longrightarrow> y mod 100 = 0"
  by (auto simp flip: dvd_eq_mod_eq_0 intro: dvd_trans [of 4 100] dvd_trans [of 100 400])

lemma days_before_year_Suc:
  "days_before_year (y + 1) = days_before_year y + (if is_leap y then 366 else 365)"
proof -
  have d: "y div 4 - (y - 1) div 4 = (if y mod 4 = 0 then 1 else 0)"
    "y div 100 - (y - 1) div 100 = (if y mod 100 = 0 then 1 else 0)"
    "y div 400 - (y - 1) div 400 = (if y mod 400 = 0 then 1 else 0)"
    unfolding div_pred [of 4 y, simplified] div_pred [of 100 y, simplified] div_pred [of 400 y, simplified]
    by simp_all
  have "days_before_year (y + 1) - days_before_year y
      = 365 + (y div 4 - (y - 1) div 4) - (y div 100 - (y - 1) div 100) + (y div 400 - (y - 1) div 400)"
    by (simp only: days_before_year_def add_diff_cancel_right') (simp only: algebra_simps)
  also have "\<dots> = (if is_leap y then 366 else 365)"
    unfolding d is_leap_def using leap_dvds [of y]
    by (cases "y mod 4 = 0"; cases "y mod 100 = 0"; cases "y mod 400 = 0"; simp only:) simp_all
  finally show ?thesis by simp
qed

lemma leap_cycles:
  assumes "0 \<le> b" "b \<le> 3" "0 \<le> c" "c \<le> 24" "0 \<le> d" "d \<le> 3"
  shows "is_leap (400 * a + 100 * b + 4 * c + d + 1) \<longleftrightarrow> d = 3 \<and> (c < 24 \<or> b = 3)"
proof -
  let ?y = "400 * a + 100 * b + 4 * c + d + 1"
  have 4: "?y mod 4 = (if d = 3 then 0 else d + 1)"
    using assms int_mod_pos_eq [of ?y 4 "100 * a + 25 * b + c" "d + 1"]
      int_mod_pos_eq [of ?y 4 "100 * a + 25 * b + c + 1" 0] by auto
  have 100: "?y mod 100 = (if c = 24 \<and> d = 3 then 0 else 4 * c + d + 1)"
    using assms int_mod_pos_eq [of ?y 100 "4 * a + b" "4 * c + d + 1"]
      int_mod_pos_eq [of ?y 100 "4 * a + b + 1" 0] by auto
  have 400: "?y mod 400 = (if b = 3 \<and> c = 24 \<and> d = 3 then 0 else 100 * b + 4 * c + d + 1)"
    using assms int_mod_pos_eq [of ?y 400 a "100 * b + 4 * c + d + 1"]
      int_mod_pos_eq [of ?y 400 "a + 1" 0] by auto
  show ?thesis
    unfolding is_leap_def 4 100 400 using assms by auto
qed

lemma year_cycles:
  obtains a b c d where "0 \<le> b" "b \<le> 3" "0 \<le> c" "c \<le> 24" "0 \<le> d" "d \<le> 3"
    "year_of_day n = 400 * a + 100 * b + 4 * c + d + 1"
    "146097 * a + 36524 * b + 1461 * c + 365 * d \<le> n"
    "n \<le> 146097 * a + 36524 * b + 1461 * c + 365 * d + (if d = 3 \<and> (c < 24 \<or> b = 3) then 365 else 364)"
proof -
  define a r where "a = n div 146097" and "r = n mod 146097"
  define b where "b = min (r div 36524) 3"
  define s where "s = r - 36524 * b"
  define c q where "c = s div 1461" and "q = s mod 1461"
  define d where "d = min (q div 365) 3"
  have r: "0 \<le> r" "r < 146097" "n = 146097 * a + r" by (simp_all add: a_def r_def)
  have b: "0 \<le> b" "b \<le> 3" using r by (simp_all add: b_def pos_imp_zdiv_nonneg_iff)
  have s: "0 \<le> s" "s \<le> 36524" "b < 3 \<longrightarrow> s < 36524"
    using r mult_div_mod_eq [of 36524 r] pos_mod_bound [of 36524 r] pos_mod_sign [of 36524 r]
    by (auto simp: s_def b_def min_def split: if_splits)
  have q: "0 \<le> q" "q < 1461" "s = 1461 * c + q" by (simp_all add: c_def q_def)
  have c: "0 \<le> c" "c \<le> 24" using s(1,2) q by linarith+
  have d: "0 \<le> d" "d \<le> 3" using q(1) by (simp_all add: d_def pos_imp_zdiv_nonneg_iff)
  have low: "365 * d \<le> q" and high: "q \<le> 365 * d + (if d = 3 then 365 else 364)"
    using q(2) mult_div_mod_eq [of 365 q] pos_mod_bound [of 365 q] pos_mod_sign [of 365 q]
    by (auto simp: d_def min_def split: if_splits)
  have "q \<le> 365 * d + 364" if "d = 3" "\<not> (c < 24 \<or> b = 3)"
    using that s(3) q(3) b c by auto
  then have "q \<le> 365 * d + (if d = 3 \<and> (c < 24 \<or> b = 3) then 365 else 364)"
    using high by (auto split: if_splits)
  moreover have n: "n = 146097 * a + 36524 * b + 1461 * c + q"
    using r(3) q(3) s_def by linarith
  moreover have "year_of_day n = 400 * a + 100 * b + 4 * c + d + 1"
    by (simp add: year_of_day_def Let_def a_def b_def c_def d_def q_def r_def s_def)
  ultimately show thesis
    using that [OF b c d, of a] low by simp
qed

lemma year_of_day_bounds:
  "days_before_year (year_of_day n) \<le> n" "n < days_before_year (year_of_day n + 1)"
proof -
  obtain a b c d where r: "0 \<le> b" "b \<le> 3" "0 \<le> c" "c \<le> 24" "0 \<le> d" "d \<le> 3"
    and y: "year_of_day n = 400 * a + 100 * b + 4 * c + d + 1"
    and n: "146097 * a + 36524 * b + 1461 * c + 365 * d \<le> n"
      "n \<le> 146097 * a + 36524 * b + 1461 * c + 365 * d + (if d = 3 \<and> (c < 24 \<or> b = 3) then 365 else 364)"
    by (rule year_cycles)
  show "days_before_year (year_of_day n) \<le> n"
    using n(1) unfolding y days_before_year_cycles [OF r] .
  show "n < days_before_year (year_of_day n + 1)"
    unfolding days_before_year_Suc [of "year_of_day n"] unfolding y days_before_year_cycles [OF r] leap_cycles [OF r]
    using n(2) by (cases "d = 3 \<and> (c < 24 \<or> b = 3)"; simp only:) simp_all
qed

lemma days_before_year_mono: "y \<le> z \<Longrightarrow> days_before_year y + 365 * (z - y) \<le> days_before_year z"
proof (induction z rule: int_ge_induct)
  case (step z)
  have "days_before_year z + 365 \<le> days_before_year (z + 1)"
    unfolding days_before_year_Suc by simp
  with step show ?case by (simp add: right_diff_distrib distrib_left)
qed simp

lemma days_before_year_le: "y \<le> z \<Longrightarrow> days_before_year y \<le> days_before_year z"
  using days_before_year_mono [of y z] by simp

lemma year_of_day_unique:
  assumes "days_before_year y \<le> n" "n < days_before_year (y + 1)"
  shows "year_of_day n = y"
proof (rule ccontr)
  assume "year_of_day n \<noteq> y"
  then consider "year_of_day n + 1 \<le> y" | "y + 1 \<le> year_of_day n" by linarith
  then show False
  proof cases
    case 1
    from days_before_year_le [OF 1] year_of_day_bounds(2) [of n] assms(1) show False by simp
  next
    case 2
    from days_before_year_le [OF 2] year_of_day_bounds(1) [of n] assms(2) show False by simp
  qed
qed

lemma year_day_bounds: "0 \<le> year_day n" "year_day n < (if is_leap (year_of_day n) then 366 else 365)"
  using year_of_day_bounds [of n] unfolding year_day_def days_before_year_Suc by linarith+

subsection \<open>Months and days\<close>

lemma months_cover:
  assumes "1 \<le> (m :: int)" "m \<le> 12"
  shows "m = 1 \<or> m = 2 \<or> m = 3 \<or> m = 4 \<or> m = 5 \<or> m = 6 \<or> m = 7 \<or> m = 8 \<or> m = 9 \<or> m = 10 \<or> m = 11 \<or> m = 12"
  using assms by presburger

lemma find_interval:
  "(f 0 :: int) \<le> x \<Longrightarrow> x < f n \<Longrightarrow> \<exists>k < n. f k \<le> x \<and> x < f (Suc k)"
proof (induction n)
  case (Suc n)
  then show ?case by (cases "x < f n") (auto intro: less_SucI)
qed simp

lemma days_before_month_Suc:
  assumes "1 \<le> m" "m \<le> 11"
  shows "days_before_month y (m + 1) = days_before_month y m + days_in_month y m"
  using months_cover [of m] assms by (auto simp: days_before_month_def days_in_month_def)

lemma month_exists:
  assumes "0 \<le> yd" "yd < (if is_leap y then 366 else 365)"
  obtains m where "1 \<le> m" "m \<le> 12" "days_before_month y m \<le> yd" "yd < days_before_month y m + days_in_month y m"
proof -
  let ?f = "\<lambda>k. if k < 12 then days_before_month y (int k + 1) else if is_leap y then 366 else 365"
  have "?f 0 \<le> yd" "yd < ?f 12"
    using assms by (simp_all add: days_before_month_def)
  then obtain k where k: "k < 12" "?f k \<le> yd" "yd < ?f (Suc k)"
    using find_interval [of ?f yd 12] by blast
  show thesis
  proof (rule that)
    show "1 \<le> int k + 1" "int k + 1 \<le> 12" "days_before_month y (int k + 1) \<le> yd"
      using k by simp_all
    show "yd < days_before_month y (int k + 1) + days_in_month y (int k + 1)"
    proof (cases "k = 11")
      case True
      with k show ?thesis by (simp add: days_before_month_def days_in_month_def split: if_splits)
    next
      case False
      with k show ?thesis using days_before_month_Suc [of "int k + 1" y] by (simp add: add.commute)
    qed
  qed
qed

lemma month_unique:
  assumes "1 \<le> m" "m \<le> 12" "days_before_month y m \<le> yd" "yd < days_before_month y m + days_in_month y m"
  shows "1 + int (length (filter (\<lambda>m. days_before_month y m \<le> yd) [2, 3, 4, 5, 6, 7, 8, 9, 10, 11, 12])) = m"
  using assms months_cover [OF assms(1,2)]
  by (elim disjE; cases "is_leap y") (simp_all add: days_before_month_def days_in_month_def)

lemma month_of_day_bounds:
  "1 \<le> month_of_day n" "month_of_day n \<le> 12"
  "days_before_month (year_of_day n) (month_of_day n) \<le> year_day n"
  "year_day n < days_before_month (year_of_day n) (month_of_day n) + days_in_month (year_of_day n) (month_of_day n)"
proof -
  obtain m where m: "1 \<le> m" "m \<le> 12" "days_before_month (year_of_day n) m \<le> year_day n"
      "year_day n < days_before_month (year_of_day n) m + days_in_month (year_of_day n) m"
    using month_exists [OF year_day_bounds] by blast
  moreover have "month_of_day n = m"
    unfolding month_of_day_def by (rule month_unique [OF m])
  ultimately show "1 \<le> month_of_day n" "month_of_day n \<le> 12"
    "days_before_month (year_of_day n) (month_of_day n) \<le> year_day n"
    "year_day n < days_before_month (year_of_day n) (month_of_day n) + days_in_month (year_of_day n) (month_of_day n)"
    by simp_all
qed

lemma valid_date_of_day: "valid_date (year_of_day n) (month_of_day n) (day_of_month n)"
  using month_of_day_bounds [of n] by (simp add: valid_date_def day_of_month_def)

text \<open>\<open>time.Date\<close> undoes what \<open>Year\<close>, \<open>Month\<close> and \<open>Day\<close> read off a time, also one day further.\<close>

lemma date_day_of_fields: "date_day (year_of_day n) (month_of_day n) (day_of_month n + k) = n + k"
  by (simp add: date_day_def day_of_month_def year_day_def)

lemma days_before_month_end:
  assumes "1 \<le> m" "m \<le> 12"
  shows "0 \<le> days_before_month y m" "days_before_month y m + days_in_month y m \<le> (if is_leap y then 366 else 365)"
  using months_cover [OF assms]
  by (elim disjE; cases "is_leap y"; simp add: days_before_month_def days_in_month_def)+

lemma fields_of_date_day:
  assumes "valid_date y m d"
  shows "year_of_day (date_day y m d) = y" "month_of_day (date_day y m d) = m" "day_of_month (date_day y m d) = d"
proof -
  have m: "1 \<le> m" "m \<le> 12" "1 \<le> d" "d \<le> days_in_month y m"
    using assms by (simp_all add: valid_date_def)
  show y: "year_of_day (date_day y m d) = y"
    using days_before_month_end [OF m(1,2), of y] m
    by (intro year_of_day_unique; unfold days_before_year_Suc date_day_def) simp_all
  then have yd: "year_day (date_day y m d) = days_before_month y m + (d - 1)"
    by (simp add: year_day_def date_day_def)
  show "month_of_day (date_day y m d) = m"
    unfolding month_of_day_def y yd using m by (intro month_unique) simp_all
  then show "day_of_month (date_day y m d) = d"
    by (simp add: day_of_month_def y yd)
qed

subsection \<open>Times of day\<close>

lemma day_number_bounds: "day_number t * day_ns \<le> t" "t < (day_number t + 1) * day_ns"
proof -
  have "t = day_number t * day_ns + t mod day_ns"
    by (simp add: day_number_def)
  moreover have "0 \<le> t mod day_ns" "t mod day_ns < day_ns"
    by (simp_all add: day_ns_def)
  ultimately show "day_number t * day_ns \<le> t" "t < (day_number t + 1) * day_ns"
    unfolding distrib_right by linarith+
qed

lemma day_number_unique:
  assumes "n * day_ns \<le> t" "t < (n + 1) * day_ns"
  shows "day_number t = n"
  unfolding day_number_def using assms
  by (intro int_div_pos_eq [where r = "t - n * day_ns"]) (simp_all add: distrib_right)

lemma time_date_next_day: "time_date (time_year t) (time_month t) (time_day t + 1) 0 0 = (day_number t + 1) * day_ns"
  by (simp add: time_date_def time_year_def time_month_def time_day_def date_day_of_fields)

lemma time_date_next_hour:
  "time_date (time_year t) (time_month t) (time_day t) (time_hour t + 1) 0
     = day_number t * day_ns + (time_hour t + 1) * hour"
  using date_day_of_fields [of "day_number t" 0]
  by (simp add: time_date_def time_year_def time_month_def time_day_def)

lemma hour_bounds:
  "day_number t * day_ns + time_hour t * hour \<le> t" "t < day_number t * day_ns + (time_hour t + 1) * hour"
  "0 \<le> time_hour t" "time_hour t < 24"
proof -
  have "t = day_number t * day_ns + t mod day_ns"
    by (simp add: day_number_def)
  moreover have "t mod day_ns = time_hour t * hour + t mod day_ns mod hour"
    by (simp add: time_hour_def)
  moreover have "0 \<le> t mod day_ns mod hour" "t mod day_ns mod hour < hour"
    by (simp_all add: hour_def)
  ultimately show "day_number t * day_ns + time_hour t * hour \<le> t"
      "t < day_number t * day_ns + (time_hour t + 1) * hour"
    unfolding distrib_right by linarith+
  have "0 \<le> t mod day_ns" "t mod day_ns < 24 * hour"
    by (simp_all add: ns_defs)
  then show "0 \<le> time_hour t" "time_hour t < 24"
    unfolding time_hour_def by (simp_all add: hour_def pos_imp_zdiv_nonneg_iff div_less_iff_less_mult)
qed

lemma time_hour_unique:
  assumes "day_number t * day_ns + h * hour \<le> t" "t < day_number t * day_ns + (h + 1) * hour"
  shows "time_hour t = h"
proof -
  have "t mod day_ns = t - day_number t * day_ns"
    by (simp add: day_number_def minus_div_mult_eq_mod)
  with assms show ?thesis
    unfolding time_hour_def by (intro int_div_pos_eq [where r = "t mod day_ns - h * hour"]) (simp_all add: distrib_right)
qed

end
