(* ===== verification/Cron.thy ===== *)
theory Cron
  imports Calendar
begin

text \<open>
  Package cron (\<^verbatim>\<open>src/pkg/cron/cron.go\<close>): the five-field schedules of jobs and backups. A \<open>set\<close> is
  the code's bitset over \<open>uint64\<close>; \<open>parse\<close> reads an expression and \<open>schedule_next\<close> is the search
  loop of \<open>Schedule.Next\<close> over the calendar. The loop that fills a set adds steps to a 64-bit
  \<open>int\<close>, which can wrap around, so it is a \<open>partial_function\<close>: None is a loop that does not end, and
  \<open>parse_total\<close> shows that there is none.
\<close>

unbundle bit_operations_syntax

section \<open>Definitions\<close>

type_synonym bitset = "64 word"

text \<open>\<open>1 << uint(n)\<close> on 64 bits: a shift by 64 or more, which a negative \<open>n\<close> becomes, is 0.\<close>

definition set_bit_mask :: "int \<Rightarrow> bitset" where
  "set_bit_mask n = (if 0 \<le> n \<and> n < 64 then push_bit (nat n) 1 else 0)"

definition set_has :: "bitset \<Rightarrow> int \<Rightarrow> bool" where
  "set_has s n \<longleftrightarrow> s AND set_bit_mask n \<noteq> 0"

definition set_add :: "bitset \<Rightarrow> int \<Rightarrow> bitset" where
  "set_add s n = s OR set_bit_mask n"

record schedule =
  minutes :: bitset
  hours :: bitset
  days :: bitset
  months :: bitset
  weekdays :: bitset
  anyDay :: bool
  anyWeekday :: bool
  expr :: string

record cron_field =
  field_name :: string
  field_min :: int
  field_max :: int
  field_names :: "string list"

definition cron_fields :: "cron_field list" where
  "cron_fields =
     [\<lparr>field_name = ''minute'', field_min = 0, field_max = 59, field_names = []\<rparr>,
      \<lparr>field_name = ''hour'', field_min = 0, field_max = 23, field_names = []\<rparr>,
      \<lparr>field_name = ''day of month'', field_min = 1, field_max = 31, field_names = []\<rparr>,
      \<lparr>field_name = ''month'', field_min = 1, field_max = 12, field_names =
         [''jan'', ''feb'', ''mar'', ''apr'', ''may'', ''jun'', ''jul'', ''aug'', ''sep'', ''oct'', ''nov'', ''dec'']\<rparr>,
      \<lparr>field_name = ''day of week'', field_min = 0, field_max = 7, field_names =
         [''sun'', ''mon'', ''tue'', ''wed'', ''thu'', ''fri'', ''sat'', ''sun'']\<rparr>]"

datatype field_error =
  EmptyListItem
| InvalidStep string
| RangeReversed string
| ValueOutOfRange int int int
| InvalidValue string

datatype cron_error = FieldCount nat | InField string field_error

fun name_index :: "int \<Rightarrow> string list \<Rightarrow> string \<Rightarrow> int option" where
  "name_index i [] text = None"
| "name_index i (name # names) text =
     (if equal_fold name text then Some i else name_index (i + 1) names text)"

text \<open>\<open>field.value\<close>\<close>

definition field_value :: "cron_field \<Rightarrow> string \<Rightarrow> field_error + int" where
  "field_value f text =
     (case atoi text of
        Some n \<Rightarrow>
          if n < field_min f \<or> n > field_max f then Inl (ValueOutOfRange n (field_min f) (field_max f))
          else Inr n
      | None \<Rightarrow>
          (case name_index 0 (field_names f) text of
             Some i \<Rightarrow> Inr (field_min f + i)
           | None \<Rightarrow> Inl (InvalidValue text)))"

text \<open>
  The body of the loop of \<open>parseField\<close> up to the innermost loop: the bounds and the step of one
  list item.
\<close>

definition item_range :: "cron_field \<Rightarrow> string \<Rightarrow> bool \<Rightarrow> field_error + int \<times> int" where
  "item_range f rangePart hasStep =
     (if rangePart = ''*'' then Inr (field_min f, field_max f)
      else if CHR ''-'' \<in> set rangePart then
        (let (a, b, _) = cut_at (CHR ''-'') rangePart
         in case field_value f a of
              Inl e \<Rightarrow> Inl e
            | Inr lo \<Rightarrow>
                (case field_value f b of
                   Inl e \<Rightarrow> Inl e
                 | Inr hi \<Rightarrow> if lo > hi then Inl (RangeReversed rangePart) else Inr (lo, hi)))
      else
        (case field_value f rangePart of
           Inl e \<Rightarrow> Inl e
         | Inr n \<Rightarrow> Inr (n, if hasStep then field_max f else n)))"

definition item_bounds :: "cron_field \<Rightarrow> string \<Rightarrow> field_error + int \<times> int \<times> int" where
  "item_bounds f item =
     (if item = [] then Inl EmptyListItem
      else
        let (rangePart, stepPart, hasStep) = cut_at (CHR ''/'') item
        in case (if hasStep then case atoi stepPart of
                     None \<Rightarrow> Inl (InvalidStep stepPart)
                   | Some n \<Rightarrow> if n < 1 then Inl (InvalidStep stepPart) else Inr n
                 else Inr 1) of
             Inl e \<Rightarrow> Inl e
           | Inr step \<Rightarrow>
               (case item_range f rangePart hasStep of
                  Inl e \<Rightarrow> Inl e
                | Inr (lo, hi) \<Rightarrow> Inr (lo, hi, step)))"

text \<open>\<open>for n := lo; n <= hi; n += step { out.add(n) }\<close>\<close>

partial_function (option) add_range :: "int \<Rightarrow> int \<Rightarrow> int \<Rightarrow> bitset \<Rightarrow> bitset option" where
  "add_range n hi step out =
     (if n \<le> hi then add_range (wrap64 (n + step)) hi step (set_add out n) else Some out)"

declare add_range.simps [code]

fun parse_items :: "cron_field \<Rightarrow> string list \<Rightarrow> bitset \<Rightarrow> (field_error + bitset) option" where
  "parse_items f [] out = Some (Inr out)"
| "parse_items f (item # items) out =
     (case item_bounds f item of
        Inl e \<Rightarrow> Some (Inl e)
      | Inr (lo, hi, step) \<Rightarrow>
          (case add_range lo hi step out of
             None \<Rightarrow> None
           | Some out' \<Rightarrow> parse_items f items out'))"

definition parseField :: "cron_field \<Rightarrow> string \<Rightarrow> (field_error + bitset) option" where
  "parseField f text = parse_items f (split_on (CHR '','') text) 0"

fun parse_parts :: "cron_field list \<Rightarrow> string list \<Rightarrow> (cron_error + bitset list) option" where
  "parse_parts (f # fs) (part # parts) =
     (case parseField f part of
        None \<Rightarrow> None
      | Some (Inl e) \<Rightarrow> Some (Inl (InField (field_name f) e))
      | Some (Inr v) \<Rightarrow>
          (case parse_parts fs parts of
             None \<Rightarrow> None
           | Some (Inl e) \<Rightarrow> Some (Inl e)
           | Some (Inr vs) \<Rightarrow> Some (Inr (v # vs))))"
| "parse_parts _ _ = Some (Inr [])"

text \<open>\<open>Parse\<close>\<close>

definition parse :: "string \<Rightarrow> (cron_error + schedule) option" where
  "parse text =
     (let parts = string_fields text
      in if length parts \<noteq> 5 then Some (Inl (FieldCount (length parts)))
         else case parse_parts cron_fields parts of
             None \<Rightarrow> None
           | Some (Inl e) \<Rightarrow> Some (Inl e)
           | Some (Inr sets) \<Rightarrow>
               let w = sets ! 4
               in Some (Inr \<lparr>minutes = sets ! 0, hours = sets ! 1, days = sets ! 2, months = sets ! 3,
                    weekdays = (if set_has w 7 then set_add w 0 else w),
                    anyDay = (parts ! 2 = ''*''), anyWeekday = (parts ! 4 = ''*''),
                    expr = join_with (CHR '' '') parts\<rparr>))"

definition matchesDay :: "schedule \<Rightarrow> go_time \<Rightarrow> bool" where
  "matchesDay s t =
     (if \<not> set_has (months s) (time_month t) then False
      else
        let day = set_has (days s) (time_day t); weekday = set_has (weekdays s) (time_weekday t)
        in if anyDay s \<and> anyWeekday s then True
           else if anyDay s then weekday
           else if anyWeekday s then day
           else day \<or> weekday)"

definition matches :: "schedule \<Rightarrow> go_time \<Rightarrow> bool" where
  "matches s t \<longleftrightarrow> set_has (minutes s) (time_minute t) \<and> set_has (hours s) (time_hour t) \<and> matchesDay s t"

text \<open>The loop of \<open>Next\<close>.\<close>

function next_loop :: "schedule \<Rightarrow> go_time \<Rightarrow> go_time \<Rightarrow> go_time" where
  "next_loop s limit t =
     (if t < limit then
        if \<not> matchesDay s t then
          next_loop s limit (time_date (time_year t) (time_month t) (time_day t + 1) 0 0)
        else if \<not> set_has (hours s) (time_hour t) then
          next_loop s limit (time_date (time_year t) (time_month t) (time_day t) (time_hour t + 1) 0)
        else if \<not> set_has (minutes s) (time_minute t) then
          next_loop s limit (t + minute)
        else t
      else zero_time)"
  by pat_completeness auto
termination
proof (relation "measure (\<lambda>(s, limit, t). nat (limit - t))", goal_cases)
  case (2 s limit t)
  then show ?case using day_number_bounds(2) [of t] by (simp add: time_date_next_day)
next
  case (3 s limit t)
  then show ?case using hour_bounds(2) [of t] by (simp add: time_date_next_hour)
next
  case (4 s limit t)
  then show ?case by (simp add: minute_def)
qed simp

declare next_loop.simps [simp del]

definition schedule_next :: "schedule \<Rightarrow> go_time \<Rightarrow> go_time" where
  "schedule_next s after =
     (let t = time_truncate after minute + minute in next_loop s (add_years t 8) t)"

section \<open>Bitsets\<close>

lemma bit_set_bit_mask: "bit (set_bit_mask m) k \<longleftrightarrow> 0 \<le> m \<and> m < 64 \<and> k = nat m"
  by (auto simp: set_bit_mask_def bit_exp_iff)

lemma set_has_bit: "set_has s n \<longleftrightarrow> 0 \<le> n \<and> n < 64 \<and> bit s (nat n)"
proof -
  have "s AND set_bit_mask n \<noteq> 0 \<longleftrightarrow> (\<exists>k. bit s k \<and> bit (set_bit_mask n) k)"
    unfolding bit_eq_iff [where 'a = "64 word"] by (auto simp: bit_and_iff bit_set_bit_mask nat_less_iff)
  then show ?thesis
    by (auto simp: set_has_def bit_set_bit_mask)
qed

lemma set_has_0 [simp]: "\<not> set_has 0 n"
  by (simp add: set_has_def)

lemma set_has_add [simp]: "set_has (set_add s m) n \<longleftrightarrow> (n = m \<and> 0 \<le> n \<and> n < 64) \<or> set_has s n"
  by (auto simp: set_has_bit set_add_def bit_or_iff bit_set_bit_mask)

section \<open>Parsing\<close>

subsection \<open>The loop that fills a set\<close>

lemma add_range_done: "hi < n \<Longrightarrow> add_range n hi step out = Some out"
  by (simp add: add_range.simps)

lemma add_range_step: "n \<le> hi \<Longrightarrow> add_range n hi step out = add_range (wrap64 (n + step)) hi step (set_add out n)"
  by (simp add: add_range.simps)

text \<open>Without wrap-around the loop sets the arithmetic progression.\<close>

lemma mod_step_iff:
  fixes n m :: int
  assumes "0 < step" "n \<le> m"
  shows "(m - n) mod step = 0 \<longleftrightarrow> m = n \<or> (n + step \<le> m \<and> (m - (n + step)) mod step = 0)"
proof -
  have "(m - (n + step)) mod step = (m - n) mod step"
    by (simp add: diff_diff_eq [symmetric])
  moreover have "(m - n) mod step = m - n" if "m < n + step"
    using that assms by simp
  ultimately show ?thesis using assms by (cases "m < n + step") auto
qed

lemma add_range_progression:
  assumes "0 \<le> n" "hi < 64" "1 \<le> step" "step \<le> max_int64 - 64"
  shows "\<exists>w. add_range n hi step out = Some w \<and>
    (\<forall>m. set_has w m \<longleftrightarrow> set_has out m \<or> (n \<le> m \<and> m \<le> hi \<and> (m - n) mod step = 0))"
  using assms(1)
proof (induction "nat (hi + 1 - n)" arbitrary: n out rule: less_induct)
  case less
  show ?case
  proof (cases "n \<le> hi")
    case True
    have w: "wrap64 (n + step) = n + step"
      using less.prems True assms by (intro wrap64_id) (simp add: in_int64_def min_int64_def max_int64_def)
    have "\<exists>w. add_range (n + step) hi step (set_add out n) = Some w \<and>
      (\<forall>m. set_has w m \<longleftrightarrow> set_has (set_add out n) m \<or> (n + step \<le> m \<and> m \<le> hi \<and> (m - (n + step)) mod step = 0))"
      using less.prems True assms(3) by (intro less.hyps) auto
    then obtain w where "add_range n hi step out = Some w"
      and "\<forall>m. set_has w m \<longleftrightarrow> set_has (set_add out n) m \<or> (n + step \<le> m \<and> m \<le> hi \<and> (m - (n + step)) mod step = 0)"
      using True by (auto simp: add_range_step w)
    then show ?thesis
      using mod_step_iff [of step n] assms less.prems True by (fastforce)
  next
    case False
    then show ?thesis by (auto simp: add_range_done)
  qed
qed

text \<open>With wrap-around it ends as well: two additions of a step next to 2^63 take \<open>n\<close> down.\<close>

lemma add_range_wraps_returns:
  assumes "0 \<le> n" "n \<le> hi" "hi < 64" "max_int64 - 64 < step" "step \<le> max_int64"
  shows "\<exists>w. add_range n hi step out = Some w"
  using assms(1,2)
proof (induction "nat n" arbitrary: n out rule: less_induct)
  case less
  show ?case
  proof (cases "n + step \<le> max_int64")
    case True
    with less.prems assms have "wrap64 (n + step) = n + step"
      by (intro wrap64_id) (simp add: in_int64_def min_int64_def max_int64_def)
    moreover have "hi < n + step"
      using less.prems assms by (simp add: max_int64_def)
    ultimately show ?thesis
      using less.prems by (simp add: add_range_step add_range_done)
  next
    case False
    let ?m = "n + step - 18446744073709551616" and ?k = "n + 2 * step - 18446744073709551616"
    have m: "wrap64 (n + step) = ?m"
      using False less.prems assms by (intro wrap64_over) (simp_all add: max_int64_def)
    have k: "wrap64 (?m + step) = ?k"
      using less.prems assms by (subst wrap64_id) (simp_all add: in_int64_def min_int64_def max_int64_def)
    have unfold: "add_range n hi step out = add_range ?k hi step (set_add (set_add out n) ?m)"
      using less.prems assms add_range_step [of n hi step out] add_range_step [of ?m hi step "set_add out n"]
      unfolding m k by (simp add: max_int64_def)
    show ?thesis
    proof (cases "0 \<le> ?k")
      case True
      with less.prems assms show ?thesis
        unfolding unfold by (intro less.hyps) (simp_all add: max_int64_def)
    next
      case False
      have "wrap64 (?k + step) = ?k + step"
        using False less.prems assms by (intro wrap64_id) (simp add: in_int64_def min_int64_def max_int64_def)
      moreover have "hi < ?k + step"
        using less.prems assms by (simp add: max_int64_def)
      ultimately show ?thesis
        unfolding unfold using False less.prems assms by (simp add: add_range_step add_range_done)
    qed
  qed
qed

subsection \<open>Bounds of a list item\<close>

text \<open>What the five fields have in common: small bounds, and no more names than values.\<close>

definition wf_field :: "cron_field \<Rightarrow> bool" where
  "wf_field f \<longleftrightarrow> 0 \<le> field_min f \<and> field_min f \<le> field_max f \<and> field_max f < 64 \<and>
     field_min f + int (length (field_names f)) \<le> field_max f + 1"

lemma wf_cron_fields: "\<forall>f \<in> set cron_fields. wf_field f"
  by (simp add: cron_fields_def wf_field_def)

lemma name_index_range: "name_index i names text = Some k \<Longrightarrow> i \<le> k \<and> k < i + int (length names)"
  by (induction names arbitrary: i) (fastforce split: if_splits)+

lemma field_value_range:
  "wf_field f \<Longrightarrow> field_value f text = Inr n \<Longrightarrow> field_min f \<le> n \<and> n \<le> field_max f"
  by (auto simp: field_value_def wf_field_def split: option.splits if_splits dest!: name_index_range)

lemma item_range_bounds:
  "wf_field f \<Longrightarrow> item_range f r hasStep = Inr (lo, hi) \<Longrightarrow> field_min f \<le> lo \<and> lo \<le> hi \<and> hi \<le> field_max f"
  by (auto simp: item_range_def wf_field_def split: prod.splits sum.splits if_splits
      dest: field_value_range [unfolded wf_field_def, rotated])

lemma item_bounds_range:
  assumes "wf_field f" "item_bounds f item = Inr (lo, hi, step)"
  shows "0 \<le> lo" "lo \<le> hi" "hi < 64" "1 \<le> step" "step \<le> max_int64"
proof -
  have "wf_field f \<Longrightarrow> field_min f \<le> lo \<and> lo \<le> hi \<and> hi \<le> field_max f"
    using assms(2) item_range_bounds [of f]
    by (auto simp: item_bounds_def Let_def split: prod.splits sum.splits if_splits option.splits)
  with assms(1) show "0 \<le> lo" "lo \<le> hi" "hi < 64"
    by (auto simp: wf_field_def)
  show "1 \<le> step"
    using assms(2)
    by (auto simp: item_bounds_def Let_def split: prod.splits sum.splits if_splits option.splits)
  have "step = 1 \<or> (\<exists>x. atoi x = Some step)"
    using assms(2)
    by (auto simp: item_bounds_def Let_def split: prod.splits sum.splits if_splits option.splits)
  then show "step \<le> max_int64"
    using atoi_in_int64 by (auto simp: in_int64_def max_int64_def)
qed

subsection \<open>Totality\<close>

lemma add_range_total:
  assumes "0 \<le> lo" "lo \<le> hi" "hi < 64" "1 \<le> step" "step \<le> max_int64"
  shows "\<exists>w. add_range lo hi step out = Some w"
  using assms add_range_progression [of lo hi step out] add_range_wraps_returns [of lo hi step out]
  by (cases "step \<le> max_int64 - 64") auto

lemma parse_items_total: "wf_field f \<Longrightarrow> \<exists>r. parse_items f items out = Some r"
proof (induction items arbitrary: out)
  case (Cons item items)
  show ?case
  proof (cases "item_bounds f item")
    case (Inr b)
    obtain lo hi step where b: "b = (lo, hi, step)" by (cases b)
    then obtain w where "add_range lo hi step out = Some w"
      using add_range_total [OF item_bounds_range [OF Cons.prems]] Inr by blast
    then show ?thesis using Inr b Cons.IH [OF Cons.prems, of w] by simp
  qed simp
qed simp

lemma parse_parts_total:
  "(\<forall>f \<in> set fs. wf_field f) \<Longrightarrow> \<exists>r. parse_parts fs parts = Some r"
proof (induction fs parts rule: parse_parts.induct)
  case (1 f fs part parts)
  obtain r where r: "parseField f part = Some r"
    using parse_items_total [of f "split_on (CHR '','') part" 0] "1.prems" unfolding parseField_def by auto
  show ?case
  proof (cases r)
    case (Inr v)
    with 1 r obtain r' where "parse_parts fs parts = Some r'" by auto
    then show ?thesis using r Inr by (cases r') simp_all
  qed (simp add: r)
qed simp_all

text \<open>
  parsing always ends with an answer, an error or a schedule, for every string: also for a
  step so large that the loop's counter wraps around.
\<close>

theorem parse_total: "\<exists>r. parse text = Some r"
proof -
  obtain r where "parse_parts cron_fields (string_fields text) = Some r"
    using parse_parts_total [OF wf_cron_fields] by blast
  then show ?thesis
    by (cases r) (simp_all add: parse_def Let_def)
qed

subsection \<open>What a field denotes\<close>

text \<open>The values a list item stands for: from its lower bound on, every step, up to its upper bound.\<close>

definition item_denotes :: "cron_field \<Rightarrow> string \<Rightarrow> int \<Rightarrow> bool" where
  "item_denotes f item n =
     (case item_bounds f item of
        Inl e \<Rightarrow> False
      | Inr (lo, hi, step) \<Rightarrow> lo \<le> n \<and> n \<le> hi \<and> (n - lo) mod step = 0)"

definition item_step_small :: "cron_field \<Rightarrow> string \<Rightarrow> bool" where
  "item_step_small f item =
     (case item_bounds f item of Inl e \<Rightarrow> True | Inr (lo, hi, step) \<Rightarrow> step \<le> max_int64 - 64)"

lemma parse_items_denotes:
  assumes "wf_field f"
  shows "parse_items f items out = Some (Inr w) \<Longrightarrow> list_all (item_step_small f) items \<Longrightarrow>
    set_has w n \<longleftrightarrow> set_has out n \<or> list_ex (\<lambda>item. item_denotes f item n) items"
proof (induction items arbitrary: out)
  case (Cons item items)
  then obtain lo hi step where b: "item_bounds f item = Inr (lo, hi, step)"
    by (auto split: sum.splits)
  then have "step \<le> max_int64 - 64"
    using Cons.prems(2) by (simp add: item_step_small_def)
  then obtain w' where w': "add_range lo hi step out = Some w'"
    and has: "set_has w' n \<longleftrightarrow> set_has out n \<or> (lo \<le> n \<and> n \<le> hi \<and> (n - lo) mod step = 0)"
    using add_range_progression [of lo hi step out] item_bounds_range [OF assms b] by auto
  from b w' Cons.prems have "parse_items f items w' = Some (Inr w)"
    by simp
  with Cons.IH Cons.prems(2) have "set_has w n \<longleftrightarrow> set_has w' n \<or> list_ex (\<lambda>item. item_denotes f item n) items"
    by simp
  then show ?case
    by (auto simp: has item_denotes_def b)
qed simp

section \<open>The next run\<close>

lemma time_minute_eq: "time_minute t = t div minute mod 60"
  using zmod_zmult2_eq [of 60 t minute] by (simp add: time_minute_def ns_defs)

lemma matchesDay_same_day: "day_number u = day_number t \<Longrightarrow> matchesDay s u \<longleftrightarrow> matchesDay s t"
  by (simp add: matchesDay_def time_month_def time_day_def time_weekday_def)

lemma day_number_in_day:
  assumes "t \<le> u" "u < (day_number t + 1) * day_ns"
  shows "day_number u = day_number t"
  using assms day_number_bounds(1) [of t] by (intro day_number_unique) simp_all

lemma in_hour:
  assumes "t \<le> u" "u < day_number t * day_ns + (time_hour t + 1) * hour"
  shows "day_number u = day_number t" "time_hour u = time_hour t"
proof -
  have "(time_hour t + 1) * hour \<le> day_ns"
    using hour_bounds(4) [of t] by (simp add: ns_defs)
  then show d: "day_number u = day_number t"
    using assms by (intro day_number_in_day) (simp_all add: distrib_right)
  show "time_hour u = time_hour t"
    using assms hour_bounds(1) [of t] unfolding d [symmetric] by (intro time_hour_unique) (simp_all add: d)
qed

lemma in_minute:
  assumes "t mod minute = 0" "t \<le> u" "u < t + minute"
  shows "time_minute u = time_minute t"
proof -
  have "t = t div minute * minute"
    using assms(1) div_mult_mod_eq [of t minute] by simp
  then have "u div minute = t div minute"
    using assms(2,3) by (intro int_div_pos_eq [where r = "u - t"]) (simp_all add: mult.commute)
  then show ?thesis by (simp add: time_minute_eq)
qed

lemma aligned [simp]:
  "((n + 1) * day_ns) mod minute = 0" "(n * day_ns + h * hour) mod minute = 0" "(t + minute) mod minute = t mod minute"
proof -
  have "n * day_ns + h * hour = minute * (n * 1440 + h * 60)" "(n + 1) * day_ns = minute * ((n + 1) * 1440)" for n h
    by (simp_all add: ns_defs)
  then show "((n + 1) * day_ns) mod minute = 0" "(n * day_ns + h * hour) mod minute = 0"
    by (metis mod_mult_self1_is_0)+
qed simp

text \<open>The first firing instant in a window, or that there is none: what the loop looks for.\<close>

definition first_match :: "schedule \<Rightarrow> go_time \<Rightarrow> go_time \<Rightarrow> go_time \<Rightarrow> bool" where
  "first_match s limit t r \<longleftrightarrow>
     (if r = zero_time then \<forall>u. t \<le> u \<and> u < limit \<longrightarrow> \<not> matches s u
      else t \<le> r \<and> r < limit \<and> r mod minute = 0 \<and> matches s r \<and> (\<forall>u. t \<le> u \<and> u < r \<longrightarrow> \<not> matches s u))"

lemma first_match_skip:
  assumes "t \<le> t'" "\<And>u. t \<le> u \<Longrightarrow> u < t' \<Longrightarrow> \<not> matches s u" "first_match s limit t' r"
  shows "first_match s limit t r"
  using assms unfolding first_match_def by (auto split: if_splits) (metis linorder_not_less)+

lemma next_loop_first_match:
  "0 < t \<Longrightarrow> t mod minute = 0 \<Longrightarrow> first_match s limit t (next_loop s limit t)"
proof (induction s limit t rule: next_loop.induct)
  case (1 s limit t)
  show ?case
  proof (cases "t < limit")
    case lim: True
    consider (day) "\<not> matchesDay s t"
      | (hr) "matchesDay s t" "\<not> set_has (hours s) (time_hour t)"
      | (mi) "matchesDay s t" "set_has (hours s) (time_hour t)" "\<not> set_has (minutes s) (time_minute t)"
      | (hit) "matchesDay s t" "set_has (hours s) (time_hour t)" "set_has (minutes s) (time_minute t)"
      by blast
    then show ?thesis
    proof cases
      case day
      let ?t = "(day_number t + 1) * day_ns"
      have "first_match s limit ?t (next_loop s limit ?t)"
        using "1.IH"(1) [OF lim day] "1.prems" day_number_bounds(2) [of t]
        unfolding time_date_next_day by simp
      moreover have "\<not> matches s u" if "t \<le> u" "u < ?t" for u
        using matchesDay_same_day [OF day_number_in_day [OF that]] day by (simp add: matches_def)
      ultimately show ?thesis
        using lim day day_number_bounds(2) [of t]
        by (subst next_loop.simps) (auto simp: time_date_next_day intro: first_match_skip [OF less_imp_le])
    next
      case hr
      let ?t = "day_number t * day_ns + (time_hour t + 1) * hour"
      have "first_match s limit ?t (next_loop s limit ?t)"
        using "1.IH"(2) [OF lim _ hr(2)] hr "1.prems" hour_bounds(2) [of t]
        unfolding time_date_next_hour by simp
      moreover have "\<not> matches s u" if "t \<le> u" "u < ?t" for u
        using in_hour [OF that] hr by (simp add: matches_def)
      ultimately show ?thesis
        using lim hr hour_bounds(2) [of t]
        by (subst next_loop.simps) (auto simp: time_date_next_hour intro: first_match_skip [OF less_imp_le])
    next
      case mi
      have "first_match s limit (t + minute) (next_loop s limit (t + minute))"
        using "1.IH"(3) [OF lim _ _ mi(3)] mi "1.prems" by (simp add: minute_def)
      moreover have "\<not> matches s u" if "t \<le> u" "u < t + minute" for u
        using in_minute [OF "1.prems"(2) that] mi by (simp add: matches_def)
      ultimately show ?thesis
        using lim mi first_match_skip [of t "t + minute"]
        by (subst next_loop.simps) (auto simp: minute_def)
    next
      case hit
      then show ?thesis
        using lim "1.prems" by (subst next_loop.simps) (auto simp: first_match_def matches_def zero_time_def)
    qed
  next
    case False
    then show ?thesis
      by (subst next_loop.simps) (auto simp: first_match_def)
  qed
qed

lemma next_start:
  assumes "0 \<le> after"
  defines "t \<equiv> time_truncate after minute + minute"
  shows "0 < t" "t mod minute = 0" "after < t" "t \<le> after + minute"
proof -
  have "0 \<le> after mod minute" "after mod minute < minute" "after mod minute \<le> after"
    using assms(1) by (simp_all add: minute_def zmod_le_nonneg_dividend)
  then show "0 < t" "after < t" "t \<le> after + minute"
    by (simp_all add: t_def time_truncate_def minute_def)
  show "t mod minute = 0"
    by (simp add: t_def time_truncate_def minus_mod_eq_div_mult)
qed

subsection \<open>Nothing valid is rarer than eight years\<close>

lemma leap_gap:
  assumes "\<And>k. 1 \<le> k \<Longrightarrow> k \<le> 7 \<Longrightarrow> \<not> is_leap (y + k)"
  shows "is_leap y" "is_leap (y + 8)"
proof -
  obtain k where k: "1 \<le> k" "k \<le> 4" "(y + k) mod 4 = 0"
  proof -
    have "(y + (4 - y mod 4)) mod 4 = 0" by presburger
    moreover have "0 \<le> y mod 4" "y mod 4 < 4" by simp_all
    ultimately show thesis by (intro that [of "4 - y mod 4"]) simp_all
  qed
  then have c: "(y + k) mod 100 = 0"
    using assms [of k] by (auto simp: is_leap_def)
  have "k = 4"
  proof (rule ccontr)
    assume "k \<noteq> 4"
    then have "\<not> is_leap (y + (k + 4))" using assms [of "k + 4"] k by simp
    moreover have "(y + (k + 4)) mod 4 = 0" using k(3) by presburger
    moreover have "(y + (k + 4)) mod 100 = ((y + k) mod 100 + 4) mod 100"
      by (simp add: mod_simps add.assoc)
    ultimately show False by (auto simp: is_leap_def c)
  qed
  then have y: "y = 100 * ((y + 4) div 100) - 4"
    using c mult_div_mod_eq [of 100 "y + 4"] by simp
  define j where "j = (y + 4) div 100"
  have "y mod 4 = 0" "(y + 8) mod 4 = 0"
    using k(3) \<open>k = 4\<close> by presburger+
  moreover have "y mod 100 = 96"
    using y unfolding j_def [symmetric] by (intro int_mod_pos_eq [where q = "j - 1"]) simp_all
  moreover have "(y + 8) mod 100 = 4"
    using y unfolding j_def [symmetric] by (intro int_mod_pos_eq [where q = j]) simp_all
  ultimately show "is_leap y" "is_leap (y + 8)"
    by (simp_all add: is_leap_def)
qed

definition at_clock :: "int \<Rightarrow> go_time \<Rightarrow> go_time" where
  "at_clock n u = n * day_ns + time_hour u * hour + time_minute u * minute"

lemma time_minute_range: "0 \<le> time_minute t" "time_minute t < 60"
  by (simp_all add: time_minute_eq)

lemma at_clock_offset: "0 \<le> time_hour u * hour + time_minute u * minute"
  "time_hour u * hour + time_minute u * minute < day_ns"
  using hour_bounds(3,4) [of u] time_minute_range [of u] by (simp_all add: ns_defs)

lemma at_clock_fields [simp]:
  "day_number (at_clock n u) = n" "time_hour (at_clock n u) = time_hour u" "time_minute (at_clock n u) = time_minute u"
proof -
  show d: "day_number (at_clock n u) = n"
    using at_clock_offset [of u] by (intro day_number_unique) (simp_all add: at_clock_def distrib_right)
  show "time_hour (at_clock n u) = time_hour u"
    using time_minute_range [of u] by (intro time_hour_unique) (simp_all only: d, simp_all add: at_clock_def ns_defs)
  have "at_clock n u div minute = n * 1440 + time_hour u * 60 + time_minute u"
    by (intro int_div_pos_eq [where r = 0]) (simp_all add: at_clock_def ns_defs)
  then show "time_minute (at_clock n u) = time_minute u"
    using time_minute_range [of u] unfolding time_minute_eq [of "at_clock n u"]
    by (intro int_mod_pos_eq [where q = "n * 24 + time_hour u"]) simp_all
qed

lemma matches_at_clock: "matches s u \<Longrightarrow> matches s (at_clock n u) \<longleftrightarrow> matchesDay s (at_clock n u)"
  by (simp add: matches_def)

lemma matchesDay_by:
  assumes "matchesDay s u"
  shows "(\<forall>v. time_month v = time_month u \<and> time_weekday v = time_weekday u \<longrightarrow> matchesDay s v)
       \<or> (\<forall>v. time_month v = time_month u \<and> time_day v = time_day u \<longrightarrow> matchesDay s v)"
  using assms by (auto simp: matchesDay_def Let_def split: if_splits)

lemma date_day_year_bounds:
  assumes "valid_date y m d"
  shows "days_before_year y \<le> date_day y m d" "date_day y m d < days_before_year (y + 1)"
  using year_of_day_bounds [of "date_day y m d"] by (simp_all add: fields_of_date_day [OF assms])

lemma add_years_ge: "days_before_year (time_year t + 8) * day_ns \<le> add_years t 8"
proof -
  have "0 \<le> days_before_month (time_year t + 8) (time_month t) + (time_day t - 1)"
    using valid_date_of_day [of "day_number t"] days_before_month_end(1) [of "time_month t" "time_year t + 8"]
    by (simp add: valid_date_def time_month_def time_day_def)
  moreover have "0 \<le> t mod day_ns" by (simp add: day_ns_def)
  ultimately show ?thesis
    by (simp add: add_years_def date_day_def day_ns_def)
qed

lemma at_clock_less: "n + 1 \<le> k \<Longrightarrow> at_clock n u < k * day_ns"
  using at_clock_offset(2) [of u] by (simp add: at_clock_def day_ns_def)

lemma at_clock_ge: "day_number t < n \<Longrightarrow> t \<le> at_clock n u"
  using at_clock_offset(1) [of u] day_number_bounds(2) [of t] by (simp add: at_clock_def day_ns_def)

text \<open>A date of one of the seven following years lies in the window the loop searches.\<close>

lemma window_years:
  fixes u :: go_time
  assumes "valid_date (time_year t + k) m d" "1 \<le> k" "k \<le> 7"
  defines "v \<equiv> at_clock (date_day (time_year t + k) m d) u"
  shows "t \<le> v" "v < add_years t 8" "time_month v = m" "time_day v = d"
proof -
  let ?n = "date_day (time_year t + k) m d"
  have "day_number t < days_before_year (time_year t + 1)"
    using year_of_day_bounds(2) by (simp add: time_year_def)
  also have "\<dots> \<le> ?n"
    using days_before_year_le [of "time_year t + 1" "time_year t + k"] date_day_year_bounds(1) [OF assms(1)] assms(2) by simp
  finally show "t \<le> v"
    unfolding v_def by (rule at_clock_ge)
  have "?n + 1 \<le> days_before_year (time_year t + 8)"
    using days_before_year_le [of "time_year t + k + 1" "time_year t + 8"] date_day_year_bounds(2) [OF assms(1)] assms(3) by simp
  then show "v < add_years t 8"
    unfolding v_def using at_clock_less add_years_ge less_le_trans by blast
  show "time_month v = m" "time_day v = d"
    by (simp_all add: v_def time_month_def time_day_def fields_of_date_day [OF assms(1)])
qed

lemma weekday_in_week:
  assumes "0 \<le> w" "w < 7"
  obtains d where "1 \<le> d" "d \<le> 7" "weekday_of_day (n + (d - 1)) = w"
proof -
  define d where "d = (w - (n + 1)) mod 7 + 1"
  have "(n + (d - 1) + 1) mod 7 = (n + 1 + (w - (n + 1)) mod 7) mod 7"
    by (simp add: d_def algebra_simps)
  also have "\<dots> = (n + 1 + (w - (n + 1))) mod 7"
    by (rule mod_add_right_eq)
  finally have "weekday_of_day (n + (d - 1)) = w"
    using assms by (simp add: weekday_of_day_def)
  moreover have "1 \<le> d" "d \<le> 7"
    using pos_mod_sign [of 7 "w - (n + 1)"] pos_mod_bound [of 7 "w - (n + 1)"] by (simp_all add: d_def)
  ultimately show thesis using that by blast
qed

text \<open>The leap day, when none of the seven following years has one.\<close>

lemma window_leap_gap:
  assumes "is_leap (time_year t)" "is_leap (time_year t + 8)"
  obtains v n where "v = at_clock n u" "t \<le> v" "v < add_years t 8" "time_month v = 2" "time_day v = 29"
proof -
  let ?y = "time_year t" and ?m = "time_month t" and ?d = "time_day t"
  let ?v0 = "at_clock (date_day ?y 2 29) u" and ?v8 = "at_clock (date_day (?y + 8) 2 29) u"
  have valid: "valid_date ?y 2 29" "valid_date (?y + 8) 2 29"
    using assms by (simp_all add: valid_date_def days_in_month_def)
  have f0: "time_month ?v0 = 2" "time_day ?v0 = 29" and f8: "time_month ?v8 = 2" "time_day ?v8 = 29"
    by (simp_all add: time_month_def time_day_def fields_of_date_day valid)
  have "days_before_year (?y + 1) \<le> days_before_year (?y + 8)"
    by (simp add: days_before_year_le)
  then have v0: "?v0 < add_years t 8"
    using at_clock_less [of "date_day ?y 2 29" "days_before_year (?y + 8)" u] add_years_ge [of t]
      date_day_year_bounds(2) [OF valid(1)] by simp
  have "days_before_month (?y + 8) ?m = days_before_month ?y ?m" "days_before_month (?y + 8) 2 = days_before_month ?y 2"
    using assms by (simp_all add: days_before_month_def)
  then have "date_day (?y + 8) ?m ?d - date_day (?y + 8) 2 29 = date_day ?y ?m ?d - date_day ?y 2 29"
    by (simp add: date_day_def)
  moreover have "date_day ?y ?m ?d = day_number t"
    using date_day_of_fields [of "day_number t" 0] by (simp add: time_year_def time_month_def time_day_def)
  ultimately have "date_day (?y + 8) ?m ?d = day_number t + date_day (?y + 8) 2 29 - date_day ?y 2 29"
    by simp
  moreover have "t = day_number t * day_ns + t mod day_ns"
    by (simp add: day_number_def)
  ultimately have "add_years t 8 - ?v8 = t - ?v0"
    unfolding add_years_def at_clock_def by (simp only: distrib_right left_diff_distrib)
  moreover have "t \<le> ?v8"
    using date_day_year_bounds(1) [OF valid(2)] days_before_year_le [of "?y + 1" "?y + 8"]
      year_of_day_bounds(2) [of "day_number t"]
    by (intro at_clock_ge) (simp add: time_year_def)
  ultimately show thesis
    using that [of ?v0] that [of ?v8] v0 f0 f8 by (cases "t \<le> ?v0") auto
qed

lemma window_has_match:
  assumes "matches s u"
  shows "\<exists>v. t \<le> v \<and> v < add_years t 8 \<and> matches s v"
proof -
  let ?y = "time_year t" and ?m = "time_month u" and ?d = "time_day u"
  have u: "valid_date (time_year u) ?m ?d"
    using valid_date_of_day by (simp add: time_year_def time_month_def time_day_def)
  have m: "1 \<le> ?m" "?m \<le> 12" "1 \<le> ?d" "?d \<le> days_in_month (time_year u) ?m"
    using u by (simp_all add: valid_date_def)
  have "matchesDay s u" using assms by (simp add: matches_def)
  then consider
      (weekday) "\<And>v. time_month v = ?m \<Longrightarrow> time_weekday v = time_weekday u \<Longrightarrow> matchesDay s v"
    | (day) "\<And>v. time_month v = ?m \<Longrightarrow> time_day v = ?d \<Longrightarrow> matchesDay s v"
    using matchesDay_by by blast
  then show ?thesis
  proof cases
    case weekday
    obtain d where d: "1 \<le> d" "d \<le> 7" "weekday_of_day (date_day (?y + 1) ?m 1 + (d - 1)) = time_weekday u"
      using weekday_in_week [of "time_weekday u"] by (auto simp: time_weekday_def weekday_of_day_def)
    then have "weekday_of_day (date_day (?y + 1) ?m d) = time_weekday u"
      by (simp add: date_day_def)
    moreover have "valid_date (?y + 1) ?m d"
      using m d by (simp add: valid_date_def days_in_month_def)
    ultimately show ?thesis
      using window_years [of t 1 ?m d u] weekday assms
      by (intro exI [of _ "at_clock (date_day (?y + 1) ?m d) u"]) (simp add: matches_at_clock time_weekday_def)
  next
    case day
    have hit: "matches s (at_clock n u)" if "time_month (at_clock n u) = ?m" "time_day (at_clock n u) = ?d" for n
      using day [OF that] assms by (simp add: matches_at_clock)
    show ?thesis
    proof (cases "\<exists>k. 1 \<le> k \<and> k \<le> 7 \<and> valid_date (?y + k) ?m ?d")
      case True
      then obtain k where "1 \<le> k" "k \<le> 7" "valid_date (?y + k) ?m ?d" by blast
      then show ?thesis using window_years [of t k ?m ?d u] hit by blast
    next
      case False
      then have "\<not> is_leap (?y + k)" if "1 \<le> k" "k \<le> 7" for k
        using m that by (auto simp: valid_date_def days_in_month_def split: if_splits)
      then have leap: "is_leap ?y" "is_leap (?y + 8)" using leap_gap [of ?y] by blast+
      have "?m = 2 \<and> ?d = 29"
        using False m by (auto simp: valid_date_def days_in_month_def split: if_splits intro: exI [of _ 1])
      with hit window_leap_gap [OF leap, of u] show ?thesis by metis
    qed
  qed
qed

section \<open>Properties\<close>

text \<open>
  C10: \<open>Next\<close> returns the first minute after the given time in which the schedule fires: the result
  is a whole minute, it is later, the schedule matches there, and it matches nowhere in between.
\<close>

theorem schedule_next_first:
  assumes "0 \<le> after" "schedule_next s after \<noteq> zero_time"
  shows "schedule_next s after mod minute = 0 \<and> after < schedule_next s after \<and>
    matches s (schedule_next s after) \<and>
    (\<forall>u. time_truncate after minute + minute \<le> u \<and> u < schedule_next s after \<longrightarrow> \<not> matches s u)"
  using next_loop_first_match [OF next_start(1,2) [OF assms(1)], of s "add_years (time_truncate after minute + minute) 8"]
    next_start(3) [OF assms(1)] assms(2)
  by (auto simp: schedule_next_def Let_def first_match_def)

text \<open>A schedule for the witnesses: every quarter of an hour from three to four in the morning.\<close>

definition quarter_schedule :: schedule where
  "quarter_schedule = \<lparr>minutes = 35185445863425, hours = 8, days = 4294967294, months = 8190, weekdays = 255,
     anyDay = True, anyWeekday = True, expr = ''*/15 3 * * *''\<rparr>"

lemma quarter_schedule_parsed: "parse ''*/15 3 * * *'' = Some (Inr quarter_schedule)"
  by code_simp

lemma quarter_schedule_next:
  "schedule_next quarter_schedule (time_date 2026 3 1 3 14) = time_date 2026 3 1 3 15"
  by code_simp

theorem schedule_next_first_witness:
  "parse ''*/15 3 * * *'' = Some (Inr quarter_schedule) \<and>
   schedule_next quarter_schedule (time_date 2026 3 1 3 14) = time_date 2026 3 1 3 15 \<and>
   matches quarter_schedule (time_date 2026 3 1 3 15)"
  using schedule_next_first [of "time_date 2026 3 1 3 14" quarter_schedule]
    quarter_schedule_parsed quarter_schedule_next
  by (simp add: time_date_def date_day_def days_before_year_def days_before_month_def ns_defs zero_time_def)

text \<open>
  C11: a schedule that fires at all, at whatever time, fires within the eight years that \<open>Next\<close>
  searches: a leap-day schedule waits at most that long, and nothing valid is rarer. So the zero
  time is returned only for a schedule that never fires, such as the thirtieth of February.
\<close>

theorem schedule_next_found:
  assumes "0 \<le> after"
  shows "schedule_next s after = zero_time \<longleftrightarrow> (\<forall>u. \<not> matches s u)"
proof -
  let ?t = "time_truncate after minute + minute"
  have first: "first_match s (add_years ?t 8) ?t (schedule_next s after)"
    unfolding schedule_next_def Let_def by (rule next_loop_first_match [OF next_start(1,2) [OF assms]])
  show ?thesis
    using first window_has_match [of s _ ?t] by (cases "schedule_next s after = zero_time") (auto simp: first_match_def)
qed

theorem schedule_next_found_witness:
  "matches quarter_schedule (time_date 2026 3 1 3 15) \<and>
   schedule_next quarter_schedule (time_date 2096 2 29 3 50) \<noteq> zero_time"
proof -
  have "matches quarter_schedule (time_date 2026 3 1 3 15)" by code_simp
  moreover have "0 \<le> time_date 2096 2 29 3 50" by code_simp
  ultimately show ?thesis
    using schedule_next_found [of "time_date 2096 2 29 3 50" quarter_schedule] by blast
qed

text \<open>
  The step \<open>5/9223372036854775807\<close> is accepted and means minute 5 alone, but the loop's counter
  wraps around and the set also holds minutes 3 and 1.
\<close>

theorem parse_step_wraps:
  "\<exists>s. parse ''5/9223372036854775807 * * * *'' = Some (Inr s) \<and>
     set_has (minutes s) 5 \<and> set_has (minutes s) 3 \<and> set_has (minutes s) 1 \<and>
     \<not> item_denotes (hd cron_fields) ''5/9223372036854775807'' 3 \<and>
     \<not> item_denotes (hd cron_fields) ''5/9223372036854775807'' 1"
proof -
  have "parse ''5/9223372036854775807 * * * *'' = Some (Inr \<lparr>minutes = 42, hours = 16777215, days = 4294967294,
      months = 8190, weekdays = 255, anyDay = True, anyWeekday = True, expr = ''5/9223372036854775807 * * * *''\<rparr>)"
    by code_simp
  moreover have "set_has 42 5" "set_has 42 3" "set_has 42 1"
    "\<not> item_denotes (hd cron_fields) ''5/9223372036854775807'' 3"
    "\<not> item_denotes (hd cron_fields) ''5/9223372036854775807'' 1" by code_simp+
  ultimately show ?thesis by simp
qed

end
