(* ===== verification/Go_Strings.thy ===== *)
theory Go_Strings
  imports Go_Prelude
begin

text \<open>
  Facts about the modelled parts of packages \<open>strconv\<close> and \<open>strings\<close> that the parsers share: \<open>Atoi\<close>
  reads what \<open>Itoa\<close> writes, cutting and splitting undo putting together, trimming leaves text
  without white space alone.
\<close>

section \<open>Numbers\<close>

lemma digit_char_val: "d < 10 \<Longrightarrow> is_digit (digit_char d) \<and> digit_val (digit_char d) = int d"
  unfolding is_digit_def digit_char_def digit_val_def of_nat_of_char[where ?'a = int, symmetric] by simp

lemma itoa_nat_digits: "list_all is_digit (itoa_nat n)"
  by (induction n rule: itoa_nat.induct) (subst itoa_nat.simps, simp add: digit_char_val)

lemma itoa_nat_not_Nil [simp]: "itoa_nat n \<noteq> []"
  by (subst itoa_nat.simps) simp

lemma digits_val_snoc:
  "digits_val k (xs @ [c]) = (case digits_val k xs of None \<Rightarrow> None | Some m \<Rightarrow> if is_digit c then Some (10 * m + digit_val c) else None)"
  by (induction xs arbitrary: k) (auto simp: option.case_eq_if)

lemma digits_val_itoa_nat: "digits_val 0 (itoa_nat n) = Some (int n)"
proof (induction n rule: itoa_nat.induct)
  case (1 n)
  show ?case
  proof (cases "n < 10")
    case True
    then show ?thesis
      by (subst itoa_nat.simps) (simp add: digit_char_val)
  next
    case False
    then show ?thesis
      using 1 by (subst itoa_nat.simps) (simp add: digits_val_snoc digit_char_val zdiv_int zmod_int)
  qed
qed

lemma is_digit_no_sign: "is_digit c \<Longrightarrow> c \<noteq> CHR ''-'' \<and> c \<noteq> CHR ''+'' \<and> c \<noteq> CHR ''.'' \<and> c \<noteq> CHR ''v''"
  by (auto simp: is_digit_def)

theorem atoi_itoa:
  assumes "0 \<le> n" "n \<le> max_int64"
  shows "atoi (itoa n) = Some n"
proof -
  obtain c cs where c: "itoa_nat (nat n) = c # cs"
    by (cases "itoa_nat (nat n)") auto
  then have "is_digit c"
    using itoa_nat_digits[of "nat n"] by simp
  then have "c \<noteq> CHR ''-''" "c \<noteq> CHR ''+''"
    using is_digit_no_sign by blast+
  then have "atoi (c # cs) = (case digits_val 0 (c # cs) of None \<Rightarrow> None | Some m \<Rightarrow> if in_int64 m then Some m else None)"
    by (simp only: atoi_def Let_def list.case split_beta fst_conv snd_conv if_False list.distinct)
  also have "\<dots> = Some n"
    using assms digits_val_itoa_nat[of "nat n"] unfolding c
    by (simp only: option.case int_nat_eq) (simp add: in_int64_def min_int64_def)
  finally show ?thesis
    using assms(1) c by (simp add: itoa_def)
qed

section \<open>Cutting and splitting\<close>

lemma cut_at_absent: "sep \<notin> set s \<Longrightarrow> cut_at sep s = (s, [], False)"
  by (induction s) auto

lemma cut_at_found: "sep \<notin> set a \<Longrightarrow> cut_at sep (a @ sep # b) = (a, b, True)"
  by (induction a) auto

lemma split_on_append: "sep \<notin> set a \<Longrightarrow> split_on sep (a @ sep # b) = a # split_on sep b"
  by (induction a) auto

lemma split_on_absent: "sep \<notin> set a \<Longrightarrow> split_on sep a = [a]"
  by (induction a) auto

lemma split_join: "ss \<noteq> [] \<Longrightarrow> (\<And>s. s \<in> set ss \<Longrightarrow> sep \<notin> set s) \<Longrightarrow> split_on sep (join_with sep ss) = ss"
  by (induction sep ss rule: join_with.induct) (auto simp: split_on_append split_on_absent)

lemma trim_prefix_absent: "s = [] \<or> hd s \<noteq> c \<Longrightarrow> trim_prefix s [c] = s"
  by (cases s) (auto simp: trim_prefix_def)

lemma trim_prefix_present [simp]: "trim_prefix (c # s) [c] = s"
  by (simp add: trim_prefix_def)

section \<open>White space\<close>

text \<open>The visible characters of ASCII.\<close>

definition visible :: "char \<Rightarrow> bool" where
  "visible c \<longleftrightarrow> 33 \<le> byte_val c \<and> byte_val c \<le> 126"

lemma space_width_visible: "list_all visible s \<Longrightarrow> space_width s = 0"
  by (cases s) (auto simp: space_width_def visible_def split: list.split)

lemma list_all_drop: "list_all P s \<Longrightarrow> list_all P (drop n s)"
  by (meson in_set_dropD list_all_iff)

lemma trim_space_visible:
  assumes "list_all visible s"
  shows "trim_space s = s"
proof -
  have "trim_left_space s = s"
    using space_width_visible[OF assms] by (cases s) auto
  moreover have "space_suffix s = 0"
    using space_width_visible[OF list_all_drop[OF assms]] by (simp add: space_suffix_def)
  ultimately show ?thesis
    by (simp add: trim_space_def trim_right_space.simps)
qed

lemma is_digit_visible: "is_digit c \<Longrightarrow> visible c"
  by (simp add: is_digit_def visible_def byte_val_def)

end
