(* ===== verification/Cron_Meaning.thy ===== *)
theory Cron_Meaning
  imports Cron Go_Strings
begin

text \<open>
  What a cron expression means, said without the parser of \<^verbatim>\<open>src/pkg/cron/cron.go\<close>: an expression is data here,
  five lists of items, with its own account of the times it stands for and of how it is written. The properties
  relate the parser and the matcher of \<open>Cron\<close> to it.
\<close>

section \<open>Expressions, their text and their meaning\<close>

datatype cron_word = Number int | Name nat

datatype cron_span = Every | Only cron_word | Between cron_word cron_word

type_synonym cron_item = "cron_span \<times> int option"

fun word_value :: "cron_field \<Rightarrow> cron_word \<Rightarrow> int" where
  "word_value f (Number n) = n"
| "word_value f (Name i) = field_min f + int i"

text \<open>A number within the bounds of the field, or one of its names; the last name of the weekdays is the first again.\<close>

fun word_ok :: "cron_field \<Rightarrow> cron_word \<Rightarrow> bool" where
  "word_ok f (Number n) \<longleftrightarrow> field_min f \<le> n \<and> n \<le> field_max f"
| "word_ok f (Name i) \<longleftrightarrow> i < length (field_names f) \<and> (\<forall>j < i. field_names f ! j \<noteq> field_names f ! i)"

fun span_ok :: "cron_field \<Rightarrow> cron_span \<Rightarrow> bool" where
  "span_ok f Every \<longleftrightarrow> True"
| "span_ok f (Only w) \<longleftrightarrow> word_ok f w"
| "span_ok f (Between v w) \<longleftrightarrow> word_ok f v \<and> word_ok f w \<and> word_value f v \<le> word_value f w"

text \<open>A step is at least 1; one within 64 of 2^63 makes the parser's loop wrap around, see \<open>parse_step_wraps\<close>.\<close>

definition step_ok :: "int option \<Rightarrow> bool" where
  "step_ok step \<longleftrightarrow> (case step of None \<Rightarrow> True | Some k \<Rightarrow> 1 \<le> k \<and> k \<le> max_int64 - 64)"

definition item_ok :: "cron_field \<Rightarrow> cron_item \<Rightarrow> bool" where
  "item_ok f item \<longleftrightarrow> span_ok f (fst item) \<and> step_ok (snd item)"

text \<open>One value with a step goes on to the end of the field.\<close>

fun span_means :: "cron_field \<Rightarrow> bool \<Rightarrow> cron_span \<Rightarrow> int \<times> int" where
  "span_means f stepped Every = (field_min f, field_max f)"
| "span_means f stepped (Only w) = (word_value f w, if stepped then field_max f else word_value f w)"
| "span_means f stepped (Between v w) = (word_value f v, word_value f w)"

definition item_means :: "cron_field \<Rightarrow> cron_item \<Rightarrow> int \<Rightarrow> bool" where
  "item_means f item n \<longleftrightarrow>
     (case (span_means f (snd item \<noteq> None) (fst item), snd item) of
        ((lo, hi), None) \<Rightarrow> lo \<le> n \<and> n \<le> hi
      | ((lo, hi), Some k) \<Rightarrow> lo \<le> n \<and> n \<le> hi \<and> k dvd (n - lo))"

definition field_means :: "cron_field \<Rightarrow> cron_item list \<Rightarrow> int \<Rightarrow> bool" where
  "field_means f items n \<longleftrightarrow> (\<exists>item \<in> set items. item_means f item n)"

fun write_word :: "cron_field \<Rightarrow> cron_word \<Rightarrow> string" where
  "write_word f (Number n) = itoa n"
| "write_word f (Name i) = field_names f ! i"

fun write_span :: "cron_field \<Rightarrow> cron_span \<Rightarrow> string" where
  "write_span f Every = ''*''"
| "write_span f (Only w) = write_word f w"
| "write_span f (Between v w) = write_word f v @ CHR ''-'' # write_word f w"

definition write_item :: "cron_field \<Rightarrow> cron_item \<Rightarrow> string" where
  "write_item f item = write_span f (fst item) @ (case snd item of None \<Rightarrow> [] | Some k \<Rightarrow> CHR ''/'' # itoa k)"

definition write_field :: "cron_field \<Rightarrow> cron_item list \<Rightarrow> string" where
  "write_field f items = join_with (CHR '','') (map (write_item f) items)"

record cron_expression =
  at_minutes :: "cron_item list"
  at_hours :: "cron_item list"
  at_days :: "cron_item list"
  at_months :: "cron_item list"
  at_weekdays :: "cron_item list"

definition field_lists :: "cron_expression \<Rightarrow> cron_item list list" where
  "field_lists x = [at_minutes x, at_hours x, at_days x, at_months x, at_weekdays x]"

definition expression_ok :: "cron_expression \<Rightarrow> bool" where
  "expression_ok x \<longleftrightarrow> list_all2 (\<lambda>f items. items \<noteq> [] \<and> list_all (item_ok f) items) cron_fields (field_lists x)"

definition write_expression :: "cron_expression \<Rightarrow> string" where
  "write_expression x = join_with (CHR '' '') (map2 write_field cron_fields (field_lists x))"

definition minute_field :: cron_field where "minute_field = cron_fields ! 0"
definition hour_field :: cron_field where "hour_field = cron_fields ! 1"
definition day_field :: cron_field where "day_field = cron_fields ! 2"
definition month_field :: cron_field where "month_field = cron_fields ! 3"
definition weekday_field :: cron_field where "weekday_field = cron_fields ! 4"

text \<open>
  The times of an expression. Sunday is 0 and 7. A day has to be one of the month or of the week that is asked
  for; one of the two lists that is a plain star leaves it to the other, and two others are alternatives.
\<close>

definition weekday_asked :: "cron_item list \<Rightarrow> int \<Rightarrow> bool" where
  "weekday_asked items d \<longleftrightarrow> field_means weekday_field items d \<or> d = 0 \<and> field_means weekday_field items 7"

definition expression_means :: "cron_expression \<Rightarrow> go_time \<Rightarrow> bool" where
  "expression_means x t \<longleftrightarrow>
     field_means minute_field (at_minutes x) (time_minute t) \<and>
     field_means hour_field (at_hours x) (time_hour t) \<and>
     field_means month_field (at_months x) (time_month t) \<and>
     (let star = [(Every, None)];
          day = field_means day_field (at_days x) (time_day t);
          weekday = weekday_asked (at_weekdays x) (time_weekday t)
      in if at_days x = star \<and> at_weekdays x = star then True
         else if at_days x = star then weekday
         else if at_weekdays x = star then day
         else day \<or> weekday)"

section \<open>Lemmas\<close>

subsection \<open>Words\<close>

lemma digits_of: "0 \<le> n \<Longrightarrow> c \<in> set (itoa n) \<Longrightarrow> is_digit c"
  using itoa_nat_digits[of "nat n"] by (auto simp: itoa_def list_all_iff)

lemma itoa_nonempty: "0 \<le> n \<Longrightarrow> itoa n \<noteq> []"
  by (simp add: itoa_def)

text \<open>The characters of words: digits and small letters, and thus none of the marks between them.\<close>

definition small_letter :: "char \<Rightarrow> bool" where
  "small_letter c \<longleftrightarrow> 97 \<le> byte_val c \<and> byte_val c \<le> 122"

lemma names_letters: "f \<in> set cron_fields \<Longrightarrow> name \<in> set (field_names f) \<Longrightarrow> name \<noteq> [] \<and> list_all small_letter name \<and> atoi name = None"
proof -
  have "list_all (\<lambda>f. list_all (\<lambda>name. name \<noteq> [] \<and> list_all small_letter name \<and> atoi name = None) (field_names f)) cron_fields"
    by code_simp
  then show "f \<in> set cron_fields \<Longrightarrow> name \<in> set (field_names f) \<Longrightarrow> ?thesis"
    by (auto simp: list_all_iff)
qed

lemma names_at:
  assumes "f \<in> set cron_fields" "i < length (field_names f)" "\<forall>j < i. field_names f ! j \<noteq> field_names f ! i"
  shows "name_index 0 (field_names f) (field_names f ! i) = Some (int i)"
proof -
  have "list_all (\<lambda>f. list_all (\<lambda>i. (\<forall>j \<in> {..<i}. field_names f ! j \<noteq> field_names f ! i) \<longrightarrow>
      name_index 0 (field_names f) (field_names f ! i) = Some (int i)) [0..<length (field_names f)]) cron_fields"
    by code_simp
  then show ?thesis
    using assms by (auto simp: list_all_iff)
qed

lemma word_number: "f \<in> set cron_fields \<Longrightarrow> word_ok f (Number n) \<Longrightarrow> 0 \<le> n \<and> n < 64"
  using wf_cron_fields by (fastforce simp: wf_field_def)

lemma word_chars:
  assumes "f \<in> set cron_fields" "word_ok f w"
  shows "write_word f w \<noteq> [] \<and> list_all (\<lambda>c. is_digit c \<or> small_letter c) (write_word f w)"
proof (cases w)
  case (Number n)
  then show ?thesis
    using word_number assms digits_of itoa_nonempty by (auto simp: list_all_iff)
next
  case (Name i)
  then show ?thesis
    using names_letters[OF assms(1), of "field_names f ! i"] assms(2) by (auto simp: list_all_iff)
qed

lemma word_reads:
  assumes "f \<in> set cron_fields" "word_ok f w"
  shows "field_value f (write_word f w) = Inr (word_value f w)"
proof (cases w)
  case (Number n)
  then show ?thesis
    using word_number[OF assms(1), of n] assms(2) atoi_itoa[of n] by (auto simp: field_value_def max_int64_def)
next
  case (Name i)
  then show ?thesis
    using names_letters[OF assms(1), of "field_names f ! i"] names_at[OF assms(1), of i] assms(2)
    by (auto simp: field_value_def)
qed

lemma plain_char:
  assumes "is_digit c \<or> small_letter c"
  shows "c \<noteq> CHR ''-''" "c \<noteq> CHR ''/''" "c \<noteq> CHR '',''" "c \<noteq> CHR ''*''" "visible c"
proof -
  have "list_all (\<lambda>c. is_digit c \<or> small_letter c \<longrightarrow>
      c \<noteq> CHR ''-'' \<and> c \<noteq> CHR ''/'' \<and> c \<noteq> CHR '','' \<and> c \<noteq> CHR ''*'' \<and> visible c) (Enum.enum :: char list)"
    by code_simp
  then have "\<forall>c. is_digit c \<or> small_letter c \<longrightarrow> c \<noteq> CHR ''-'' \<and> c \<noteq> CHR ''/'' \<and> c \<noteq> CHR '','' \<and> c \<noteq> CHR ''*'' \<and> visible c"
    by (simp add: list_all_iff enum_UNIV)
  then show "c \<noteq> CHR ''-''" "c \<noteq> CHR ''/''" "c \<noteq> CHR '',''" "c \<noteq> CHR ''*''" "visible c"
    using assms by blast+
qed

subsection \<open>Items\<close>

lemma word_marks:
  assumes "f \<in> set cron_fields" "word_ok f w"
  shows "CHR ''-'' \<notin> set (write_word f w)" "CHR ''/'' \<notin> set (write_word f w)" "CHR '','' \<notin> set (write_word f w)"
    "CHR ''*'' \<notin> set (write_word f w)" "list_all visible (write_word f w)" "write_word f w \<noteq> []"
proof -
  have c: "c \<noteq> CHR ''-'' \<and> c \<noteq> CHR ''/'' \<and> c \<noteq> CHR '','' \<and> c \<noteq> CHR ''*'' \<and> visible c" if "c \<in> set (write_word f w)" for c
    using word_chars[OF assms] plain_char[of c] that by (simp add: list_all_iff)
  then show "CHR ''-'' \<notin> set (write_word f w)" "CHR ''/'' \<notin> set (write_word f w)" "CHR '','' \<notin> set (write_word f w)"
    "CHR ''*'' \<notin> set (write_word f w)" "list_all visible (write_word f w)"
    by (blast, blast, blast, blast, simp add: list_all_iff)
  show "write_word f w \<noteq> []"
    using word_chars[OF assms] by simp
qed

lemma span_marks:
  assumes "f \<in> set cron_fields" "span_ok f s"
  shows "CHR ''/'' \<notin> set (write_span f s)" "CHR '','' \<notin> set (write_span f s)" "list_all visible (write_span f s)"
    "write_span f s \<noteq> []" "write_span f s = ''*'' \<longleftrightarrow> s = Every"
proof -
  have v: "visible CHR ''*''" "visible CHR ''-''"
    by code_simp+
  note m = word_marks[OF assms(1)]
  show "CHR ''/'' \<notin> set (write_span f s)" "CHR '','' \<notin> set (write_span f s)" "list_all visible (write_span f s)"
    "write_span f s \<noteq> []"
    using assms(2) v m(2,3,5,6) by (cases s; simp)+
  have "write_word f w \<noteq> ''*''" if "word_ok f w" for w
    using m(4)[OF that] by auto
  moreover have "write_word f v @ CHR ''-'' # t \<noteq> ''*''" if "word_ok f v" for v t
    using m(4)[OF that] m(6)[OF that] by (cases "write_word f v") auto
  ultimately show "write_span f s = ''*'' \<longleftrightarrow> s = Every"
    using assms(2) by (cases s) auto
qed

lemma span_reads:
  assumes "f \<in> set cron_fields" "span_ok f s"
  shows "item_range f (write_span f s) stepped = Inr (span_means f stepped s)"
proof (cases s)
  case Every
  then show ?thesis by (simp add: item_range_def)
next
  case (Only w)
  then show ?thesis
    using assms(2) word_marks(1)[OF assms(1)] word_reads[OF assms(1)] span_marks(5)[OF assms]
    by (simp add: item_range_def)
next
  case (Between v w)
  then show ?thesis
    using assms(2) cut_at_found[OF word_marks(1)[OF assms(1)]] word_reads[OF assms(1)] span_marks(5)[OF assms]
    by (simp add: item_range_def)
qed

lemma item_reads:
  assumes "f \<in> set cron_fields" "item_ok f item"
  shows "item_bounds f (write_item f item) = Inr
    (fst (span_means f (snd item \<noteq> None) (fst item)), snd (span_means f (snd item \<noteq> None) (fst item)),
     case snd item of None \<Rightarrow> 1 | Some k \<Rightarrow> k)"
proof (cases item)
  case (Pair s step)
  then have s: "span_ok f s" "step_ok step"
    using assms(2) by (simp_all add: item_ok_def)
  note m = span_marks[OF assms(1) s(1)]
  show ?thesis
  proof (cases step)
    case None
    then show ?thesis
      using m(4) cut_at_absent[OF m(1)] span_reads[OF assms(1) s(1), of False]
      by (simp add: Pair item_bounds_def write_item_def split: prod.split)
  next
    case (Some k)
    then have "atoi (itoa k) = Some k" "\<not> k < 1"
      using s(2) by (auto simp: step_ok_def max_int64_def intro!: atoi_itoa)
    then show ?thesis
      using Some cut_at_found[OF m(1), of "itoa k"] span_reads[OF assms(1) s(1), of True]
      by (simp add: Pair item_bounds_def write_item_def split: prod.split)
  qed
qed

lemma item_marks:
  assumes "f \<in> set cron_fields" "item_ok f item"
  shows "CHR '','' \<notin> set (write_item f item)" "list_all visible (write_item f item)" "write_item f item \<noteq> []"
    "write_item f item = ''*'' \<longleftrightarrow> item = (Every, None)"
proof -
  have s: "span_ok f (fst item)" "step_ok (snd item)"
    using assms(2) by (simp_all add: item_ok_def)
  note m = span_marks[OF assms(1) s(1)]
  have slash: "visible CHR ''/''"
    by code_simp
  have digits: "c \<noteq> CHR '','' \<and> visible c" if "Some k = snd item" "c \<in> set (itoa k)" for k c
    using that(2) s(2) digits_of[of k c] plain_char[of c] by (auto simp: step_ok_def that(1)[symmetric])
  show "CHR '','' \<notin> set (write_item f item)" "list_all visible (write_item f item)"
    using m(2,3) digits slash by (auto simp: write_item_def list_all_iff split: option.splits)
  show "write_item f item \<noteq> []"
    using m(4) by (simp add: write_item_def)
  show "write_item f item = ''*'' \<longleftrightarrow> item = (Every, None)"
    using m(4,5) by (cases item) (auto simp: write_item_def append_eq_Cons_conv split: option.splits)
qed

subsection \<open>Fields\<close>

lemma item_denotes_means:
  assumes "f \<in> set cron_fields" "item_ok f item"
  shows "item_denotes f (write_item f item) n \<longleftrightarrow> item_means f item n" "item_step_small f (write_item f item)"
  using assms(2) item_reads[OF assms]
  by (auto simp: item_denotes_def item_step_small_def item_means_def item_ok_def step_ok_def dvd_eq_mod_eq_0 max_int64_def split: option.splits)

lemma parse_items_accepts:
  "f \<in> set cron_fields \<Longrightarrow> list_all (item_ok f) items \<Longrightarrow> \<exists>w. parse_items f (map (write_item f) items) out = Some (Inr w)"
proof (induction items arbitrary: out)
  case (Cons item items)
  obtain lo hi step where b: "item_bounds f (write_item f item) = Inr (lo, hi, step)"
    using item_reads[of f item] Cons.prems by auto
  obtain w where "add_range lo hi step out = Some w"
    using add_range_total[OF item_bounds_range[OF _ b]] wf_cron_fields Cons.prems(1) by blast
  then show ?case
    using Cons.IH[of w] Cons.prems b by simp
qed simp

lemma field_split:
  assumes "f \<in> set cron_fields" "items \<noteq> []" "list_all (item_ok f) items"
  shows "split_on (CHR '','') (write_field f items) = map (write_item f) items"
  unfolding write_field_def using assms item_marks(1)[OF assms(1)] by (intro split_join) (auto simp: list_all_iff)

lemma field_marks:
  assumes "f \<in> set cron_fields" "items \<noteq> []" "list_all (item_ok f) items"
  shows "list_all visible (write_field f items)" "write_field f items \<noteq> []" "write_field f items = ''*'' \<longleftrightarrow> items = [(Every, None)]"
proof -
  have comma: "visible CHR '',''"
    by code_simp
  have items: "list_all visible s \<and> s \<noteq> []" if "s \<in> set (map (write_item f) items)" for s
    using that item_marks(2,3)[OF assms(1)] assms(3) by (auto simp: list_all_iff)
  have "list_all visible (join_with (CHR '','') ss)" if "\<forall>s \<in> set ss. list_all visible s" for ss
    using that comma by (induction "CHR '',''" ss rule: join_with.induct) auto
  then show "list_all visible (write_field f items)"
    using items by (simp add: write_field_def)
  obtain i more where i: "items = i # more"
    using assms(2) by (cases items) auto
  have "write_item f i \<noteq> []"
    using items i by auto
  then show "write_field f items \<noteq> []"
    by (cases more) (simp_all add: write_field_def i)
  show "write_field f items = ''*'' \<longleftrightarrow> items = [(Every, None)]"
  proof (cases more)
    case Nil
    then show ?thesis
      using item_marks(4)[OF assms(1)] assms(3) by (simp add: write_field_def i)
  next
    case (Cons j js)
    then show ?thesis
      using \<open>write_item f i \<noteq> []\<close> by (cases "write_item f i") (simp_all add: write_field_def i)
  qed
qed

lemma field_reads:
  assumes "f \<in> set cron_fields" "items \<noteq> []" "list_all (item_ok f) items"
  shows "\<exists>w. parseField f (write_field f items) = Some (Inr w) \<and> (\<forall>n. set_has w n \<longleftrightarrow> field_means f items n)"
proof -
  obtain w where w: "parse_items f (map (write_item f) items) 0 = Some (Inr w)"
    using parse_items_accepts[OF assms(1,3)] by blast
  have "list_all (item_step_small f) (map (write_item f) items)"
    using item_denotes_means(2)[OF assms(1)] assms(3) by (simp add: list_all_iff)
  then have "set_has w n \<longleftrightarrow> list_ex (\<lambda>item. item_denotes f item n) (map (write_item f) items)" for n
    using parse_items_denotes[of f "map (write_item f) items" 0 w n] w wf_cron_fields assms(1) by simp
  moreover have "list_ex (\<lambda>item. item_denotes f item n) (map (write_item f) items) \<longleftrightarrow> field_means f items n" for n
    using item_denotes_means(1)[OF assms(1)] assms(3) by (auto simp: list_ex_iff list_all_iff field_means_def)
  ultimately show ?thesis
    using w field_split[OF assms] by (simp add: parseField_def)
qed

subsection \<open>Expressions\<close>

lemma visible_width: "visible c \<Longrightarrow> space_width (c # cs) = 0"
  by (auto simp: space_width_def visible_def split: list.split)

lemma fields_from_visible: "list_all visible s \<Longrightarrow> fields_from cur (s @ CHR '' '' # rest) = (if cur = [] \<and> s = [] then [] else [rev cur @ s]) @ fields_from [] rest"
proof (induction s arbitrary: cur)
  case Nil
  have "space_width (CHR '' '' # rest) = 1"
    by (simp add: space_width_def byte_val_def)
  then show ?case by simp
qed (simp add: visible_width)

lemma fields_from_last: "list_all visible s \<Longrightarrow> fields_from cur s = (if cur = [] \<and> s = [] then [] else [rev cur @ s])"
  by (induction s arbitrary: cur) (simp_all add: visible_width)

lemma string_fields_join:
  "(\<And>s. s \<in> set ss \<Longrightarrow> list_all visible s \<and> s \<noteq> []) \<Longrightarrow> string_fields (join_with (CHR '' '') ss) = ss"
proof (induction "CHR '' ''" ss rule: join_with.induct)
  case (2 s)
  then show ?case using fields_from_last[of s "[]"] by (simp add: string_fields_def)
next
  case (3 s t ss)
  then show ?case using fields_from_visible[of s "[]"] by (simp add: string_fields_def)
qed (simp add: string_fields_def)

lemma parts_read:
  "\<lbrakk>list_all2 (\<lambda>f items. items \<noteq> [] \<and> list_all (item_ok f) items) fs xss; set fs \<subseteq> set cron_fields\<rbrakk> \<Longrightarrow>
    \<exists>ws. parse_parts fs (map2 write_field fs xss) = Some (Inr ws) \<and> length ws = length fs \<and>
      (\<forall>i < length fs. \<forall>n. set_has (ws ! i) n \<longleftrightarrow> field_means (fs ! i) (xss ! i) n)"
proof (induction rule: list_all2_induct)
  case (Cons f fs items xss)
  obtain w where w: "parseField f (write_field f items) = Some (Inr w)" "\<forall>n. set_has w n \<longleftrightarrow> field_means f items n"
    using field_reads[of f items] Cons.hyps Cons.prems by auto
  obtain ws where "parse_parts fs (map2 write_field fs xss) = Some (Inr ws)" "length ws = length fs"
      "\<forall>i < length fs. \<forall>n. set_has (ws ! i) n \<longleftrightarrow> field_means (fs ! i) (xss ! i) n"
    using Cons.IH Cons.prems by auto
  then show ?case
    using w by (intro exI[of _ "w # ws"]) (auto simp: less_Suc_eq_0_disj)
qed simp

lemma five_fields: "cron_fields = [minute_field, hour_field, day_field, month_field, weekday_field]"
  by (simp add: minute_field_def hour_field_def day_field_def month_field_def weekday_field_def cron_fields_def)

text \<open>
  C12: what the parser makes of an expression is what the expression means. Every expression that is within the bounds
  of the fields, whatever the lists, ranges, names and steps (smaller than 2^63 - 64), is accepted when it is
  written out, and the schedule matches exactly the moments of the independent account: minute, hour and month
  asked for, Sunday being 0 and 7, and of the day of the month and the day of the week both, either or none, by
  which of the two is a star.
\<close>

theorem parse_means:
  assumes "expression_ok x"
  shows "\<exists>s. parse (write_expression x) = Some (Inr s) \<and> (\<forall>t. matches s t \<longleftrightarrow> expression_means x t)"
proof -
  let ?lists = "[at_minutes x, at_hours x, at_days x, at_months x, at_weekdays x]"
  let ?parts = "map2 write_field cron_fields ?lists"
  have ok: "list_all2 (\<lambda>f items. items \<noteq> [] \<and> list_all (item_ok f) items) cron_fields ?lists"
    using assms by (simp add: expression_ok_def field_lists_def)
  obtain ws where ws: "parse_parts cron_fields ?parts = Some (Inr ws)" "length ws = length cron_fields"
      "\<forall>i < length cron_fields. \<forall>n. set_has (ws ! i) n \<longleftrightarrow> field_means (cron_fields ! i) (?lists ! i) n"
    using parts_read[OF ok order_refl] by blast
  have has: "set_has (ws ! 0) n \<longleftrightarrow> field_means minute_field (at_minutes x) n"
      "set_has (ws ! 1) n \<longleftrightarrow> field_means hour_field (at_hours x) n" "set_has (ws ! 2) n \<longleftrightarrow> field_means day_field (at_days x) n"
      "set_has (ws ! 3) n \<longleftrightarrow> field_means month_field (at_months x) n" "set_has (ws ! 4) n \<longleftrightarrow> field_means weekday_field (at_weekdays x) n" for n
    using ws(3) by (simp_all add: five_fields All_less_Suc numeral_nat)
  define w where "w = (if set_has (ws ! 4) 7 then set_add (ws ! 4) 0 else ws ! 4)"
  have weekday: "set_has w d \<longleftrightarrow> weekday_asked (at_weekdays x) d" for d
    by (auto simp: w_def weekday_asked_def has)
  have marks: "list_all visible p \<and> p \<noteq> []" if "p \<in> set ?parts" for p
    using that ok field_marks(1,2) by (auto simp: five_fields)
  have fields: "string_fields (write_expression x) = ?parts"
    unfolding write_expression_def field_lists_def by (rule string_fields_join) (rule marks)
  have stars: "?parts ! 2 = ''*'' \<longleftrightarrow> at_days x = [(Every, None)]" "?parts ! 4 = ''*'' \<longleftrightarrow> at_weekdays x = [(Every, None)]"
    using ok field_marks(3) by (simp_all add: five_fields numeral_nat)
  have five: "length ?parts = 5"
    by (simp add: five_fields)
  have "parse (write_expression x) = Some (Inr \<lparr>minutes = ws ! 0, hours = ws ! 1, days = ws ! 2, months = ws ! 3, weekdays = w,
      anyDay = (at_days x = [(Every, None)]), anyWeekday = (at_weekdays x = [(Every, None)]), expr = join_with (CHR '' '') ?parts\<rparr>)"
    unfolding parse_def fields Let_def ws(1) w_def stars[symmetric] using five by simp
  then show ?thesis
    by (simp add: matches_def matchesDay_def expression_means_def has(1-4) has(2)[unfolded One_nat_def] weekday Let_def)
qed

text \<open>Minutes 5 and 15, and 59, of every hour, on Sundays of March.\<close>

definition march_sundays :: cron_expression where
  "march_sundays = \<lparr>at_minutes = [(Between (Number 5) (Number 20), Some 10), (Only (Number 59), None)], at_hours = [(Every, None)],
     at_days = [(Every, None)], at_months = [(Only (Name 2), None)], at_weekdays = [(Only (Name 0), None)]\<rparr>"

theorem parse_means_witness:
  "write_expression march_sundays = ''5-20/10,59 * * mar sun'' \<and>
   (\<exists>s. parse ''5-20/10,59 * * mar sun'' = Some (Inr s) \<and>
     matches s (time_date 2026 3 1 3 15) \<and> \<not> matches s (time_date 2026 3 1 3 25) \<and> \<not> matches s (time_date 2026 3 2 3 15))"
proof -
  have x: "expression_ok march_sundays" "write_expression march_sundays = ''5-20/10,59 * * mar sun''"
    by code_simp+
  have "expression_means march_sundays (time_date 2026 3 1 3 15)" "\<not> expression_means march_sundays (time_date 2026 3 1 3 25)"
      "\<not> expression_means march_sundays (time_date 2026 3 2 3 15)"
    by code_simp+
  then show ?thesis
    using parse_means [OF x(1)] x(2) by metis
qed

end
