(* ===== verification/Deploy_State.thy ===== *)
theory Deploy_State
  imports Go_Prelude
begin

text \<open>
  The deployment state machine (\<^verbatim>\<open>src/agent/internal/deploy/state.go\<close>, the statuses of
  \<^verbatim>\<open>src/pkg/api/types.go\<close>) and the order of statuses that a resumed rollout goes by
  (\<open>progress\<close> in \<^verbatim>\<open>rollout.go\<close>). \<open>transitions\<close> is the code's table. The lemmas give the
  shape of the machine: what can follow a failure, and that \<open>progress\<close> grows along every edge
  between its statuses but the ones back to FAILED.
\<close>

section \<open>Definitions\<close>

datatype DeploymentStatus =
  StatusPending | StatusBuilding | StatusStarting | StatusHealthChecking | StatusHealthy
| StatusActive | StatusSuperseded | StatusFailed | StatusRollback | StatusRestoring | StatusRolledBack

text \<open>How a one-off container stands: a pre-deploy command, a scheduled job or a command.\<close>

datatype RunStatus = RunRunning | RunSucceeded | RunFailed | RunTimedOut | RunInterrupted

fun transitions :: "DeploymentStatus \<Rightarrow> DeploymentStatus list" where
  "transitions StatusPending = [StatusBuilding, StatusFailed]"
| "transitions StatusBuilding = [StatusStarting, StatusFailed]"
| "transitions StatusStarting = [StatusHealthChecking, StatusFailed]"
| "transitions StatusHealthChecking = [StatusHealthy, StatusFailed]"
| "transitions StatusHealthy = [StatusActive, StatusFailed]"
| "transitions StatusActive = [StatusSuperseded]"
| "transitions StatusFailed = [StatusRollback]"
| "transitions StatusRollback = [StatusRestoring, StatusFailed]"
| "transitions StatusRestoring = [StatusRolledBack, StatusFailed]"
| "transitions StatusSuperseded = []"
| "transitions StatusRolledBack = []"

fun has_status :: "DeploymentStatus list \<Rightarrow> DeploymentStatus \<Rightarrow> bool" where
  "has_status [] to = False"
| "has_status (nxt # rest) to = (if nxt = to then True else has_status rest to)"

definition CanTransition :: "DeploymentStatus \<Rightarrow> DeploymentStatus \<Rightarrow> bool" where
  "CanTransition from to = has_status (transitions from) to"

fun IsSettled :: "DeploymentStatus \<Rightarrow> bool" where
  "IsSettled StatusActive = True"
| "IsSettled StatusSuperseded = True"
| "IsSettled StatusFailed = True"
| "IsSettled StatusRolledBack = True"
| "IsSettled _ = False"

definition all_statuses :: "DeploymentStatus list" where
  "all_statuses =
     [StatusPending, StatusBuilding, StatusStarting, StatusHealthChecking, StatusHealthy, StatusActive,
      StatusSuperseded, StatusFailed, StatusRollback, StatusRestoring, StatusRolledBack]"

text \<open>The keys of \<open>transitions\<close> that are not settled; the code's order, a map's, is unspecified.\<close>

definition InFlightStatuses :: "DeploymentStatus list" where
  "InFlightStatuses = filter (\<lambda>s. \<not> IsSettled s) all_statuses"

text \<open>A map of the code: a status that is not a key, such as ACTIVE, reads as 0.\<close>

fun progress :: "DeploymentStatus \<Rightarrow> nat" where
  "progress StatusPending = 0"
| "progress StatusBuilding = 1"
| "progress StatusStarting = 2"
| "progress StatusHealthChecking = 3"
| "progress StatusHealthy = 4"
| "progress StatusFailed = 5"
| "progress StatusRollback = 6"
| "progress StatusRestoring = 7"
| "progress _ = 0"

section \<open>Lemmas\<close>

lemma has_status_iff: "has_status ss s \<longleftrightarrow> s \<in> set ss"
  by (induction ss) auto

lemma CanTransition_iff: "CanTransition from to \<longleftrightarrow> to \<in> set (transitions from)"
  by (simp add: CanTransition_def has_status_iff)

lemma set_all_statuses: "s \<in> set all_statuses"
  by (cases s) (simp_all add: all_statuses_def)

lemma in_flight_iff: "s \<in> set InFlightStatuses \<longleftrightarrow> \<not> IsSettled s"
  by (simp add: InFlightStatuses_def set_all_statuses)

lemma CanTransition_active: "CanTransition from StatusActive \<longleftrightarrow> from = StatusHealthy"
  by (cases "from") (simp_all add: CanTransition_iff)

lemma CanTransition_superseded: "CanTransition from StatusSuperseded \<longleftrightarrow> from = StatusActive"
  by (cases "from") (simp_all add: CanTransition_iff)

lemma CanTransition_from_active: "CanTransition StatusActive to \<longleftrightarrow> to = StatusSuperseded"
  by (cases to) (simp_all add: CanTransition_iff)

text \<open>Every status of work may fail.\<close>

lemma in_flight_can_fail: "\<not> IsSettled s \<Longrightarrow> CanTransition s StatusFailed"
  by (cases s) (simp_all add: CanTransition_iff)

lemma progress_step:
  "CanTransition from to \<Longrightarrow> to \<notin> {StatusFailed, StatusActive, StatusSuperseded, StatusRolledBack} \<Longrightarrow>
     progress to = Suc (progress from)"
  by (cases "from") (auto simp: CanTransition_iff)

text \<open>From one status \<open>reach\<close> may ask for exactly the next one, on the way up and on the way back.\<close>

lemma CanTransition_by_progress:
  "from \<notin> {StatusActive, StatusSuperseded, StatusRolledBack, StatusHealthy} \<Longrightarrow>
   to \<notin> {StatusActive, StatusSuperseded, StatusRolledBack, StatusFailed, StatusPending} \<Longrightarrow>
     CanTransition from to \<longleftrightarrow> progress to = Suc (progress from)"
  by (cases "from"; cases to) (simp_all add: CanTransition_iff)

text \<open>What can follow, in any number of steps.\<close>

inductive status_path :: "DeploymentStatus \<Rightarrow> DeploymentStatus \<Rightarrow> bool" where
  here: "status_path s s"
| further: "status_path s t \<Longrightarrow> CanTransition t u \<Longrightarrow> status_path s u"

lemma status_path_from_failed:
  "status_path s t \<Longrightarrow> s \<in> {StatusFailed, StatusRollback, StatusRestoring, StatusRolledBack} \<Longrightarrow>
     t \<in> {StatusFailed, StatusRollback, StatusRestoring, StatusRolledBack}"
proof (induction rule: status_path.induct)
  case (further s t u)
  then show ?case by (cases t) (auto simp: CanTransition_iff)
qed simp

end
