(* ===== verification/App_Spec.thy ===== *)
theory App_Spec
  imports Go_Prelude
begin

text \<open>
  The application's specification (\<^verbatim>\<open>src/pkg/spec/spec.go\<close>, the proxy block of \<^verbatim>\<open>src/pkg/spec/proxy.go\<close>).

  The alternatives that the code has as strings (restart policy, strategy, protocol) are datatypes, a map of
  strings (\<open>Env\<close>, \<open>Headers\<close>) is the list of its pairs. Left out are the limits on
  memory and CPU, which are numbers of Docker's and whose text is read as a floating-point number.
\<close>

datatype Strategy = StrategyRolling | StrategyRecreate

datatype RestartPolicy = RestartAlways | RestartOnFailure | RestartNever

datatype Protocol = ProtocolTCP | ProtocolUDP

record Health =
  h_path :: string
  h_tcp :: int
  h_command :: "string list"
  h_interval :: duration
  h_timeout :: duration
  h_retries :: int
  h_start_period :: duration

record Volume =
  vo_name :: string
  vo_path :: string

record Publish =
  pb_port :: int
  pb_host :: int
  pb_address :: string
  pb_protocol :: Protocol

record Hook =
  hk_command :: "string list"
  hk_timeout :: duration

record Job =
  jb_name :: string
  jb_schedule :: string
  jb_command :: "string list"
  jb_timeout :: duration

record Build =
  bd_context :: string
  bd_dockerfile :: string

record Static =
  st_dir :: string
  st_fallback :: string

record BasicAuth =
  ba_path :: string
  ba_username :: string
  ba_password :: string

record PathRedirect =
  pr_from :: string
  pr_to :: string
  pr_status :: int

record Proxy =
  px_strip :: bool
  px_headers :: "(string \<times> string) list"
  px_auth :: "BasicAuth list"
  px_redirects :: "PathRedirect list"

record Logging =
  lg_driver :: string
  lg_options :: "(string \<times> string) list"

record Backups =
  bk_schedule :: string
  bk_keep :: int
  bk_before :: "string list"
  bk_stop :: bool
  bk_before_timeout :: duration
  bk_before_in :: string

record Tmpfs =
  tf_path :: string
  tf_size :: int

text \<open>\<open>se_capabilities\<close> is None where the code's pointer is nil: Docker's default set stays.\<close>

record Security =
  se_read_only :: bool
  se_tmpfs :: "Tmpfs list"
  se_capabilities :: "string list option"
  se_non_root :: bool

record App =
  a_name :: string
  a_image :: string
  a_port :: int
  a_domain :: string
  a_aliases :: "string list"
  a_redirects :: "string list"
  a_replicas :: nat
  a_env :: "(string \<times> string) list"
  a_health :: "Health option"
  a_volumes :: "Volume list"
  a_publish :: "Publish list"
  a_entrypoint :: "string list"
  a_command :: "string list"
  a_user :: string
  a_pre_deploy :: "Hook option"
  a_jobs :: "Job list"
  a_logging :: "Logging option"
  a_build :: "Build option"
  a_static :: "Static option"
  a_path :: string
  a_proxy :: "Proxy option"
  a_backups :: "Backups option"
  a_restart :: RestartPolicy
  a_strategy :: Strategy
  a_stop_timeout :: duration
  a_init :: bool
  a_security :: "Security option"

text \<open>What \<open>validate\<close> starts from: the defaults of \<open>Parse\<close>.\<close>

definition DefaultReplicas :: nat where
  "DefaultReplicas = 1"

definition default_app :: App where
  "default_app = \<lparr>a_name = [], a_image = [], a_port = 0, a_domain = [], a_aliases = [], a_redirects = [],
     a_replicas = DefaultReplicas, a_env = [], a_health = None, a_volumes = [], a_publish = [], a_entrypoint = [], a_command = [],
     a_user = [], a_pre_deploy = None, a_jobs = [], a_logging = None, a_build = None, a_static = None, a_path = [], a_proxy = None, a_backups = None,
     a_restart = RestartAlways, a_strategy = StrategyRolling, a_stop_timeout = 0, a_init = False, a_security = None\<rparr>"

end
