(* ===== verification/Deployment_Store.thy ===== *)
theory Deployment_Store
  imports Deploy_State App_Spec "HOL-Library.Char_ord" "HOL-Library.List_Lexorder"
begin

text \<open>
  The deployment half of the store (\<^verbatim>\<open>src/agent/internal/store/deployments.go\<close>, \<^verbatim>\<open>applications.go\<close>,
  \<^verbatim>\<open>active.go\<close>, \<^verbatim>\<open>resume.go\<close>): the tables of the SQLite database as lists of rows, each SQL statement as
  a function on them, a transaction as a function whose error leaves the database as it was. What the
  driver itself may report (a full disk) is not in these functions: the engine's model decides whether
  a call reaches them. Encrypting the environment values of a specification on their way in and out
  is left out; a specification is stored as it is.

  \<open>db_inv\<close> is what the tables keep to; \<open>db_step\<close> are the ways in which the engine changes them. The
  locale \<open>status_log\<close> states what a client of the store relies on and is interpreted on these
  functions.
\<close>

section \<open>Definitions\<close>

datatype store_error = ErrNotFound | ErrConflict

datatype DesiredState = DesiredRunning | DesiredStopped

record Application =
  app_id :: int
  app_name :: string
  app_desired :: DesiredState
  app_active :: "int option"

record Deployment =
  d_id :: int
  d_application_id :: int
  d_application :: string
  d_sequence :: int
  d_spec :: App
  d_status :: DeploymentStatus
  d_error :: string
  d_started :: go_time
  d_completed :: "go_time option"
  d_kind :: string
  d_source :: "int option"
  d_actor :: string

record Replica =
  r_deployment :: int
  r_index :: nat
  r_container :: string
  r_restarts :: nat

text \<open>A row of \<open>deployment_replicas\<close>: the replica, and whether \<open>removed_at\<close> is set.\<close>

type_synonym replica_row = "Replica \<times> bool"

record db =
  applications :: "Application list"
  deployments :: "Deployment list"
  next_deployment :: int
  replica_rows :: "replica_row list"

subsection \<open>Applications\<close>

definition find_app :: "(Application \<Rightarrow> bool) \<Rightarrow> db \<Rightarrow> Application option" where
  "find_app P s = find P (applications s)"

definition GetApplication :: "string \<Rightarrow> db \<Rightarrow> store_error + Application" where
  "GetApplication name s =
     (case find_app (\<lambda>a. app_name a = name) s of None \<Rightarrow> Inl ErrNotFound | Some a \<Rightarrow> Inr a)"

text \<open>\<open>ORDER BY name\<close>: bytewise, as SQLite compares text.\<close>

definition ListApplications :: "db \<Rightarrow> Application list" where
  "ListApplications s = sort_key app_name (applications s)"

definition update_app :: "int \<Rightarrow> (Application \<Rightarrow> Application) \<Rightarrow> db \<Rightarrow> db" where
  "update_app i f s = s\<lparr>applications := map (\<lambda>a. if app_id a = i then f a else a) (applications s)\<rparr>"

definition SetDesiredState :: "int \<Rightarrow> DesiredState \<Rightarrow> db \<Rightarrow> store_error + db" where
  "SetDesiredState i state s =
     (if find_app (\<lambda>a. app_id a = i) s = None then Inl ErrNotFound
      else Inr (update_app i (\<lambda>a. a\<lparr>app_desired := state\<rparr>) s))"

text \<open>The deployments of the application and their replicas go with it (ON DELETE CASCADE).\<close>

definition DeleteApplication :: "int \<Rightarrow> db \<Rightarrow> store_error + db" where
  "DeleteApplication i s =
     (if find_app (\<lambda>a. app_id a = i) s = None then Inl ErrNotFound
      else
        let gone = map d_id (filter (\<lambda>d. d_application_id d = i) (deployments s))
        in Inr (s\<lparr>applications := filter (\<lambda>a. app_id a \<noteq> i) (applications s),
             deployments := filter (\<lambda>d. d_application_id d \<noteq> i) (deployments s),
             replica_rows := filter (\<lambda>(r, _). r_deployment r \<notin> set gone) (replica_rows s)\<rparr>))"

subsection \<open>Deployments\<close>

definition find_deployment :: "int \<Rightarrow> db \<Rightarrow> Deployment option" where
  "find_deployment i s = find (\<lambda>d. d_id d = i) (deployments s)"

definition GetDeployment :: "int \<Rightarrow> db \<Rightarrow> store_error + Deployment" where
  "GetDeployment i s = (case find_deployment i s of None \<Rightarrow> Inl ErrNotFound | Some d \<Rightarrow> Inr d)"

definition update_deployments :: "(Deployment \<Rightarrow> bool) \<Rightarrow> (Deployment \<Rightarrow> Deployment) \<Rightarrow> db \<Rightarrow> db" where
  "update_deployments P f s = s\<lparr>deployments := map (\<lambda>d. if P d then f d else d) (deployments s)\<rparr>"

text \<open>An INTEGER PRIMARY KEY without AUTOINCREMENT: one more than the largest in use.\<close>

definition next_app_id :: "db \<Rightarrow> int" where
  "next_app_id s = Max (insert 0 (set (map app_id (applications s)))) + 1"

definition register_app :: "string \<Rightarrow> db \<Rightarrow> db" where
  "register_app name s =
     (if find_app (\<lambda>a. app_name a = name) s = None then
        s\<lparr>applications := applications s @
          [\<lparr>app_id = next_app_id s, app_name = name, app_desired = DesiredRunning, app_active = None\<rparr>]\<rparr>
      else s)"

definition next_sequence :: "int \<Rightarrow> db \<Rightarrow> int" where
  "next_sequence app s =
     Max (insert 0 (set (map d_sequence (filter (\<lambda>d. d_application_id d = app) (deployments s))))) + 1"

text \<open>
  \<open>insertDeployment\<close>: the application is registered if it is new, the record gets the next id of
  the AUTOINCREMENT column and the application's next sequence number.
\<close>

definition insertDeployment :: "App \<Rightarrow> string \<Rightarrow> int option \<Rightarrow> string \<Rightarrow> go_time \<Rightarrow> db \<Rightarrow> (Deployment \<times> db) option" where
  "insertDeployment spec kind source actor now s =
     (let s1 = register_app (a_name spec) s
      in case find_app (\<lambda>a. app_name a = a_name spec) s1 of
           None \<Rightarrow> None
         | Some a \<Rightarrow>
             let d = \<lparr>d_id = next_deployment s1, d_application_id = app_id a, d_application = a_name spec,
                      d_sequence = next_sequence (app_id a) s1, d_spec = spec, d_status = StatusPending,
                      d_error = [], d_started = now, d_completed = None, d_kind = kind, d_source = source,
                      d_actor = actor\<rparr>
             in Some (d, s1\<lparr>deployments := deployments s1 @ [d], next_deployment := next_deployment s1 + 1\<rparr>))"

text \<open>A compare-and-swap: without a row to update, ErrConflict. An empty message keeps the error.\<close>

definition TransitionDeployment ::
    "int \<Rightarrow> DeploymentStatus \<Rightarrow> DeploymentStatus \<Rightarrow> string \<Rightarrow> db \<Rightarrow> store_error + db" where
  "TransitionDeployment i from to errMsg s =
     (let P = (\<lambda>d. d_id d = i \<and> d_status d = from)
      in if find P (deployments s) = None then Inl ErrConflict
         else Inr (update_deployments P
            (\<lambda>d. d\<lparr>d_status := to, d_error := (if errMsg = [] then d_error d else errMsg)\<rparr>) s))"

definition CompleteDeployment :: "int \<Rightarrow> go_time \<Rightarrow> db \<Rightarrow> db" where
  "CompleteDeployment i now s =
     update_deployments (\<lambda>d. d_id d = i \<and> d_completed d = None) (\<lambda>d. d\<lparr>d_completed := Some now\<rparr>) s"

definition CompleteAllDeployments :: "go_time \<Rightarrow> db \<Rightarrow> db" where
  "CompleteAllDeployments now s =
     update_deployments (\<lambda>d. d_completed d = None) (\<lambda>d. d\<lparr>d_completed := Some now\<rparr>) s"

definition CompleteDeploymentsExcept :: "int list \<Rightarrow> go_time \<Rightarrow> db \<Rightarrow> db" where
  "CompleteDeploymentsExcept except now s =
     update_deployments (\<lambda>d. d_completed d = None \<and> d_id d \<notin> set except)
       (\<lambda>d. d\<lparr>d_completed := Some now\<rparr>) s"

text \<open>The commit point: one transaction, so an error leaves everything as it was.\<close>

definition ActivateDeployment :: "int \<Rightarrow> db \<Rightarrow> store_error + db \<times> Deployment option" where
  "ActivateDeployment i s =
     (case find_deployment i s of
        None \<Rightarrow> Inl ErrNotFound
      | Some d \<Rightarrow>
          (case find_app (\<lambda>a. app_id a = d_application_id d) s of
             None \<Rightarrow> Inl ErrNotFound
           | Some a \<Rightarrow>
               (case TransitionDeployment i StatusHealthy StatusActive [] s of
                  Inl e \<Rightarrow> Inl e
                | Inr s1 \<Rightarrow>
                    let s2 = (case app_active a of
                                None \<Rightarrow> s1
                              | Some p \<Rightarrow> update_deployments (\<lambda>d. d_id d = p \<and> d_status d = StatusActive)
                                  (\<lambda>d. d\<lparr>d_status := StatusSuperseded\<rparr>) s1);
                        s3 = update_app (app_id a) (\<lambda>a. a\<lparr>app_active := Some i, app_desired := DesiredRunning\<rparr>) s2
                    in case app_active a of
                         None \<Rightarrow> Inr (s3, None)
                       | Some p \<Rightarrow>
                           (case find_deployment p s3 of
                              None \<Rightarrow> Inl ErrNotFound
                            | Some prev \<Rightarrow> Inr (s3, Some prev)))))"

record DeploymentFilter =
  f_application :: string
  f_statuses :: "DeploymentStatus list"
  f_limit :: nat

text \<open>Newest first: by sequence within one application, by id otherwise. 0 means no limit.\<close>

definition listDeployments :: "DeploymentFilter \<Rightarrow> db \<Rightarrow> Deployment list" where
  "listDeployments f s =
     (let hits = filter (\<lambda>d. (f_application f = [] \<or> d_application d = f_application f) \<and>
                             (f_statuses f = [] \<or> d_status d \<in> set (f_statuses f))) (deployments s);
          sorted = rev (sort_key (if f_application f \<noteq> [] then d_sequence else d_id) hits)
      in if f_limit f > 0 then take (f_limit f) sorted else sorted)"

subsection \<open>Replicas\<close>

definition AddReplica :: "Replica \<Rightarrow> db \<Rightarrow> db" where
  "AddReplica r s = s\<lparr>replica_rows := replica_rows s @ [(r\<lparr>r_restarts := 0\<rparr>, False)]\<rparr>"

definition MarkReplicaRemoved :: "string \<Rightarrow> db \<Rightarrow> db" where
  "MarkReplicaRemoved c s =
     s\<lparr>replica_rows := map (\<lambda>(r, removed). if r_container r = c \<and> \<not> removed then (r, True) else (r, removed))
         (replica_rows s)\<rparr>"

definition ListReplicas :: "int \<Rightarrow> db \<Rightarrow> Replica list" where
  "ListReplicas i s =
     sort_key r_index (map fst (filter (\<lambda>(r, removed). r_deployment r = i \<and> \<not> removed) (replica_rows s)))"

definition IncrementReplicaRestarts :: "string \<Rightarrow> db \<Rightarrow> db" where
  "IncrementReplicaRestarts c s =
     s\<lparr>replica_rows := map (\<lambda>(r, removed).
         if r_container r = c \<and> \<not> removed then (r\<lparr>r_restarts := r_restarts r + 1\<rparr>, removed) else (r, removed))
         (replica_rows s)\<rparr>"

text \<open>
  The applications by name, the active deployment of each and its replicas, and the deployments in
  one of the given statuses.
\<close>

record Active =
  act_applications :: "Application list"
  act_deployments :: "Deployment list"
  act_replicas :: "Replica list"
  act_in_flight :: "Deployment list"

definition active_ids :: "db \<Rightarrow> int list" where
  "active_ids s = List.map_filter app_active (applications s)"

definition ActiveDeployments :: "DeploymentStatus list \<Rightarrow> db \<Rightarrow> Active" where
  "ActiveDeployments statuses s =
     \<lparr>act_applications = ListApplications s,
      act_deployments = filter (\<lambda>d. d_id d \<in> set (active_ids s)) (deployments s),
      act_replicas = sort_key r_deployment (sort_key r_index
        (map fst (filter (\<lambda>(r, removed). r_deployment r \<in> set (active_ids s) \<and> \<not> removed) (replica_rows s)))),
      act_in_flight = (if statuses = [] then []
        else listDeployments \<lparr>f_application = [], f_statuses = statuses, f_limit = 0\<rparr> s)\<rparr>"

section \<open>The invariant of the tables\<close>

definition apps_inv :: "db \<Rightarrow> bool" where
  "apps_inv s \<longleftrightarrow> distinct (map app_id (applications s)) \<and> distinct (map app_name (applications s))"

definition deps_inv :: "db \<Rightarrow> bool" where
  "deps_inv s \<longleftrightarrow> distinct (map d_id (deployments s)) \<and> (\<forall>d \<in> set (deployments s). d_id d < next_deployment s) \<and>
     (\<forall>d \<in> set (deployments s). \<exists>a \<in> set (applications s). app_id a = d_application_id d)"

text \<open>An application's pointer and the status ACTIVE say the same.\<close>

definition active_inv :: "db \<Rightarrow> bool" where
  "active_inv s \<longleftrightarrow>
     (\<forall>a \<in> set (applications s). \<forall>i. app_active a = Some i \<longrightarrow>
        (\<exists>d \<in> set (deployments s). d_id d = i \<and> d_application_id d = app_id a)) \<and>
     (\<forall>d \<in> set (deployments s). d_status d = StatusActive \<longleftrightarrow>
        (\<exists>a \<in> set (applications s). app_id a = d_application_id d \<and> app_active a = Some (d_id d)))"

text \<open>Within one application the sequence grows with the id.\<close>

definition sequence_inv :: "db \<Rightarrow> bool" where
  "sequence_inv s \<longleftrightarrow>
     (\<forall>d \<in> set (deployments s). \<forall>e \<in> set (deployments s).
        d_application_id d = d_application_id e \<and> d_id d < d_id e \<longrightarrow> d_sequence d < d_sequence e)"

definition db_inv :: "db \<Rightarrow> bool" where
  "db_inv s \<longleftrightarrow> apps_inv s \<and> deps_inv s \<and> active_inv s \<and> sequence_inv s"

lemmas db_inv_defs = apps_inv_def deps_inv_def active_inv_def sequence_inv_def

definition empty_db :: db where
  "empty_db = \<lparr>applications = [], deployments = [], next_deployment = 1, replica_rows = []\<rparr>"

text \<open>
  The ways in which the engine changes the tables. A transition is one the state machine allows, and
  never to ACTIVE or SUPERSEDED: those two are written by \<open>ActivateDeployment\<close> alone.
\<close>

inductive db_step :: "db \<Rightarrow> db \<Rightarrow> bool" where
  create: "insertDeployment spec kind source actor now s = Some (d, s') \<Longrightarrow> db_step s s'"
| transit: "CanTransition from to \<Longrightarrow> to \<notin> {StatusActive, StatusSuperseded} \<Longrightarrow>
    TransitionDeployment i from to msg s = Inr s' \<Longrightarrow> db_step s s'"
| activate: "ActivateDeployment i s = Inr (s', previous) \<Longrightarrow> db_step s s'"
| complete: "db_step s (CompleteDeployment i now s)"
| complete_all: "db_step s (CompleteAllDeployments now s)"
| complete_except: "db_step s (CompleteDeploymentsExcept ids now s)"
| desire: "SetDesiredState i state s = Inr s' \<Longrightarrow> db_step s s'"
| delete: "DeleteApplication i s = Inr s' \<Longrightarrow> db_step s s'"
| add_replica: "db_step s (AddReplica r s)"
| remove_replica: "db_step s (MarkReplicaRemoved c s)"
| count_restart: "db_step s (IncrementReplicaRestarts c s)"

section \<open>Lemmas\<close>

lemma Max_less_insert: "finite A \<Longrightarrow> x \<in> A \<Longrightarrow> x < Max (insert 0 A) + (1 :: int)"
  by (meson Max_ge finite_insert insertCI zle_add1_eq_le)

lemma next_sequence_greater:
  "d \<in> set (deployments s) \<Longrightarrow> d_application_id d = i \<Longrightarrow> d_sequence d < next_sequence i s"
  unfolding next_sequence_def by (rule Max_less_insert) auto

lemma next_app_id_greater: "a \<in> set (applications s) \<Longrightarrow> app_id a < next_app_id s"
  unfolding next_app_id_def by (rule Max_less_insert) auto

subsection \<open>Every operation keeps the invariant\<close>

lemma db_inv_empty: "db_inv empty_db"
  by (simp add: db_inv_def db_inv_defs empty_db_def)

lemma register_app_inv: "db_inv s \<Longrightarrow> db_inv (register_app name s)"
  unfolding db_inv_def db_inv_defs register_app_def find_app_def
  by (auto simp: find_None_iff' dest: next_app_id_greater)

lemma insertDeployment_inv:
  assumes "insertDeployment spec kind source actor now s = Some (d, s')" "db_inv s"
  shows "db_inv s'"
proof -
  let ?s = "register_app (a_name spec) s"
  have inv: "db_inv ?s" using assms(2) by (rule register_app_inv)
  obtain a where a: "find_app (\<lambda>a. app_name a = a_name spec) ?s = Some a"
    using assms(1) by (auto simp: insertDeployment_def Let_def split: option.splits)
  then have mem: "a \<in> set (applications ?s)"
    by (auto simp: find_app_def dest: find_SomeD)
  have d: "d_id d = next_deployment ?s" "d_application_id d = app_id a" "d_status d = StatusPending"
      "d_sequence d = next_sequence (app_id a) ?s"
    and s': "s' = ?s\<lparr>deployments := deployments ?s @ [d], next_deployment := next_deployment ?s + 1\<rparr>"
    using assms(1) a by (auto simp: insertDeployment_def Let_def)
  have "d_id e < d_id d" if "e \<in> set (deployments ?s)" for e
    using inv that by (simp add: db_inv_def deps_inv_def d)
  moreover have "d_sequence e < d_sequence d" if "e \<in> set (deployments ?s)" "d_application_id e = app_id a" for e
    using next_sequence_greater that by (simp add: d)
  moreover have "app_active b \<noteq> Some (d_id d)" if "b \<in> set (applications ?s)" for b
    using inv that by (fastforce simp: db_inv_def deps_inv_def active_inv_def d)
  ultimately show ?thesis
    using inv mem d unfolding s' db_inv_def db_inv_defs by (auto 0 4)
qed

lemma update_deployments_inv:
  assumes "\<And>d. d_id (f d) = d_id d" "\<And>d. d_application_id (f d) = d_application_id d"
    "\<And>d. d_sequence (f d) = d_sequence d"
    and "\<And>d. d \<in> set (deployments s) \<Longrightarrow> P d \<Longrightarrow> d_status (f d) = StatusActive \<longleftrightarrow> d_status d = StatusActive"
    and "db_inv s"
  shows "db_inv (update_deployments P f s)"
proof -
  define g :: "Deployment \<Rightarrow> Deployment" where "g = (\<lambda>d. if P d then f d else d)"
  have g: "d_id (g d) = d_id d" "d_application_id (g d) = d_application_id d" "d_sequence (g d) = d_sequence d" for d
    using assms(1-3) by (simp_all add: g_def)
  have st: "d_status (g d) = StatusActive \<longleftrightarrow> d_status d = StatusActive" if "d \<in> set (deployments s)" for d
    using assms(4) that by (simp add: g_def)
  have new: "update_deployments P f s = s\<lparr>deployments := map g (deployments s)\<rparr>"
    by (simp add: update_deployments_def g_def)
  have "map d_id (map g xs) = map d_id xs" for xs
    by (simp add: g)
  then show ?thesis
    using assms(5) unfolding db_inv_def new
    by (simp add: db_inv_defs g st del: map_map)
qed

lemma TransitionDeployment_inv:
  "TransitionDeployment i from to msg s = Inr s' \<Longrightarrow> CanTransition from to \<Longrightarrow>
     to \<notin> {StatusActive, StatusSuperseded} \<Longrightarrow> db_inv s \<Longrightarrow> db_inv s'"
  by (auto simp: TransitionDeployment_def Let_def CanTransition_from_active split: if_splits
      intro!: update_deployments_inv)

lemma complete_inv:
  "db_inv s \<Longrightarrow> db_inv (CompleteDeployment i now s)"
  "db_inv s \<Longrightarrow> db_inv (CompleteAllDeployments now s)"
  "db_inv s \<Longrightarrow> db_inv (CompleteDeploymentsExcept ids now s)"
  by (simp_all add: CompleteDeployment_def CompleteAllDeployments_def CompleteDeploymentsExcept_def update_deployments_inv)

lemma update_app_inv:
  assumes "\<And>a. app_id (f a) = app_id a" "\<And>a. app_name (f a) = app_name a" "\<And>a. app_active (f a) = app_active a" "db_inv s"
  shows "db_inv (update_app i f s)"
proof -
  define g where "g = (\<lambda>a. if app_id a = i then f a else a)"
  have g: "app_id (g a) = app_id a" "app_name (g a) = app_name a" "app_active (g a) = app_active a" for a
    using assms(1-3) by (simp_all add: g_def)
  have new: "update_app i f s = s\<lparr>applications := map g (applications s)\<rparr>"
    by (simp add: update_app_def g_def)
  have "map app_id (map g xs) = map app_id xs" "map app_name (map g xs) = map app_name xs" for xs
    by (simp_all add: g)
  then show ?thesis
    using assms(4) unfolding db_inv_def new by (simp add: db_inv_defs g del: map_map)
qed

lemma SetDesiredState_inv: "SetDesiredState i state s = Inr s' \<Longrightarrow> db_inv s \<Longrightarrow> db_inv s'"
  by (auto simp: SetDesiredState_def update_app_inv split: if_splits)

lemma DeleteApplication_inv: "DeleteApplication i s = Inr s' \<Longrightarrow> db_inv s \<Longrightarrow> db_inv s'"
  unfolding db_inv_def db_inv_defs
  by (auto simp: DeleteApplication_def Let_def distinct_map_filter split: if_splits) (metis+)?

lemma replica_rows_inv:
  "db_inv (AddReplica r s) = db_inv s" "db_inv (MarkReplicaRemoved c s) = db_inv s"
  "db_inv (IncrementReplicaRestarts c s) = db_inv s"
  by (simp_all add: db_inv_def db_inv_defs AddReplica_def MarkReplicaRemoved_def IncrementReplicaRestarts_def)

text \<open>What a successful activation did, and what it found.\<close>

lemma ActivateDeploymentD:
  assumes "ActivateDeployment i s = Inr (s', previous)" "db_inv s"
  obtains d a where "d \<in> set (deployments s)" "d_id d = i" "d_status d = StatusHealthy"
    "a \<in> set (applications s)" "app_id a = d_application_id d" "app_active a \<noteq> Some i"
    "applications s' = map (\<lambda>b. if app_id b = app_id a then b\<lparr>app_active := Some i, app_desired := DesiredRunning\<rparr> else b) (applications s)"
    "deployments s' = map (\<lambda>e. if d_id e = i then e\<lparr>d_status := StatusActive\<rparr>
        else if Some (d_id e) = app_active a \<and> d_status e = StatusActive then e\<lparr>d_status := StatusSuperseded\<rparr> else e) (deployments s)"
    "next_deployment s' = next_deployment s" "replica_rows s' = replica_rows s"
proof -
  obtain d a where d: "find_deployment i s = Some d" and a: "find_app (\<lambda>a. app_id a = d_application_id d) s = Some a"
    using assms(1) by (auto simp: ActivateDeployment_def split: option.splits)
  have d': "d \<in> set (deployments s)" "d_id d = i" and a': "a \<in> set (applications s)" "app_id a = d_application_id d"
    using d a by (auto simp: find_deployment_def find_app_def dest: find_SomeD)
  have dist: "distinct (map d_id (deployments s))" using assms(2) by (simp add: db_inv_def deps_inv_def)
  have healthy: "d_status d = StatusHealthy"
    using assms(1) d a d' dist
    by (auto simp: ActivateDeployment_def TransitionDeployment_def Let_def find_None_iff' split: if_splits
        dest: map_of_eq_Some_iff inj_onD distinct_map [THEN iffD1])
  have "app_active a \<noteq> Some i"
    using assms(2) d' a' healthy by (fastforce simp: db_inv_def active_inv_def)
  moreover have "e = d" if "e \<in> set (deployments s)" "d_id e = i" for e
    using that d' dist by (metis (mono_tags, lifting) distinct_map inj_onD)
  moreover define s1 where
    "s1 = update_deployments (\<lambda>d. d_id d = i \<and> d_status d = StatusHealthy) (\<lambda>d. d\<lparr>d_status := StatusActive\<rparr>) s"
  moreover have "s' = update_app (app_id a) (\<lambda>a. a\<lparr>app_active := Some i, app_desired := DesiredRunning\<rparr>)
      (case app_active a of None \<Rightarrow> s1
       | Some p \<Rightarrow> update_deployments (\<lambda>d. d_id d = p \<and> d_status d = StatusActive) (\<lambda>d. d\<lparr>d_status := StatusSuperseded\<rparr>) s1)"
    using assms(1) d a unfolding s1_def ActivateDeployment_def TransitionDeployment_def Let_def
    by (simp split: if_splits option.splits)
  ultimately show thesis
    using healthy by (intro that [OF d' healthy a']) (auto simp: update_deployments_def update_app_def split: option.splits)
qed

lemma unique_dep: "db_inv s \<Longrightarrow> d \<in> set (deployments s) \<Longrightarrow> e \<in> set (deployments s) \<Longrightarrow> d_id d = d_id e \<Longrightarrow> d = e"
  unfolding db_inv_def deps_inv_def by (metis (mono_tags, lifting) distinct_map inj_onD)

lemma unique_app: "db_inv s \<Longrightarrow> a \<in> set (applications s) \<Longrightarrow> b \<in> set (applications s) \<Longrightarrow> app_id a = app_id b \<Longrightarrow> a = b"
  unfolding db_inv_def apps_inv_def by (metis (mono_tags, lifting) distinct_map inj_onD)

lemma active_pointer:
  assumes "db_inv s" "a \<in> set (applications s)" "d \<in> set (deployments s)"
  shows "app_active a = Some (d_id d) \<longleftrightarrow> d_status d = StatusActive \<and> d_application_id d = app_id a"
proof
  assume act: "app_active a = Some (d_id d)"
  then obtain e where "e \<in> set (deployments s)" "d_id e = d_id d" "d_application_id e = app_id a"
    using assms unfolding db_inv_def active_inv_def by metis
  with unique_dep [OF assms(1)] assms(3) have "d_application_id d = app_id a" by metis
  with act assms show "d_status d = StatusActive \<and> d_application_id d = app_id a"
    by (auto simp: db_inv_def active_inv_def)
next
  assume "d_status d = StatusActive \<and> d_application_id d = app_id a"
  with assms unique_app [OF assms(1,2)] show "app_active a = Some (d_id d)"
    unfolding db_inv_def active_inv_def by metis
qed

lemma ActivateDeployment_inv:
  assumes "ActivateDeployment i s = Inr (s', previous)" "db_inv s"
  shows "db_inv s'"
proof -
  obtain d a where d: "d \<in> set (deployments s)" "d_id d = i" "d_status d = StatusHealthy"
    and a: "a \<in> set (applications s)" "app_id a = d_application_id d" "app_active a \<noteq> Some i"
    and apps: "applications s' = map (\<lambda>b. if app_id b = app_id a then b\<lparr>app_active := Some i, app_desired := DesiredRunning\<rparr> else b) (applications s)"
    and deps: "deployments s' = map (\<lambda>e. if d_id e = i then e\<lparr>d_status := StatusActive\<rparr>
        else if Some (d_id e) = app_active a \<and> d_status e = StatusActive then e\<lparr>d_status := StatusSuperseded\<rparr> else e) (deployments s)"
    and rest: "next_deployment s' = next_deployment s" "replica_rows s' = replica_rows s"
    using assms by (rule ActivateDeploymentD)
  define h :: "Application \<Rightarrow> Application"
    where "h = (\<lambda>b. if app_id b = app_id a then b\<lparr>app_active := Some i, app_desired := DesiredRunning\<rparr> else b)"
  define g :: "Deployment \<Rightarrow> Deployment"
    where "g = (\<lambda>e. if d_id e = i then e\<lparr>d_status := StatusActive\<rparr>
        else if Some (d_id e) = app_active a \<and> d_status e = StatusActive then e\<lparr>d_status := StatusSuperseded\<rparr> else e)"
  have g: "d_id (g e) = d_id e" "d_application_id (g e) = d_application_id e" "d_sequence (g e) = d_sequence e" for e
    by (simp_all add: g_def)
  have h: "app_id (h b) = app_id b" "app_name (h b) = app_name b"
    "app_active (h b) = (if app_id b = app_id a then Some i else app_active b)" for b
    by (simp_all add: h_def)
  have s': "deployments s' = map g (deployments s)" "applications s' = map h (applications s)"
    using deps apps by (simp_all add: g_def h_def)
  have maps: "map d_id (map g xs) = map d_id xs" "map app_id (map h ys) = map app_id ys"
    "map app_name (map h ys) = map app_name ys" for xs ys
    by (simp_all add: g h)
  have st: "d_status (g e) = StatusActive \<longleftrightarrow>
      (\<exists>b \<in> set (applications s). app_id b = d_application_id e \<and> app_active (h b) = Some (d_id e))"
    if e: "e \<in> set (deployments s)" for e
  proof (cases "d_id e = i")
    case True
    then have "e = d" using unique_dep [OF assms(2)] d e by simp
    with a d show ?thesis by (auto simp: g_def h intro!: bexI [of _ a])
  next
    case False
    have "d_status (g e) = StatusActive \<longleftrightarrow> d_status e = StatusActive \<and> d_application_id e \<noteq> app_id a"
      using False active_pointer [OF assms(2) a(1) e] by (auto simp: g_def)
    also have "\<dots> \<longleftrightarrow> (\<exists>b \<in> set (applications s). app_id b = d_application_id e \<and> app_active (h b) = Some (d_id e))"
    proof
      assume l: "d_status e = StatusActive \<and> d_application_id e \<noteq> app_id a"
      obtain b where "b \<in> set (applications s)" "app_id b = d_application_id e"
        using assms(2) e by (auto simp: db_inv_def deps_inv_def)
      with l active_pointer [OF assms(2) _ e, of b]
      show "\<exists>b \<in> set (applications s). app_id b = d_application_id e \<and> app_active (h b) = Some (d_id e)"
        by (intro bexI [of _ b]) (simp_all add: h)
    next
      assume "\<exists>b \<in> set (applications s). app_id b = d_application_id e \<and> app_active (h b) = Some (d_id e)"
      then show "d_status e = StatusActive \<and> d_application_id e \<noteq> app_id a"
        using False active_pointer [OF assms(2) _ e] by (auto simp: h split: if_splits)
    qed
    finally show ?thesis .
  qed
  have ptr: "\<exists>e \<in> set (deployments s). d_id e = k \<and> d_application_id e = app_id b"
    if "b \<in> set (applications s)" "app_active (h b) = Some k" for b k
    using that assms(2) d a by (auto simp: h db_inv_def active_inv_def split: if_splits)
  show ?thesis
    using assms(2) ptr st unfolding db_inv_def
    by (simp add: db_inv_defs s' rest g h(1,2) maps del: map_map)
qed

lemma db_step_inv: "db_step s s' \<Longrightarrow> db_inv s \<Longrightarrow> db_inv s'"
  by (induction rule: db_step.induct)
    (auto simp: complete_inv replica_rows_inv insertDeployment_inv TransitionDeployment_inv ActivateDeployment_inv
      SetDesiredState_inv DeleteApplication_inv)

lemma db_steps_inv: "db_step\<^sup>*\<^sup>* s s' \<Longrightarrow> db_inv s \<Longrightarrow> db_inv s'"
  by (induction rule: rtranclp_induct) (auto intro: db_step_inv)

subsection \<open>What happens to a record\<close>

definition status_of :: "db \<Rightarrow> int \<Rightarrow> DeploymentStatus option" where
  "status_of s i = map_option d_status (find_deployment i s)"

text \<open>What never changes in a record.\<close>

definition same_record :: "Deployment \<Rightarrow> Deployment \<Rightarrow> bool" where
  "same_record d e \<longleftrightarrow> e = d\<lparr>d_status := d_status e, d_error := d_error e, d_completed := d_completed e\<rparr>"

definition known :: "db \<Rightarrow> int \<Rightarrow> bool" where
  "known s i \<longleftrightarrow> i < next_deployment s"

lemma find_update_deployments:
  "(\<And>d. d_id (f d) = d_id d) \<Longrightarrow>
     find_deployment i (update_deployments P f s) = map_option (\<lambda>d. if P d then f d else d) (find_deployment i s)"
  unfolding find_deployment_def update_deployments_def by (simp add: find_map_update)

lemma find_append: "find P (xs @ ys) = (case find P xs of None \<Rightarrow> find P ys | Some x \<Rightarrow> Some x)"
  by (induction xs) auto

lemma find_deployment_insert:
  assumes "insertDeployment spec kind source actor now s = Some (d, s')" "known s i"
  shows "find_deployment i s' = find_deployment i s" "known s' i"
  using assms
  by (auto simp: insertDeployment_def Let_def register_app_def known_def find_deployment_def find_append
      split: option.splits if_splits)

lemma find_deployment_delete:
  assumes "DeleteApplication j s = Inr s'" "db_inv s"
  shows "find_deployment i s' = (case find_deployment i s of None \<Rightarrow> None
     | Some d \<Rightarrow> if d_application_id d = j then None else Some d)"
proof -
  have s': "deployments s' = filter (\<lambda>d. d_application_id d \<noteq> j) (deployments s)"
    using assms(1) by (auto simp: DeleteApplication_def Let_def split: if_splits)
  have "find (\<lambda>d. d_id d = i) (filter (\<lambda>d. d_application_id d \<noteq> j) xs) = (case find (\<lambda>d. d_id d = i) xs of None \<Rightarrow> None
     | Some d \<Rightarrow> if d_application_id d = j then None else Some d)" if "distinct (map d_id xs)" for xs :: "Deployment list"
    using that by (induction xs) (auto simp: find_None_iff' image_iff split: option.splits dest!: find_SomeD)
  then show ?thesis
    using assms(2) by (simp add: find_deployment_def s' db_inv_def deps_inv_def)
qed

lemma find_deployment_replicas [simp]:
  "find_deployment i (AddReplica r s) = find_deployment i s"
  "find_deployment i (MarkReplicaRemoved c s) = find_deployment i s"
  "find_deployment i (IncrementReplicaRestarts c s) = find_deployment i s"
  "find_deployment i (update_app j f s) = find_deployment i s"
  by (simp_all add: find_deployment_def AddReplica_def MarkReplicaRemoved_def IncrementReplicaRestarts_def update_app_def)

lemma known_replicas [simp]:
  "known (AddReplica r s) i = known s i" "known (MarkReplicaRemoved c s) i = known s i"
  "known (IncrementReplicaRestarts c s) i = known s i" "known (update_app j f s) i = known s i"
  "known (update_deployments P g s) i = known s i"
  by (simp_all add: known_def AddReplica_def MarkReplicaRemoved_def IncrementReplicaRestarts_def update_app_def
      update_deployments_def)

text \<open>One step of the engine, seen from one record.\<close>

definition follows :: "Deployment option \<Rightarrow> Deployment option \<Rightarrow> bool" where
  "follows before after \<longleftrightarrow> (case (before, after) of
     (Some d, Some e) \<Rightarrow> same_record d e \<and> (d_status e = d_status d \<or> CanTransition (d_status d) (d_status e))
   | (None, Some e) \<Rightarrow> False
   | _ \<Rightarrow> True)"

lemma follows_refl [simp]: "follows x x"
  by (auto simp: follows_def same_record_def split: option.splits)

lemma follows_update:
  assumes "\<And>d. x = Some d \<Longrightarrow> same_record d (f d) \<and> (d_status (f d) = d_status d \<or> CanTransition (d_status d) (d_status (f d)))"
  shows "follows x (map_option f x)"
  using assms by (auto simp: follows_def split: option.splits)

lemma find_deployment_activate:
  assumes "ActivateDeployment j s = Inr (s', previous)" "db_inv s"
  shows "follows (find_deployment i s) (find_deployment i s')" "known s' i = known s i"
proof -
  obtain d and a :: Application where d: "d \<in> set (deployments s)" "d_id d = j" "d_status d = StatusHealthy"
    and deps: "deployments s' = map (\<lambda>e. if d_id e = j then e\<lparr>d_status := StatusActive\<rparr>
        else if Some (d_id e) = app_active a \<and> d_status e = StatusActive then e\<lparr>d_status := StatusSuperseded\<rparr> else e) (deployments s)"
    and n: "next_deployment s' = next_deployment s"
    by (rule ActivateDeploymentD [OF assms]) blast
  show "known s' i = known s i" by (simp add: known_def n)
  have healthy: "d_status e = StatusHealthy" if "e \<in> set (deployments s)" "d_id e = j" for e
    using that unique_dep [OF assms(2) d(1)] d by metis
  have step: "same_record e (g e) \<and> (d_status (g e) = d_status e \<or> CanTransition (d_status e) (d_status (g e)))"
    if "e \<in> set (deployments s)" "g = (\<lambda>e. if d_id e = j then e\<lparr>d_status := StatusActive\<rparr>
        else if Some (d_id e) = app_active a \<and> d_status e = StatusActive then e\<lparr>d_status := StatusSuperseded\<rparr> else e)" for e g
    using healthy [OF that(1)] unfolding that(2)
    by (simp add: same_record_def CanTransition_active CanTransition_superseded)
  show "follows (find_deployment i s) (find_deployment i s')"
    unfolding find_deployment_def deps
    by (subst find_map_update; (rule follows_update, rule step)?) (auto dest: find_SomeD)
qed

lemma db_step_follows:
  "db_step s s' \<Longrightarrow> db_inv s \<Longrightarrow> known s i \<Longrightarrow> follows (find_deployment i s) (find_deployment i s') \<and> known s' i"
proof (induction rule: db_step.induct)
  case (transit "from" to j msg s s')
  then have "s' = update_deployments (\<lambda>d. d_id d = j \<and> d_status d = from)
      (\<lambda>d. d\<lparr>d_status := to, d_error := (if msg = [] then d_error d else msg)\<rparr>) s"
    by (auto simp: TransitionDeployment_def Let_def split: if_splits)
  with transit show ?case
    by (auto simp: find_update_deployments same_record_def intro!: follows_update)
next
  case (delete j s s')
  moreover have "known s' i"
    using delete by (auto simp: known_def DeleteApplication_def Let_def split: if_splits)
  ultimately show ?case
    by (auto simp: find_deployment_delete follows_def same_record_def split: option.splits)
next
  case (desire j state s s')
  then show ?case by (auto simp: SetDesiredState_def split: if_splits)
qed (auto simp: find_deployment_insert find_deployment_activate CompleteDeployment_def CompleteAllDeployments_def
    CompleteDeploymentsExcept_def find_update_deployments same_record_def intro!: follows_update)

section \<open>The contract of the store\<close>

text \<open>
  What whoever watches a deployment through the store relies on: statuses change along the edges of
  the state machine only, and an id that was given out and is gone does not come back.
\<close>

locale status_log =
  fixes inv :: "'s \<Rightarrow> bool"
    and step :: "'s \<Rightarrow> 's \<Rightarrow> bool"
    and status :: "'s \<Rightarrow> 'i \<Rightarrow> DeploymentStatus option"
    and given :: "'s \<Rightarrow> 'i \<Rightarrow> bool"
  assumes step_inv: "step s t \<Longrightarrow> inv s \<Longrightarrow> inv t"
    and status_given: "inv s \<Longrightarrow> status s i = Some x \<Longrightarrow> given s i"
    and step_given: "step s t \<Longrightarrow> inv s \<Longrightarrow> given s i \<Longrightarrow> given t i"
    and step_edge: "step s t \<Longrightarrow> inv s \<Longrightarrow> status s i = Some x \<Longrightarrow> status t i = Some y \<Longrightarrow> x = y \<or> CanTransition x y"
    and step_gone: "step s t \<Longrightarrow> inv s \<Longrightarrow> given s i \<Longrightarrow> status s i = None \<Longrightarrow> status t i = None"
begin

lemma steps_path:
  assumes "step\<^sup>*\<^sup>* s t" "inv s" "status s i = Some x"
  shows "inv t \<and> given t i \<and> (status t i = None \<or> (\<exists>y. status t i = Some y \<and> status_path x y))"
  using assms(1)
proof (induction rule: rtranclp_induct)
  case base
  then show ?case using assms status_given by (auto intro: status_path.here)
next
  case (step t u)
  then have inv: "inv u" "given u i" using step_inv step_given by blast+
  show ?case
  proof (cases "status t i")
    case None
    then show ?thesis using step inv step_gone by blast
  next
    case (Some y)
    then have "status_path x y" using step.IH by simp
    then show ?thesis
      using inv step.IH step_edge [OF step.hyps(2) _ Some] by (cases "status u i") (auto intro: status_path.further)
  qed
qed

lemma no_active_after_failure:
  assumes "step\<^sup>*\<^sup>* s t" "inv s" "status s i = Some x"
    and "x \<in> {StatusFailed, StatusRollback, StatusRestoring, StatusRolledBack}"
  shows "status t i \<notin> {Some StatusActive, Some StatusSuperseded, Some StatusHealthy}"
  using steps_path [OF assms(1-3)] status_path_from_failed [OF _ assms(4)] by fastforce

end

interpretation store_log: status_log db_inv db_step status_of known
proof
  fix s t i x y
  show "db_step s t \<Longrightarrow> db_inv s \<Longrightarrow> db_inv t" by (rule db_step_inv)
  show "db_inv s \<Longrightarrow> status_of s i = Some x \<Longrightarrow> known s i"
    by (auto simp: status_of_def find_deployment_def known_def db_inv_def deps_inv_def dest!: find_SomeD)
  show "db_step s t \<Longrightarrow> db_inv s \<Longrightarrow> known s i \<Longrightarrow> known t i"
    using db_step_follows by blast
  show "db_step s t \<Longrightarrow> db_inv s \<Longrightarrow> known s i \<Longrightarrow> status_of s i = None \<Longrightarrow> status_of t i = None"
    using db_step_follows [of s t i] by (auto simp: follows_def status_of_def split: option.splits)
  assume *: "db_step s t" "db_inv s" "status_of s i = Some x" "status_of t i = Some y"
  then have "known s i"
    by (auto simp: status_of_def find_deployment_def known_def db_inv_def deps_inv_def dest!: find_SomeD)
  with * db_step_follows [of s t i] show "x = y \<or> CanTransition x y"
    by (auto simp: follows_def status_of_def split: option.splits)
qed

section \<open>Properties\<close>

definition demo_spec :: App where
  "demo_spec = default_app\<lparr>a_name := ''api'', a_image := ''api:1'', a_port := 8080, a_replicas := 2\<rparr>"

definition demo_create :: "db \<Rightarrow> db" where
  "demo_create s = (case insertDeployment demo_spec ''deploy'' None ''admin'' 7 s of Some (d, s') \<Rightarrow> s' | None \<Rightarrow> s)"

definition demo_transit :: "int \<Rightarrow> DeploymentStatus \<Rightarrow> DeploymentStatus \<Rightarrow> db \<Rightarrow> db" where
  "demo_transit i from to s = (case TransitionDeployment i from to [] s of Inr s' \<Rightarrow> s' | Inl e \<Rightarrow> s)"

definition demo_activate :: "int \<Rightarrow> db \<Rightarrow> db" where
  "demo_activate i s = (case ActivateDeployment i s of Inr (s', p) \<Rightarrow> s' | Inl e \<Rightarrow> s)"

lemma demo_create_step: "db_step\<^sup>*\<^sup>* s (demo_create s)"
  unfolding demo_create_def by (auto split: option.splits intro: db_step.create)

lemma demo_transit_step:
  "CanTransition from to \<Longrightarrow> to \<notin> {StatusActive, StatusSuperseded} \<Longrightarrow> db_step\<^sup>*\<^sup>* s (demo_transit i from to s)"
  unfolding demo_transit_def by (auto split: sum.splits intro: db_step.transit)

lemma demo_activate_step: "db_step\<^sup>*\<^sup>* s (demo_activate i s)"
  unfolding demo_activate_def by (auto split: sum.splits intro: db_step.activate)

text \<open>A first deployment that went through.\<close>

definition demo_db :: db where
  "demo_db = demo_activate 1 (demo_transit 1 StatusHealthChecking StatusHealthy
     (demo_transit 1 StatusStarting StatusHealthChecking (demo_transit 1 StatusBuilding StatusStarting
     (demo_transit 1 StatusPending StatusBuilding (demo_create empty_db)))))"

lemma demo_db_reachable: "db_step\<^sup>*\<^sup>* empty_db demo_db"
  unfolding demo_db_def
  by (intro rtranclp_trans [OF _ demo_activate_step] rtranclp_trans [OF _ demo_transit_step] demo_create_step)
    (simp_all add: CanTransition_iff)

text \<open>A second one that failed.\<close>

definition demo_db2 :: db where
  "demo_db2 = demo_transit 2 StatusPending StatusFailed (demo_create demo_db)"

lemma demo_db2_reachable: "db_step\<^sup>*\<^sup>* empty_db demo_db2"
  unfolding demo_db2_def
  by (intro rtranclp_trans [OF _ demo_transit_step] rtranclp_trans [OF demo_db_reachable] demo_create_step)
    (simp_all add: CanTransition_iff)

text \<open>
  C8: in every database the engine can produce, a deployment is ACTIVE exactly if its application
  names it as the active one; an application has at most one ACTIVE deployment, and the one it names
  exists and is its own.
\<close>

theorem one_active_deployment:
  assumes "db_step\<^sup>*\<^sup>* empty_db s" "a \<in> set (applications s)"
  shows "{d \<in> set (deployments s). d_application_id d = app_id a \<and> d_status d = StatusActive}
      = {d \<in> set (deployments s). app_active a = Some (d_id d)} \<and>
    card {d \<in> set (deployments s). app_active a = Some (d_id d)} = (if app_active a = None then 0 else 1)"
proof -
  have inv: "db_inv s" using db_steps_inv [OF assms(1) db_inv_empty] .
  show ?thesis
  proof (cases "app_active a")
    case (Some i)
    then obtain d where d: "d \<in> set (deployments s)" "d_id d = i"
      using inv assms(2) by (auto simp: db_inv_def active_inv_def)
    then have "{d \<in> set (deployments s). app_active a = Some (d_id d)} = {d}"
      using Some d by (auto intro: unique_dep [OF inv _ d(1)])
    then show ?thesis
      using Some active_pointer [OF inv assms(2)] by auto
  qed (use active_pointer [OF inv assms(2)] in auto)
qed

theorem one_active_deployment_witness:
  "card {d \<in> set (deployments demo_db). app_active (hd (applications demo_db)) = Some (d_id d)} = 1 \<and>
   d_status (hd (deployments demo_db)) = StatusActive"
proof -
  have a: "hd (applications demo_db) \<in> set (applications demo_db)" "app_active (hd (applications demo_db)) \<noteq> None"
    "d_status (hd (deployments demo_db)) = StatusActive"
    by code_simp+
  then show ?thesis using one_active_deployment [OF demo_db_reachable a(1)] by auto
qed

text \<open>
  C9: whatever the engine does to the database, a record keeps everything but its status, its error
  and its completion time, and its status changes only along an edge of the state machine.
\<close>

theorem record_follows_machine:
  assumes "db_step\<^sup>*\<^sup>* empty_db s" "db_step s t"
    and "find_deployment i s = Some d" "find_deployment i t = Some e"
  shows "same_record d e \<and> (d_status e = d_status d \<or> CanTransition (d_status d) (d_status e))"
proof -
  have inv: "db_inv s" using db_steps_inv [OF assms(1) db_inv_empty] .
  have "known s i"
    using store_log.status_given [OF inv, of i "d_status d"] assms(3) by (simp add: status_of_def)
  then show ?thesis
    using db_step_follows [OF assms(2) inv, of i] assms(3,4) by (simp add: follows_def)
qed

theorem record_follows_machine_witness:
  "\<exists>t. db_step demo_db2 t \<and> status_of demo_db2 2 = Some StatusFailed \<and> status_of t 2 = Some StatusRollback"
proof -
  let ?t = "demo_transit 2 StatusFailed StatusRollback demo_db2"
  have "TransitionDeployment 2 StatusFailed StatusRollback [] demo_db2 = Inr ?t"
    by code_simp
  then have step: "db_step demo_db2 ?t"
    by (rule db_step.transit [rotated 2]) (simp_all add: CanTransition_iff)
  have st: "status_of demo_db2 2 = Some StatusFailed" "status_of ?t 2 = Some StatusRollback"
    by code_simp+
  then obtain d e where "find_deployment 2 demo_db2 = Some d" "find_deployment 2 ?t = Some e"
    by (auto simp: status_of_def)
  with record_follows_machine [OF demo_db2_reachable step] have "same_record d e" by blast
  with step st show ?thesis by blast
qed

text \<open>
  a deployment that has failed, or is being rolled back, is never again healthy or active, whatever
  is done to the database afterwards.
\<close>

theorem failed_never_active:
  assumes "db_step\<^sup>*\<^sup>* empty_db s" "db_step\<^sup>*\<^sup>* s t"
    and "status_of s i \<in> {Some StatusFailed, Some StatusRollback, Some StatusRestoring, Some StatusRolledBack}"
  shows "status_of t i \<notin> {Some StatusActive, Some StatusSuperseded, Some StatusHealthy}"
proof -
  obtain x where "status_of s i = Some x" "x \<in> {StatusFailed, StatusRollback, StatusRestoring, StatusRolledBack}"
    using assms(3) by blast
  then show ?thesis
    by (rule store_log.no_active_after_failure [OF assms(2) db_steps_inv [OF assms(1) db_inv_empty]])
qed

theorem failed_never_active_witness:
  "status_of demo_db2 2 = Some StatusFailed \<and>
   status_of (demo_create (demo_transit 2 StatusFailed StatusRollback demo_db2)) 2 \<noteq> Some StatusActive"
proof -
  have st: "status_of demo_db2 2 = Some StatusFailed" by code_simp
  have "db_step\<^sup>*\<^sup>* demo_db2 (demo_create (demo_transit 2 StatusFailed StatusRollback demo_db2))"
    by (intro rtranclp_trans [OF demo_transit_step demo_create_step]) (simp_all add: CanTransition_iff)
  with failed_never_active [OF demo_db2_reachable this, of 2] st show ?thesis by simp
qed

end
