(* ===== verification/Jobs.thy ===== *)
theory Jobs
  imports "HOL-Library.Countable" Cron Deployment_Store
begin

text \<open>
  Scheduled jobs and commands (\<^verbatim>\<open>src/agent/internal/deploy/schedule.go\<close>, \<^verbatim>\<open>jobs.go\<close>, \<^verbatim>\<open>src/agent/internal/store/jobs.go\<close>):
  the history of runs, the one run a job may have at a time, and the scheduler's tick. A goroutine that waits for a
  container is a member of \<open>jw_collecting\<close>, and its end an event. The lock of an application is the environment's:
  it says whether the application was free. The events and notifications of a run that went wrong, and the log
  archive, are left out.
\<close>

section \<open>The history of runs\<close>

datatype RunKind = RunKindHook | RunKindScheduled | RunKindManual

record JobRun =
  jn_id :: int
  jn_application_id :: int
  jn_deployment :: "int option"
  jn_job :: string
  jn_kind :: RunKind
  jn_command :: "string list"
  jn_status :: RunStatus
  jn_exitCode :: "int option"
  jn_output :: string
  jn_startedAt :: go_time
  jn_finishedAt :: "go_time option"

text \<open>The rows, oldest first, and the last id that was given out.\<close>

record run_table =
  rr_rows :: "JobRun list"
  rr_seq :: int

definition CreateJobRun :: "int \<Rightarrow> int option \<Rightarrow> string \<Rightarrow> RunKind \<Rightarrow> string list \<Rightarrow> go_time \<Rightarrow> run_table \<Rightarrow> JobRun \<times> run_table" where
  "CreateJobRun app deployment job kind command now t =
     (let i = rr_seq t + 1;
          r = \<lparr>jn_id = i, jn_application_id = app, jn_deployment = deployment, jn_job = job, jn_kind = kind, jn_command = command,
            jn_status = RunRunning, jn_exitCode = None, jn_output = [], jn_startedAt = now, jn_finishedAt = None\<rparr>
      in (r, \<lparr>rr_rows = rr_rows t @ [r], rr_seq = i\<rparr>))"

definition update_runs :: "(JobRun \<Rightarrow> bool) \<Rightarrow> (JobRun \<Rightarrow> JobRun) \<Rightarrow> run_table \<Rightarrow> run_table" where
  "update_runs P f t = t\<lparr>rr_rows := map (\<lambda>r. if P r then f r else r) (rr_rows t)\<rparr>"

definition FinishJobRun :: "int \<Rightarrow> RunStatus \<Rightarrow> int option \<Rightarrow> string \<Rightarrow> go_time \<Rightarrow> run_table \<Rightarrow> run_table" where
  "FinishJobRun i status code output now =
     update_runs (\<lambda>r. jn_id r = i \<and> jn_status r = RunRunning)
       (\<lambda>r. r\<lparr>jn_status := status, jn_exitCode := code, jn_output := output, jn_finishedAt := Some now\<rparr>)"

definition MarkJobRunsInterrupted :: "go_time \<Rightarrow> run_table \<Rightarrow> run_table" where
  "MarkJobRunsInterrupted now =
     update_runs (\<lambda>r. jn_status r = RunRunning) (\<lambda>r. r\<lparr>jn_status := RunInterrupted, jn_finishedAt := Some now\<rparr>)"

definition GetJobRun :: "int \<Rightarrow> run_table \<Rightarrow> JobRun option" where
  "GetJobRun i t = find (\<lambda>r. jn_id r = i) (rr_rows t)"

text \<open>Newest first, without the output; \<open>job\<close> narrows unless it is empty.\<close>

definition ListJobRuns :: "int \<Rightarrow> string \<Rightarrow> int \<Rightarrow> run_table \<Rightarrow> JobRun list" where
  "ListJobRuns app job limit t =
     (let runs = map (\<lambda>r. r\<lparr>jn_output := []\<rparr>) (rev (sort_key jn_id (filter (\<lambda>r. jn_application_id r = app \<and> (job = [] \<or> jn_job r = job)) (rr_rows t))))
      in if limit > 0 then take (nat limit) runs else runs)"

definition LastJobRuns :: "int \<Rightarrow> run_table \<Rightarrow> string \<Rightarrow> JobRun option" where
  "LastJobRuns app t job = (if job = [] then None else case ListJobRuns app job 1 t of [] \<Rightarrow> None | r # _ \<Rightarrow> Some r)"

definition PruneJobRuns :: "int \<Rightarrow> string \<Rightarrow> nat \<Rightarrow> run_table \<Rightarrow> run_table" where
  "PruneJobRuns app job keep t =
     (let mine = filter (\<lambda>r. jn_application_id r = app \<and> jn_job r = job) (rr_rows t);
          kept = map jn_id (take keep (rev (sort_key jn_id mine)))
      in t\<lparr>rr_rows := filter (\<lambda>r. \<not> (jn_application_id r = app \<and> jn_job r = job \<and> jn_id r \<notin> set kept)) (rr_rows t)\<rparr>)"

section \<open>Runs of the engine\<close>

definition hookJobName :: string where "hookJobName = ''pre-deploy''"
definition commandJobName :: string where "commandJobName = ''run''"
definition jobRunsKept :: nat where "jobRunsKept = 50"

text \<open>A run whose container was started: the goroutine that waits for it will release what \<open>cl_exclusive\<close> says.\<close>

record collector =
  cl_run :: int
  cl_application_id :: int
  cl_application :: string
  cl_job :: string
  cl_exclusive :: bool

record job_world =
  jw_runs :: run_table
  jw_active :: "string list"
  jw_lastTick :: "string \<Rightarrow> go_time option"
  jw_collecting :: "collector list"
  jw_ops :: nat
  jw_closed :: bool

datatype launched = Launched | CreateFailed string | StartFailed string

record job_env =
  je_now :: go_time
  je_list :: bool
  je_free :: "string \<Rightarrow> bool"
  je_load :: "int \<Rightarrow> bool"
  je_record :: "string \<Rightarrow> string \<Rightarrow> bool"
  je_launch :: "string \<Rightarrow> string \<Rightarrow> launched"
  je_finish :: "string \<Rightarrow> string \<Rightarrow> bool"

datatype job_error = ErrJobRunning | ErrShuttingDown | NotRecorded | NotLaunched string

definition job_key :: "string \<Rightarrow> string \<Rightarrow> string" where
  "job_key app job = app @ ''/'' @ job"

definition job_claim :: "string \<Rightarrow> string \<Rightarrow> job_world \<Rightarrow> job_world option" where
  "job_claim app job w =
     (if job_key app job \<in> set (jw_active w) then None else Some (w\<lparr>jw_active := job_key app job # jw_active w\<rparr>))"

definition job_release :: "string \<Rightarrow> string \<Rightarrow> job_world \<Rightarrow> job_world" where
  "job_release app job w = w\<lparr>jw_active := filter (\<lambda>k. k \<noteq> job_key app job) (jw_active w)\<rparr>"

definition finishRun :: "bool \<Rightarrow> int \<Rightarrow> RunStatus \<Rightarrow> int option \<Rightarrow> string \<Rightarrow> go_time \<Rightarrow> job_world \<Rightarrow> job_world" where
  "finishRun works i status code output now w =
     (if works then w\<lparr>jw_runs := FinishJobRun i status code output now (jw_runs w)\<rparr> else w)"

text \<open>A container that could not be created or started ends the run at once.\<close>

definition launchJob :: "job_env \<Rightarrow> string \<Rightarrow> JobRun \<Rightarrow> job_world \<Rightarrow> string option \<times> job_world" where
  "launchJob e app r w =
     (let fail = (\<lambda>msg. (Some msg, finishRun (je_finish e app (jn_job r)) (jn_id r) RunFailed None msg (je_now e) w))
      in case je_launch e app (jn_job r) of
           Launched \<Rightarrow> (None, w)
         | CreateFailed err \<Rightarrow> fail (''could not create the container: '' @ err)
         | StartFailed err \<Rightarrow> fail (''could not start the container: '' @ err))"

definition startJob :: "job_env \<Rightarrow> Deployment \<Rightarrow> string \<Rightarrow> RunKind \<Rightarrow> string list \<Rightarrow> job_world \<Rightarrow> (job_error + JobRun) \<times> job_world" where
  "startJob e d job kind command w =
     (let app = d_application d;
          exclusive = (job \<noteq> commandJobName);
          release = (\<lambda>w. if exclusive then job_release app job w else w)
      in case (if exclusive then job_claim app job w else Some w) of
           None \<Rightarrow> (Inl ErrJobRunning, w)
         | Some w1 \<Rightarrow>
             if jw_closed w1 then (Inl ErrShuttingDown, release w1)
             else
               let w2 = w1\<lparr>jw_ops := jw_ops w1 + 1\<rparr>;
                   undo = (\<lambda>w. (release w)\<lparr>jw_ops := jw_ops w - 1\<rparr>)
               in if \<not> je_record e app job then (Inl NotRecorded, undo w2)
                  else case CreateJobRun (d_application_id d) (Some (d_id d)) job kind command (je_now e) (jw_runs w2) of
                    (r, t) \<Rightarrow>
                      (case launchJob e app r (w2\<lparr>jw_runs := t\<rparr>) of
                         (Some err, w3) \<Rightarrow> (Inl (NotLaunched err), undo w3)
                       | (None, w3) \<Rightarrow>
                           (Inr r, w3\<lparr>jw_collecting := jw_collecting w3 @ [\<lparr>cl_run = jn_id r, cl_application_id = d_application_id d,
                              cl_application = app, cl_job = job, cl_exclusive = exclusive\<rparr>]\<rparr>)))"

text \<open>How a container ended: with a code, beyond its timeout, with the agent shutting down, or lost.\<close>

datatype container_end = ExitedWith int | OutlivedTimeout | AgentEnded | WaitFailed

definition run_outcome :: "container_end \<Rightarrow> RunStatus \<times> int option" where
  "run_outcome ce =
     (case ce of
        ExitedWith code \<Rightarrow> ((if code = 0 then RunSucceeded else RunFailed), Some code)
      | OutlivedTimeout \<Rightarrow> (RunTimedOut, None)
      | AgentEnded \<Rightarrow> (RunInterrupted, None)
      | WaitFailed \<Rightarrow> (RunFailed, None))"

text \<open>The goroutine of a run: \<open>collectJob\<close>, the pruning of \<open>reportRun\<close>, and its deferred calls.\<close>

definition collectJob :: "collector \<Rightarrow> container_end \<Rightarrow> string \<Rightarrow> bool \<Rightarrow> bool \<Rightarrow> go_time \<Rightarrow> job_world \<Rightarrow> job_world" where
  "collectJob c ce output finished pruned now w =
     (let w1 = finishRun finished (cl_run c) (fst (run_outcome ce)) (snd (run_outcome ce)) output now w;
          w2 = (if pruned then w1\<lparr>jw_runs := PruneJobRuns (cl_application_id c) (cl_job c) jobRunsKept (jw_runs w1)\<rparr> else w1);
          w3 = (if cl_exclusive c then job_release (cl_application c) (cl_job c) w2 else w2)
      in w3\<lparr>jw_collecting := remove1 c (jw_collecting w3), jw_ops := jw_ops w3 - 1\<rparr>)"

datatype start_error = NoApplication | NotDeployed | StaticApplication | NoSuchJob | LockRefused | NotStarted job_error

text \<open>\<open>resolve\<close> finds what to run; \<open>static\<close> says of a deployment whether it only serves files.\<close>

definition startFromActive ::
    "job_env \<Rightarrow> (int \<Rightarrow> bool) \<Rightarrow> db \<Rightarrow> string \<Rightarrow> (Deployment \<Rightarrow> (string \<times> string list) option) \<Rightarrow> job_world \<Rightarrow> (start_error + JobRun) \<times> job_world" where
  "startFromActive e static s name resolve w =
     (if \<not> je_free e name then (Inl LockRefused, w)
      else case GetApplication name s of
          Inl _ \<Rightarrow> (Inl NoApplication, w)
        | Inr app \<Rightarrow>
            (case app_active app of
               None \<Rightarrow> (Inl NotDeployed, w)
             | Some i \<Rightarrow>
                 (case (if je_load e i then GetDeployment i s else Inl ErrNotFound) of
                    Inl _ \<Rightarrow> (Inl NoApplication, w)
                  | Inr d \<Rightarrow>
                      if static i then (Inl StaticApplication, w)
                      else (case resolve d of
                          None \<Rightarrow> (Inl NoSuchJob, w)
                        | Some (job, command) \<Rightarrow>
                            (case startJob e d job RunKindManual command w of
                               (Inl err, w') \<Rightarrow> (Inl (NotStarted err), w')
                             | (Inr r, w') \<Rightarrow> (Inr r, w'))))))"

definition RunJob :: "job_env \<Rightarrow> (int \<Rightarrow> bool) \<Rightarrow> db \<Rightarrow> string \<Rightarrow> string \<Rightarrow> job_world \<Rightarrow> (start_error + JobRun) \<times> job_world" where
  "RunJob e static s name job =
     startFromActive e static s name (\<lambda>d. map_option (\<lambda>j. (jb_name j, jb_command j)) (find (\<lambda>j. jb_name j = job) (a_jobs (d_spec d))))"

definition RunCommand :: "job_env \<Rightarrow> (int \<Rightarrow> bool) \<Rightarrow> db \<Rightarrow> string \<Rightarrow> string list \<Rightarrow> job_world \<Rightarrow> (start_error + JobRun) \<times> job_world" where
  "RunCommand e static s name argv = startFromActive e static s name (\<lambda>_. Some (commandJobName, argv))"

section \<open>The scheduler\<close>

text \<open>Whether a job is due in the window; a text that does not parse never is.\<close>

definition job_due :: "go_time \<Rightarrow> go_time \<Rightarrow> Job \<Rightarrow> bool" where
  "job_due last_look tick j =
     (case parse (jb_schedule j) of
        Some (Inr s) \<Rightarrow> \<not> schedule_next s last_look > tick
      | _ \<Rightarrow> False)"

fun start_due :: "job_env \<Rightarrow> Deployment \<Rightarrow> go_time \<Rightarrow> go_time \<Rightarrow> Job list \<Rightarrow> job_world \<Rightarrow> job_world" where
  "start_due e d last_look tick [] w = w"
| "start_due e d last_look tick (j # js) w =
     start_due e d last_look tick js
       (if job_due last_look tick j then snd (startJob e d (jb_name j) RunKindScheduled (jb_command j) w) else w)"

definition scheduleApp :: "job_env \<Rightarrow> db \<Rightarrow> int \<Rightarrow> go_time \<Rightarrow> go_time \<Rightarrow> job_world \<Rightarrow> job_world" where
  "scheduleApp e s i last_look tick w =
     (case (if je_load e i then GetDeployment i s else Inl ErrNotFound) of
        Inl _ \<Rightarrow> w
      | Inr d \<Rightarrow> start_due e d last_look tick (a_jobs (d_spec d)) w)"

text \<open>The window of an application at a tick, None if it is not looked at.\<close>

definition tick_window :: "job_env \<Rightarrow> go_time \<Rightarrow> job_world \<Rightarrow> Application \<Rightarrow> (int \<times> go_time) option" where
  "tick_window e tick w app =
     (case app_active app of
        None \<Rightarrow> None
      | Some i \<Rightarrow>
          if app_desired app \<noteq> DesiredRunning then None
          else
            let last_look = (case jw_lastTick w (app_name app) of Some l \<Rightarrow> l | None \<Rightarrow> tick - minute)
            in if \<not> tick > last_look then None
               else if \<not> je_free e (app_name app) then None
               else Some (i, last_look))"

fun schedule_apps :: "job_env \<Rightarrow> db \<Rightarrow> go_time \<Rightarrow> Application list \<Rightarrow> job_world \<Rightarrow> job_world" where
  "schedule_apps e s tick [] w = w"
| "schedule_apps e s tick (app # apps) w =
     schedule_apps e s tick apps
       (case tick_window e tick w app of
          None \<Rightarrow> w
        | Some (i, last_look) \<Rightarrow>
            (let w1 = scheduleApp e s i last_look tick w in w1\<lparr>jw_lastTick := (jw_lastTick w1)(app_name app := Some tick)\<rparr>))"

definition scheduleJobs :: "job_env \<Rightarrow> db \<Rightarrow> go_time \<Rightarrow> job_world \<Rightarrow> job_world" where
  "scheduleJobs e s now w =
     (if \<not> je_list e then w
      else
        let apps = ListApplications s;
            w1 = schedule_apps e s (time_truncate now minute) apps w
        in w1\<lparr>jw_lastTick := (\<lambda>name. if name \<in> app_name ` set apps then jw_lastTick w1 name else None)\<rparr>)"

section \<open>When a job is due\<close>

lemma next_in_window:
  assumes "0 \<le> last_look"
  shows "first_match s (add_years (time_truncate last_look minute + minute) 8) (time_truncate last_look minute + minute)
    (schedule_next s last_look)"
  unfolding schedule_next_def Let_def by (rule next_loop_first_match [OF next_start(1,2) [OF assms]])

lemma whole_minute_after:
  assumes "last_look < u" "u mod minute = 0"
  shows "time_truncate last_look minute + minute \<le> u"
proof -
  define q where "q = u div minute"
  have m: "0 < minute" by (simp add: minute_def)
  have u: "u = q * minute" unfolding q_def using assms(2) by (metis add.right_neutral div_mult_mod_eq)
  then have "last_look div minute < q"
    using assms(1) unfolding minute_def by presburger
  then have "(last_look div minute + 1) * minute \<le> q * minute"
    using m by (intro mult_right_mono) auto
  moreover have "time_truncate last_look minute = last_look div minute * minute"
    by (simp add: time_truncate_def minus_mod_eq_div_mult)
  ultimately show ?thesis by (simp add: algebra_simps u)
qed

lemma due_cases:
  assumes "0 \<le> last_look" "last_look \<le> tick" "parse (jb_schedule j) = Some (Inr s)"
  shows "job_due last_look tick j \<longleftrightarrow>
    (\<exists>u. last_look < u \<and> u \<le> tick \<and> u mod minute = 0 \<and> matches s u) \<or> (\<forall>u. \<not> matches s u)"
proof -
  let ?t = "time_truncate last_look minute + minute" and ?r = "schedule_next s last_look"
  have first: "first_match s (add_years ?t 8) ?t ?r" by (rule next_in_window [OF assms(1)])
  have due: "job_due last_look tick j \<longleftrightarrow> ?r \<le> tick"
    using assms(3) by (auto simp: job_due_def)
  show ?thesis
  proof (cases "?r = zero_time")
    case True
    then have "\<forall>u. \<not> matches s u" using first window_has_match [of s _ ?t] by (auto simp: first_match_def)
    moreover have "?r \<le> tick" using True assms by (simp add: zero_time_def)
    ultimately show ?thesis using due by blast
  next
    case False
    then have r: "?t \<le> ?r" "?r mod minute = 0" "matches s ?r" "\<And>u. ?t \<le> u \<Longrightarrow> u < ?r \<Longrightarrow> \<not> matches s u"
      using first by (auto simp: first_match_def)
    have later: "last_look < ?r" using r(1) next_start(3) [OF assms(1)] by simp
    have "?r \<le> u" if "last_look < u" "u mod minute = 0" "matches s u" for u
      using whole_minute_after [OF that(1,2)] r(4) that(3) by (meson linorder_not_less)
    then show ?thesis using due r(2,3) later by (meson order.trans)
  qed
qed

section \<open>One run of a job at a time\<close>

definition ck :: "collector \<Rightarrow> string" where
  "ck c = job_key (cl_application c) (cl_job c)"

text \<open>
  The rows have increasing ids; a run that is being collected and is exclusive has its key in \<open>active\<close>, its row still
  running, and is the newest of its job. \<open>ids\<close> gives the id of the application of a name.
\<close>

definition rows_ok :: "run_table \<Rightarrow> bool" where
  "rows_ok t \<longleftrightarrow> distinct (map jn_id (rr_rows t)) \<and> (\<forall>r \<in> set (rr_rows t). jn_id r \<le> rr_seq t)"

definition newest_run :: "run_table \<Rightarrow> collector \<Rightarrow> bool" where
  "newest_run t c \<longleftrightarrow>
     (\<exists>r \<in> set (rr_rows t). jn_id r = cl_run c \<and> jn_job r = cl_job c \<and> jn_application_id r = cl_application_id c \<and> jn_status r = RunRunning) \<and>
     (\<forall>r \<in> set (rr_rows t). jn_application_id r = cl_application_id c \<and> jn_job r = cl_job c \<longrightarrow> jn_id r \<le> cl_run c)"

definition collector_ok :: "(string \<Rightarrow> int) \<Rightarrow> collector \<Rightarrow> bool" where
  "collector_ok ids c \<longleftrightarrow> cl_application_id c = ids (cl_application c) \<and> cl_exclusive c = (cl_job c \<noteq> commandJobName)"

definition claims_ok :: "string list \<Rightarrow> collector list \<Rightarrow> bool" where
  "claims_ok active cs \<longleftrightarrow>
     distinct active \<and> distinct (map ck (filter cl_exclusive cs)) \<and> set active = ck ` set (filter cl_exclusive cs)"

definition jobs_ok :: "(string \<Rightarrow> int) \<Rightarrow> job_world \<Rightarrow> bool" where
  "jobs_ok ids w \<longleftrightarrow>
     rows_ok (jw_runs w) \<and> claims_ok (jw_active w) (jw_collecting w) \<and> jw_ops w = length (jw_collecting w) \<and>
     distinct (map cl_run (jw_collecting w)) \<and>
     (\<forall>c \<in> set (jw_collecting w). collector_ok ids c \<and> cl_run c \<le> rr_seq (jw_runs w) \<and> (cl_exclusive c \<longrightarrow> newest_run (jw_runs w) c))"

lemma claims_take:
  assumes "claims_ok active cs" "ck c \<notin> set active" "cl_exclusive c"
  shows "claims_ok (ck c # active) (cs @ [c])"
  using assms by (auto simp: claims_ok_def)

lemma claims_free:
  "claims_ok active cs \<Longrightarrow> \<not> cl_exclusive c \<Longrightarrow> claims_ok active (cs @ [c])"
  by (simp add: claims_ok_def)

lemma filter_not_mem [simp]: "k \<notin> set xs \<Longrightarrow> filter (\<lambda>x. x \<noteq> k) xs = xs"
  by (induction xs) auto

lemma claims_drop_free:
  "claims_ok active cs \<Longrightarrow> \<not> cl_exclusive c \<Longrightarrow> claims_ok active (remove1 c cs)"
  by (simp add: claims_ok_def filter_remove1 remove1_idem)

lemma claims_drop:
  assumes "claims_ok active cs" "cl_exclusive c" "c \<in> set cs"
  shows "claims_ok (filter (\<lambda>k. k \<noteq> ck c) active) (remove1 c cs)"
proof -
  let ?es = "filter cl_exclusive cs"
  have d: "distinct (map ck ?es)" "set active = ck ` set ?es" "distinct active" and c: "c \<in> set ?es"
    using assms by (auto simp: claims_ok_def)
  then have "distinct ?es" "inj_on ck (set ?es)" by (simp_all add: distinct_map)
  then have "ck ` (set ?es - {c}) = ck ` set ?es - {ck c}" using c by (auto dest: inj_onD)
  moreover have "distinct (map ck (remove1 c ?es))"
    using d(1) \<open>distinct ?es\<close> by (auto simp: distinct_map intro: inj_on_subset [OF \<open>inj_on ck (set ?es)\<close>])
  moreover have "set (filter cl_exclusive (remove1 c cs)) = set ?es - {c}"
    using \<open>distinct ?es\<close> by (simp add: filter_remove1 del: set_filter)
  ultimately show ?thesis
    unfolding claims_ok_def
    using \<open>ck ` (set ?es - {c}) = ck ` set ?es - {ck c}\<close> \<open>distinct (map ck (remove1 c ?es))\<close> d(2,3)
    by (intro conjI) (simp_all only: filter_remove1 distinct_filter set_filter set_diff_eq mem_Collect_eq, blast)
qed

lemma rows_create: "rows_ok t \<Longrightarrow> rows_ok (snd (CreateJobRun app d job kind command now t))"
  by (auto simp: rows_ok_def CreateJobRun_def Let_def)

lemma update_runs_simps [simp]:
  "rr_seq (update_runs P f t) = rr_seq t"
  "rr_rows (update_runs P f t) = map (\<lambda>r. if P r then f r else r) (rr_rows t)"
  by (simp_all add: update_runs_def)

lemma rows_finish: "rows_ok t \<Longrightarrow> rows_ok (FinishJobRun i status code output now t)"
proof -
  assume t: "rows_ok t"
  have "map jn_id (rr_rows (FinishJobRun i status code output now t)) = map jn_id (rr_rows t)"
    by (simp add: FinishJobRun_def)
  moreover have "rr_seq (FinishJobRun i status code output now t) = rr_seq t"
    by (simp add: FinishJobRun_def)
  moreover have "\<forall>r \<in> set (rr_rows (FinishJobRun i status code output now t)). jn_id r \<le> rr_seq t"
    using t by (auto simp: rows_ok_def FinishJobRun_def)
  ultimately show ?thesis using t unfolding rows_ok_def by presburger
qed

lemma rows_prune: "rows_ok t \<Longrightarrow> rows_ok (PruneJobRuns app job keep t)"
  by (auto simp: rows_ok_def PruneJobRuns_def Let_def distinct_map_filter)

lemma newest_finish:
  "newest_run t c \<Longrightarrow> i \<noteq> cl_run c \<Longrightarrow> newest_run (FinishJobRun i status code output now t) c"
  by (auto simp: newest_run_def FinishJobRun_def)

lemma newest_create:
  "newest_run t c \<Longrightarrow> \<not> (app = cl_application_id c \<and> job = cl_job c) \<Longrightarrow>
   newest_run (snd (CreateJobRun app d job kind command now t)) c"
  by (auto simp: newest_run_def CreateJobRun_def Let_def)

lemma newest_created:
  assumes "rows_ok t" "CreateJobRun app d job kind command now t = (r, t')"
    and "cl_run c = jn_id r" "cl_application_id c = app" "cl_job c = job"
  shows "newest_run t' c"
  using assms by (fastforce simp: newest_run_def CreateJobRun_def Let_def rows_ok_def)

lemma prune_keeps:
  assumes r: "r \<in> set (rr_rows t)"
    and top: "\<And>q. q \<in> set (rr_rows t) \<Longrightarrow> jn_application_id q = jn_application_id r \<Longrightarrow> jn_job q = jn_job r \<Longrightarrow> jn_id q \<le> jn_id r"
  shows "r \<in> set (rr_rows (PruneJobRuns app job (Suc n) t))"
proof -
  let ?mine = "filter (\<lambda>r. jn_application_id r = app \<and> jn_job r = job) (rr_rows t)"
  let ?kept = "set (map jn_id (take (Suc n) (rev (sort_key jn_id ?mine))))"
  have "jn_id r \<in> ?kept" if mine: "app = jn_application_id r" "job = jn_job r"
  proof -
    have in_mine: "r \<in> set (sort_key jn_id ?mine)" using r mine by simp
    then have ne: "sort_key jn_id ?mine \<noteq> []" by force
    then have l: "last (sort_key jn_id ?mine) \<in> set ?mine" using last_in_set by fastforce
    have "jn_id r \<le> jn_id (last (sort_key jn_id ?mine))"
      using in_mine sorted_sort_key [of jn_id ?mine]
      by (cases "sort_key jn_id ?mine" rule: rev_cases) (auto simp: sorted_append)
    then have "jn_id (last (sort_key jn_id ?mine)) = jn_id r"
      using top [of "last (sort_key jn_id ?mine)"] l mine by auto
    moreover have "jn_id (last (sort_key jn_id ?mine)) \<in> ?kept"
      using ne by (cases "sort_key jn_id ?mine" rule: rev_cases) auto
    ultimately show ?thesis by (simp only:)
  qed
  then show ?thesis using r by (auto simp: PruneJobRuns_def Let_def)
qed

lemma newest_prune:
  assumes "newest_run t c"
  shows "newest_run (PruneJobRuns app job (Suc n) t) c"
proof -
  obtain r where r: "r \<in> set (rr_rows t)" "jn_id r = cl_run c" "jn_job r = cl_job c"
      "jn_application_id r = cl_application_id c" "jn_status r = RunRunning"
    and top: "\<And>q. q \<in> set (rr_rows t) \<Longrightarrow> jn_application_id q = cl_application_id c \<Longrightarrow> jn_job q = cl_job c \<Longrightarrow> jn_id q \<le> cl_run c"
    using assms by (auto simp: newest_run_def)
  have "r \<in> set (rr_rows (PruneJobRuns app job (Suc n) t))"
    using prune_keeps [OF r(1)] top r by simp
  moreover have "set (rr_rows (PruneJobRuns app job (Suc n) t)) \<subseteq> set (rr_rows t)"
    by (auto simp: PruneJobRuns_def Let_def)
  ultimately show ?thesis using r top by (auto simp: newest_run_def)
qed

text \<open>How a start ends: refused with nothing changed, with the record of a failed run only, or with a container to wait for.\<close>

definition collector_of :: "Deployment \<Rightarrow> string \<Rightarrow> JobRun \<Rightarrow> collector" where
  "collector_of d job r = \<lparr>cl_run = jn_id r, cl_application_id = d_application_id d,
     cl_application = d_application d, cl_job = job, cl_exclusive = (job \<noteq> commandJobName)\<rparr>"

lemma collector_of_simps [simp]:
  "cl_run (collector_of d job r) = jn_id r" "cl_application_id (collector_of d job r) = d_application_id d"
  "cl_application (collector_of d job r) = d_application d" "cl_job (collector_of d job r) = job"
  "cl_exclusive (collector_of d job r) \<longleftrightarrow> job \<noteq> commandJobName"
  by (simp_all add: collector_of_def)

lemma job_release_claimed:
  "k = job_key app job \<Longrightarrow> k \<notin> set (jw_active w) \<Longrightarrow> jw_active (job_release app job (w\<lparr>jw_active := k # jw_active w\<rparr>)) = jw_active w"
  by (simp add: job_release_def)

lemma startJob_cases:
  assumes "startJob e d job kind command w = (res, w')"
  obtains (same) "w' = w" "\<exists>err. res = Inl err"
  | (failed) r t msg where "job \<noteq> commandJobName \<Longrightarrow> job_key (d_application d) job \<notin> set (jw_active w)"
      "CreateJobRun (d_application_id d) (Some (d_id d)) job kind command (je_now e) (jw_runs w) = (r, t)"
      "w' = w\<lparr>jw_runs := t\<rparr> \<or> w' = w\<lparr>jw_runs := FinishJobRun (jn_id r) RunFailed None msg (je_now e) t\<rparr>" "\<exists>err. res = Inl err"
  | (started) r t where "job \<noteq> commandJobName \<Longrightarrow> job_key (d_application d) job \<notin> set (jw_active w)" "\<not> jw_closed w"
      "CreateJobRun (d_application_id d) (Some (d_id d)) job kind command (je_now e) (jw_runs w) = (r, t)" "res = Inr r"
      "w' = w\<lparr>jw_runs := t, jw_active := (if job \<noteq> commandJobName then job_key (d_application d) job # jw_active w else jw_active w),
         jw_collecting := jw_collecting w @ [collector_of d job r], jw_ops := Suc (jw_ops w)\<rparr>"
proof -
  obtain r t where c: "CreateJobRun (d_application_id d) (Some (d_id d)) job kind command (je_now e) (jw_runs w) = (r, t)"
    by (rule prod.exhaust)
  have j: "jn_job r = job" using c by (auto simp: CreateJobRun_def Let_def)
  show ?thesis
  proof (cases "(job \<noteq> commandJobName \<and> job_key (d_application d) job \<in> set (jw_active w)) \<or> jw_closed w \<or> \<not> je_record e (d_application d) job")
    case True
    then show ?thesis
      using assms same by (cases "job = commandJobName") (auto simp: startJob_def job_claim_def job_release_def Let_def split: if_splits)
  next
    case False
    then have free: "job \<noteq> commandJobName \<Longrightarrow> job_key (d_application d) job \<notin> set (jw_active w)" "\<not> jw_closed w" by auto
    show ?thesis
    proof (cases "je_launch e (d_application d) job")
      case Launched
      then show ?thesis
        using assms False c j free
        by (intro started [OF free c])
          (auto simp: startJob_def job_claim_def job_release_def launchJob_def collector_of_def Let_def split: if_splits)
    next
      case (CreateFailed err)
      then show ?thesis
        using assms False c j free
        by (intro failed [OF free(1) c, of "''could not create the container: '' @ err"])
          (auto simp: startJob_def job_claim_def job_release_def launchJob_def finishRun_def Let_def split: if_splits)
    next
      case (StartFailed err)
      then show ?thesis
        using assms False c j free
        by (intro failed [OF free(1) c, of "''could not start the container: '' @ err"])
          (auto simp: startJob_def job_claim_def job_release_def launchJob_def finishRun_def Let_def split: if_splits)
    qed
  qed
qed

lemma jobs_ok_simps:
  assumes "jobs_ok ids w"
  shows "rows_ok (jw_runs w)" "claims_ok (jw_active w) (jw_collecting w)" "jw_ops w = length (jw_collecting w)"
    "distinct (map cl_run (jw_collecting w))"
    "\<And>c. c \<in> set (jw_collecting w) \<Longrightarrow> collector_ok ids c"
    "\<And>c. c \<in> set (jw_collecting w) \<Longrightarrow> cl_run c \<le> rr_seq (jw_runs w)"
    "\<And>c. c \<in> set (jw_collecting w) \<Longrightarrow> cl_exclusive c \<Longrightarrow> newest_run (jw_runs w) c"
  using assms by (simp_all add: jobs_ok_def)

lemma jobs_ok_record:
  assumes "jobs_ok ids w" "rows_ok t" "rr_seq (jw_runs w) \<le> rr_seq t"
    and "\<And>c. c \<in> set (jw_collecting w) \<Longrightarrow> cl_exclusive c \<Longrightarrow> newest_run t c"
  shows "jobs_ok ids (w\<lparr>jw_runs := t\<rparr>)"
  using assms by (auto simp: jobs_ok_def intro: order.trans)

lemma other_job:
  assumes "jobs_ok ids w" "inj ids" "d_application_id d = ids (d_application d)"
    and "job \<noteq> commandJobName \<Longrightarrow> job_key (d_application d) job \<notin> set (jw_active w)"
    and "c \<in> set (jw_collecting w)" "cl_exclusive c"
  shows "\<not> (d_application_id d = cl_application_id c \<and> job = cl_job c)"
proof
  assume same: "d_application_id d = cl_application_id c \<and> job = cl_job c"
  have c: "collector_ok ids c" using jobs_ok_simps(5) [OF assms(1)] assms(5) by blast
  then have "job_key (d_application d) job = ck c" "job \<noteq> commandJobName"
    using same assms(2,3,6) by (auto simp: collector_ok_def ck_def dest: injD)
  moreover have "ck c \<in> set (jw_active w)"
    using jobs_ok_simps(2) [OF assms(1)] assms(5,6) by (simp add: claims_ok_def)
  ultimately show False using assms(4) by simp
qed

lemma CreateJobRun_id:
  "CreateJobRun app dp job kind command now t = (r, t') \<Longrightarrow> jn_id r = rr_seq t + 1 \<and> rr_seq t' = rr_seq t + 1"
  by (auto simp: CreateJobRun_def Let_def)

lemma startJob_ok:
  assumes ok: "jobs_ok ids w" and ids: "inj ids" "d_application_id d = ids (d_application d)"
    and run: "startJob e d job kind command w = (res, w')"
  shows "jobs_ok ids w'"
  using run
proof (cases rule: startJob_cases)
  case same
  then show ?thesis using ok by simp
next
  case (failed r t msg)
  note id = CreateJobRun_id [OF failed(2)]
  have t: "rows_ok t" "\<And>c. c \<in> set (jw_collecting w) \<Longrightarrow> cl_exclusive c \<Longrightarrow> newest_run t c"
    using rows_create [OF jobs_ok_simps(1) [OF ok]] newest_create [OF jobs_ok_simps(7) [OF ok] other_job [OF ok ids failed(1)]]
      failed(2) by (metis snd_conv)+
  let ?f = "FinishJobRun (jn_id r) RunFailed None msg (je_now e) t"
  have "rows_ok ?f" "rr_seq ?f = rr_seq t" using rows_finish [OF t(1)] by (simp_all add: FinishJobRun_def)
  moreover have "newest_run ?f c" if "c \<in> set (jw_collecting w)" "cl_exclusive c" for c
    using newest_finish [OF t(2) [OF that]] jobs_ok_simps(6) [OF ok that(1)] id by force
  ultimately have "jobs_ok ids (w\<lparr>jw_runs := ?f\<rparr>)" "jobs_ok ids (w\<lparr>jw_runs := t\<rparr>)"
    using id t by (auto intro!: jobs_ok_record [OF ok])
  then show ?thesis using failed(3) by auto
next
  case (started r t)
  note id = CreateJobRun_id [OF started(3)]
  let ?c = "collector_of d job r"
  have t: "rows_ok t" "\<And>c. c \<in> set (jw_collecting w) \<Longrightarrow> cl_exclusive c \<Longrightarrow> newest_run t c"
    using rows_create [OF jobs_ok_simps(1) [OF ok]] newest_create [OF jobs_ok_simps(7) [OF ok] other_job [OF ok ids started(1)]]
      started(3) by (metis snd_conv)+
  have n: "newest_run t ?c"
    by (rule newest_created [OF jobs_ok_simps(1) [OF ok] started(3)]) simp_all
  have k: "ck ?c = job_key (d_application d) job" by (simp add: ck_def)
  have "claims_ok (jw_active w') (jw_collecting w')"
    using claims_take [OF jobs_ok_simps(2) [OF ok], of ?c] claims_free [OF jobs_ok_simps(2) [OF ok], of ?c] started(1) k
    by (auto simp: started(5))
  moreover have "jn_id r \<notin> cl_run ` set (jw_collecting w)"
    using jobs_ok_simps(6) [OF ok] id by force
  ultimately show ?thesis
    using ok t n id ids(2) jobs_ok_simps(6) [OF ok]
    by (fastforce simp: jobs_ok_def started(5) collector_ok_def)
qed

lemma finishRun_runs:
  "finishRun works i status code output now w = w\<lparr>jw_runs := (if works then FinishJobRun i status code output now (jw_runs w) else jw_runs w)\<rparr>"
  by (simp add: finishRun_def)

lemma collectJob_eq:
  "collectJob c ce output finished pruned now w =
     (let t1 = (if finished then FinishJobRun (cl_run c) (fst (run_outcome ce)) (snd (run_outcome ce)) output now (jw_runs w) else jw_runs w);
          t2 = (if pruned then PruneJobRuns (cl_application_id c) (cl_job c) jobRunsKept t1 else t1)
      in w\<lparr>jw_runs := t2, jw_active := (if cl_exclusive c then filter (\<lambda>k. k \<noteq> ck c) (jw_active w) else jw_active w),
           jw_collecting := remove1 c (jw_collecting w), jw_ops := jw_ops w - 1\<rparr>)"
  by (simp add: collectJob_def finishRun_runs job_release_def ck_def Let_def)

lemma seq_simps [simp]:
  "rr_seq (FinishJobRun i status code output now t) = rr_seq t" "rr_seq (PruneJobRuns app job keep t) = rr_seq t"
  by (simp_all add: FinishJobRun_def PruneJobRuns_def Let_def)

lemma collectJob_ok:
  assumes ok: "jobs_ok ids w" and c: "c \<in> set (jw_collecting w)"
  shows "jobs_ok ids (collectJob c ce output finished pruned now w)"
proof -
  define t1 where "t1 = (if finished then FinishJobRun (cl_run c) (fst (run_outcome ce)) (snd (run_outcome ce)) output now (jw_runs w) else jw_runs w)"
  define t2 where "t2 = (if pruned then PruneJobRuns (cl_application_id c) (cl_job c) jobRunsKept t1 else t1)"
  have dc: "distinct (jw_collecting w)" and dr: "inj_on cl_run (set (jw_collecting w))"
    using jobs_ok_simps(4) [OF ok] by (simp_all add: distinct_map)
  have rows: "rows_ok t2" "rr_seq t2 = rr_seq (jw_runs w)"
    using jobs_ok_simps(1) [OF ok] by (simp_all add: t2_def t1_def rows_finish rows_prune)
  have newest: "newest_run t2 b" if b: "b \<in> set (jw_collecting w) - {c}" "cl_exclusive b" for b
  proof -
    have "cl_run c \<noteq> cl_run b" using b(1) c dr by (auto dest: inj_onD)
    then have "newest_run t1 b"
      using jobs_ok_simps(7) [OF ok _ b(2)] b(1) by (simp add: t1_def newest_finish)
    then show ?thesis
      using newest_prune [of t1 b "cl_application_id c" "cl_job c" 49] by (simp add: t2_def jobRunsKept_def)
  qed
  have rest: "set (remove1 c (jw_collecting w)) = set (jw_collecting w) - {c}"
    using dc by simp
  have claims: "claims_ok (if cl_exclusive c then filter (\<lambda>k. k \<noteq> ck c) (jw_active w) else jw_active w) (remove1 c (jw_collecting w))"
    using claims_drop [OF jobs_ok_simps(2) [OF ok] _ c] claims_drop_free [OF jobs_ok_simps(2) [OF ok]] by simp
  have "distinct (map cl_run (remove1 c (jw_collecting w)))"
    using dc dr by (auto simp: distinct_map intro: inj_on_subset)
  moreover have "jw_ops w - 1 = length (remove1 c (jw_collecting w))"
    using jobs_ok_simps(3) [OF ok] c by (simp add: length_remove1)
  ultimately show ?thesis
    using rows newest claims jobs_ok_simps(5,6) [OF ok] rest
    unfolding collectJob_eq Let_def t1_def [symmetric] t2_def [symmetric]
    by (simp add: jobs_ok_def)
qed

definition same_application :: "(string \<Rightarrow> int) \<Rightarrow> Deployment \<Rightarrow> bool" where
  "same_application ids d \<longleftrightarrow> d_application_id d = ids (d_application d)"

lemma start_due_ok:
  "jobs_ok ids w \<Longrightarrow> inj ids \<Longrightarrow> same_application ids d \<Longrightarrow> jobs_ok ids (start_due e d last_look tick js w)"
proof (induction js arbitrary: w)
  case (Cons j js)
  have "jobs_ok ids (snd (startJob e d (jb_name j) RunKindScheduled (jb_command j) w))"
    using startJob_ok [OF Cons.prems(1,2)] Cons.prems(3) unfolding same_application_def by (metis surjective_pairing)
  then show ?case using Cons by simp
qed simp

lemma GetDeployment_mem: "GetDeployment i s = Inr d \<Longrightarrow> d \<in> set (deployments s)"
  by (auto simp: GetDeployment_def find_deployment_def dest: find_SomeD split: option.splits)

lemma scheduleApp_ok:
  assumes "jobs_ok ids w" "inj ids" "\<forall>d \<in> set (deployments s). same_application ids d"
  shows "jobs_ok ids (scheduleApp e s i last_look tick w)"
  using assms GetDeployment_mem [of i s]
  by (auto simp: scheduleApp_def intro!: start_due_ok split: sum.splits if_splits)

lemma jobs_ok_lastTick: "jobs_ok ids (w\<lparr>jw_lastTick := m\<rparr>) = jobs_ok ids w"
  by (simp add: jobs_ok_def)

lemma schedule_apps_ok:
  "jobs_ok ids w \<Longrightarrow> inj ids \<Longrightarrow> \<forall>d \<in> set (deployments s). same_application ids d \<Longrightarrow>
   jobs_ok ids (schedule_apps e s tick apps w)"
proof (induction apps arbitrary: w)
  case (Cons app apps)
  have "jobs_ok ids (scheduleApp e s i last_look tick w)" for i last_look
    by (rule scheduleApp_ok [OF Cons.prems])
  then show ?case
    using Cons by (cases "tick_window e tick w app") (auto simp: Let_def jobs_ok_lastTick)
qed simp

lemma scheduleJobs_ok:
  "jobs_ok ids w \<Longrightarrow> inj ids \<Longrightarrow> \<forall>d \<in> set (deployments s). same_application ids d \<Longrightarrow>
   jobs_ok ids (scheduleJobs e s now w)"
  by (simp add: scheduleJobs_def Let_def jobs_ok_lastTick schedule_apps_ok)

text \<open>What happens to the engine's memory of jobs: a tick, a run by hand, the end of a container, the shutdown.\<close>

definition idle_jobs :: job_world where
  "idle_jobs = \<lparr>jw_runs = \<lparr>rr_rows = [], rr_seq = 0\<rparr>, jw_active = [], jw_lastTick = Map.empty, jw_collecting = [], jw_ops = 0, jw_closed = False\<rparr>"

inductive job_step :: "(string \<Rightarrow> int) \<Rightarrow> job_world \<Rightarrow> job_world \<Rightarrow> bool" for ids where
  tick: "\<forall>d \<in> set (deployments s). same_application ids d \<Longrightarrow> job_step ids w (scheduleJobs e s now w)"
| by_hand: "\<forall>d \<in> set (deployments s). same_application ids d \<Longrightarrow> job_step ids w (snd (startFromActive e static s name resolve w))"
| collected: "c \<in> set (jw_collecting w) \<Longrightarrow> job_step ids w (collectJob c ce output finished pruned now w)"
| shutdown: "job_step ids w (w\<lparr>jw_closed := True\<rparr>)"

lemma startFromActive_ok:
  assumes ok: "jobs_ok ids w" and ids: "inj ids" and s: "\<forall>d \<in> set (deployments s). same_application ids d"
  shows "jobs_ok ids (snd (startFromActive e static s name resolve w))"
proof -
  have start: "jobs_ok ids w'" if "GetDeployment i s = Inr d" "startJob e d job kind command w = (res, w')" for i d job kind command res w'
    using startJob_ok [OF ok ids _ that(2)] s GetDeployment_mem [OF that(1)] by (simp add: same_application_def)
  show ?thesis
    using ok by (auto simp: startFromActive_def split: sum.splits option.splits prod.splits dest: start)
qed

lemma job_step_ok: "job_step ids w w' \<Longrightarrow> inj ids \<Longrightarrow> jobs_ok ids w \<Longrightarrow> jobs_ok ids w'"
proof (induction rule: job_step.induct)
  case (shutdown w)
  then show ?case by (simp add: jobs_ok_def)
qed (simp_all add: scheduleJobs_ok startFromActive_ok collectJob_ok)

lemma job_steps_ok: "(job_step ids)\<^sup>*\<^sup>* idle_jobs w \<Longrightarrow> inj ids \<Longrightarrow> jobs_ok ids w"
proof (induction rule: rtranclp_induct)
  case base
  then show ?case by (simp add: jobs_ok_def idle_jobs_def rows_ok_def claims_ok_def)
qed (blast intro: job_step_ok)

lemma GetJobRun_mem:
  "rows_ok t \<Longrightarrow> r \<in> set (rr_rows t) \<Longrightarrow> GetJobRun (jn_id r) t = Some r"
  by (auto simp: GetJobRun_def rows_ok_def intro!: find_Some_iff_distinct [THEN iffD2])

lemma at_most_one:
  "distinct (map f xs) \<Longrightarrow> (\<And>x. x \<in> set xs \<Longrightarrow> P x \<Longrightarrow> f x = k) \<Longrightarrow> length (filter P xs) \<le> 1"
proof (induction xs)
  case (Cons x xs)
  have d: "distinct (map f xs)" "f x \<notin> f ` set xs" using Cons.prems(1) by simp_all
  have k: "f y = k" if "y \<in> set (x # xs)" "P y" for y by (rule Cons.prems(2) [OF that])
  show ?case
  proof (cases "P x")
    case True
    have "\<not> P y" if "y \<in> set xs" for y
      using k [of y] k [of x] d(2) that True by (metis image_eqI list.set_intros)
    then have "filter P xs = []" by simp
    then show ?thesis by simp
  next
    case False
    then show ?thesis using Cons.IH [OF d(1)] k by simp
  qed
qed simp

text \<open>
  C13: A job of \<^verbatim>\<open>deploy.yaml\<close> never runs twice at a time, whoever starts it, by the schedule or by hand: after
  any sequence of ticks, runs, ends of containers and a shutdown, at most one run of it is being waited for (commands
  of \<^verbatim>\<open>shipwick run\<close> may run beside each other). The memory of running jobs holds exactly the keys of the runs that
  are being waited for, commands apart, so a job is refused only while it really runs; and the engine counts as many
  operations for jobs as there are runs to wait for, so that a shutdown waits for all of them and for no others.
  \<open>ids\<close> is the id of the application of each name: no application is deleted and made again under its name meanwhile.
\<close>

theorem one_run_per_job:
  assumes "(job_step ids)\<^sup>*\<^sup>* idle_jobs w" "inj ids"
  shows "(job \<noteq> commandJobName \<longrightarrow> length (filter (\<lambda>c. cl_application c = app \<and> cl_job c = job) (jw_collecting w)) \<le> 1) \<and>
    set (jw_active w) = (\<lambda>c. job_key (cl_application c) (cl_job c)) ` {c \<in> set (jw_collecting w). cl_job c \<noteq> commandJobName} \<and>
    jw_ops w = length (jw_collecting w)"
proof -
  have ok: "jobs_ok ids w" by (rule job_steps_ok [OF assms])
  have excl: "cl_exclusive c = (cl_job c \<noteq> commandJobName)" if "c \<in> set (jw_collecting w)" for c
    using jobs_ok_simps(5) [OF ok that] by (simp add: collector_ok_def)
  have claims: "distinct (map ck (filter cl_exclusive (jw_collecting w)))" "set (jw_active w) = ck ` set (filter cl_exclusive (jw_collecting w))"
    using jobs_ok_simps(2) [OF ok] by (simp_all add: claims_ok_def)
  have "length (filter (\<lambda>c. cl_application c = app \<and> cl_job c = job) (filter cl_exclusive (jw_collecting w))) \<le> 1"
    by (rule at_most_one [OF claims(1), of _ "job_key app job"]) (simp add: ck_def)
  moreover have "filter (\<lambda>c. cl_application c = app \<and> cl_job c = job) (filter cl_exclusive (jw_collecting w)) =
      filter (\<lambda>c. cl_application c = app \<and> cl_job c = job) (jw_collecting w)" if "job \<noteq> commandJobName"
    using excl that by (auto intro!: filter_cong)
  ultimately show ?thesis
    using claims(2) excl jobs_ok_simps(3) [OF ok] by (auto simp: ck_def)
qed

text \<open>
  The outcome of a job's run is not lost in the history: when its container has ended and the store takes the record,
  the run is there with its status, its exit code and its output, however many runs were recorded and pruned meanwhile.
  \<open>ids\<close> is the id of the application of each name: no application is deleted in the meantime, which would delete
  its history, and made again under its name.
\<close>

theorem outcome_is_recorded:
  assumes "(job_step ids)\<^sup>*\<^sup>* idle_jobs w" "inj ids" "c \<in> set (jw_collecting w)" "cl_job c \<noteq> commandJobName"
  shows "\<exists>r. GetJobRun (cl_run c) (jw_runs (collectJob c ce output True pruned now w)) = Some r \<and>
    jn_job r = cl_job c \<and> jn_application_id r = cl_application_id c \<and>
    (jn_status r, jn_exitCode r) = run_outcome ce \<and> jn_output r = output \<and> jn_finishedAt r = Some now"
proof -
  have ok: "jobs_ok ids w" by (rule job_steps_ok [OF assms(1,2)])
  have "newest_run (jw_runs w) c"
    using jobs_ok_simps(7) [OF ok assms(3)] jobs_ok_simps(5) [OF ok assms(3)] assms(4) by (simp add: collector_ok_def)
  then obtain r where r: "r \<in> set (rr_rows (jw_runs w))" "jn_id r = cl_run c" "jn_job r = cl_job c"
      "jn_application_id r = cl_application_id c" "jn_status r = RunRunning"
    and top: "\<And>q. q \<in> set (rr_rows (jw_runs w)) \<Longrightarrow> jn_application_id q = cl_application_id c \<Longrightarrow> jn_job q = cl_job c \<Longrightarrow> jn_id q \<le> cl_run c"
    by (auto simp: newest_run_def)
  let ?t = "FinishJobRun (cl_run c) (fst (run_outcome ce)) (snd (run_outcome ce)) output now (jw_runs w)"
  let ?t' = "jw_runs (collectJob c ce output True pruned now w)"
  define r' where "r' = r\<lparr>jn_status := fst (run_outcome ce), jn_exitCode := snd (run_outcome ce), jn_output := output, jn_finishedAt := Some now\<rparr>"
  have t': "?t' = (if pruned then PruneJobRuns (cl_application_id c) (cl_job c) jobRunsKept ?t else ?t)"
    by (simp add: collectJob_eq Let_def)
  have mem: "r' \<in> set (rr_rows ?t)"
    using r by (force simp: FinishJobRun_def r'_def)
  moreover have "jn_id q \<le> jn_id r'" if "q \<in> set (rr_rows ?t)" "jn_application_id q = jn_application_id r'" "jn_job q = jn_job r'" for q
    using that top r by (auto simp: FinishJobRun_def r'_def split: if_splits)
  ultimately have "r' \<in> set (rr_rows (PruneJobRuns (cl_application_id c) (cl_job c) (Suc 49) ?t))"
    by (intro prune_keeps) auto
  then have "r' \<in> set (rr_rows ?t')" using mem by (simp add: t' jobRunsKept_def)
  moreover have "rows_ok ?t'"
    using rows_finish [OF jobs_ok_simps(1) [OF ok]] by (simp add: t' rows_prune)
  ultimately have "GetJobRun (jn_id r') ?t' = Some r'" by (intro GetJobRun_mem)
  then show ?thesis using r by (intro exI [of _ r']) (simp add: r'_def)
qed

section \<open>What the scheduler has looked at\<close>

lemma startJob_lastTick [simp]: "jw_lastTick (snd (startJob e d job kind command w)) = jw_lastTick w"
proof -
  obtain res w' where s: "startJob e d job kind command w = (res, w')" by (rule prod.exhaust)
  then have "jw_lastTick w' = jw_lastTick w" by (cases rule: startJob_cases) auto
  then show ?thesis using s by simp
qed

lemma start_due_lastTick [simp]: "jw_lastTick (start_due e d last_look tick js w) = jw_lastTick w"
  by (induction js arbitrary: w) auto

lemma scheduleApp_lastTick [simp]: "jw_lastTick (scheduleApp e s i last_look tick w) = jw_lastTick w"
  by (simp add: scheduleApp_def split: sum.split)

lemma tick_window_cong: "jw_lastTick w (app_name app) = jw_lastTick w' (app_name app) \<Longrightarrow> tick_window e tick w app = tick_window e tick w' app"
  by (simp add: tick_window_def split: option.split)

lemma schedule_apps_lastTick:
  "distinct (map app_name apps) \<Longrightarrow>
   jw_lastTick (schedule_apps e s tick apps w) name =
     (case find (\<lambda>app. app_name app = name) apps of
        None \<Rightarrow> jw_lastTick w name
      | Some app \<Rightarrow> if tick_window e tick w app = None then jw_lastTick w name else Some tick)"
proof (induction apps arbitrary: w)
  case (Cons app apps)
  let ?w = "case tick_window e tick w app of None \<Rightarrow> w | Some (i, last_look) \<Rightarrow>
      (let w1 = scheduleApp e s i last_look tick w in w1\<lparr>jw_lastTick := (jw_lastTick w1)(app_name app := Some tick)\<rparr>)"
  have own: "jw_lastTick ?w (app_name app) = (if tick_window e tick w app = None then jw_lastTick w (app_name app) else Some tick)"
    and other: "n \<noteq> app_name app \<Longrightarrow> jw_lastTick ?w n = jw_lastTick w n" for n
    by (auto simp: Let_def split: option.split)
  show ?case
  proof (cases "app_name app = name")
    case True
    have "find (\<lambda>app. app_name app = name) apps = None"
      using Cons.prems True by (auto simp: find_None_iff) (metis image_eqI)
    then show ?thesis using Cons.IH [of ?w] Cons.prems own True by simp
  next
    case False
    have "tick_window e tick ?w b = tick_window e tick w b" if "find (\<lambda>app. app_name app = name) apps = Some b" for b
      using find_SomeD [OF that] other [of name] False by (intro tick_window_cong) simp
    then show ?thesis
      using Cons.IH [of ?w] Cons.prems other [of name] False by (simp split: option.split)
  qed
qed simp

text \<open>The windows in which the jobs of one application are looked for, over a sequence of ticks.\<close>

definition window_of :: "string \<Rightarrow> job_env \<times> db \<times> go_time \<Rightarrow> job_world \<Rightarrow> (go_time \<times> go_time) option" where
  "window_of name look w =
     (case look of (e, s, now) \<Rightarrow>
        if \<not> je_list e then None
        else case find (\<lambda>app. app_name app = name) (ListApplications s) of
            None \<Rightarrow> None
          | Some app \<Rightarrow> map_option (\<lambda>(i, last_look). (last_look, time_truncate now minute)) (tick_window e (time_truncate now minute) w app))"

fun windows :: "string \<Rightarrow> (job_env \<times> db \<times> go_time) list \<Rightarrow> job_world \<Rightarrow> (go_time \<times> go_time) list" where
  "windows name [] w = []"
| "windows name (look # looks) w =
     (case window_of name look w of None \<Rightarrow> [] | Some win \<Rightarrow> [win]) @
     windows name looks (case look of (e, s, now) \<Rightarrow> scheduleJobs e s now w)"

definition listed_in :: "string \<Rightarrow> job_env \<times> db \<times> go_time \<Rightarrow> bool" where
  "listed_in name look = (case look of (e, s, now) \<Rightarrow> distinct (map app_name (applications s)) \<and> name \<in> app_name ` set (applications s))"

lemma window_known:
  assumes "window_of name (e, s, now) w = Some (l, t)"
  shows "t = time_truncate now minute" "l < t" "l = (case jw_lastTick w name of None \<Rightarrow> t - minute | Some x \<Rightarrow> x)"
  using assms by (auto simp: window_of_def tick_window_def Let_def dest!: find_SomeD split: if_splits option.splits)

lemma listed_sorted:
  assumes "listed_in name (e, s, now)"
  shows "distinct (map app_name (ListApplications s))" "name \<in> app_name ` set (ListApplications s)"
  using assms by (simp_all add: listed_in_def ListApplications_def distinct_map)

lemma lastTick_after:
  assumes "listed_in name (e, s, now)"
  shows "jw_lastTick (scheduleJobs e s now w) name = (case window_of name (e, s, now) w of None \<Rightarrow> jw_lastTick w name | Some (l, t) \<Rightarrow> Some t)"
proof (cases "find (\<lambda>app. app_name app = name) (ListApplications s)")
  case None
  then have False using listed_sorted(2) [OF assms] by (auto simp: find_None_iff)
  then show ?thesis ..
next
  case (Some app)
  then show ?thesis
    using schedule_apps_lastTick [OF listed_sorted(1) [OF assms], of e s "time_truncate now minute" w name] listed_sorted(2) [OF assms]
    by (simp add: scheduleJobs_def window_of_def Let_def split: option.split)
qed

fun chain :: "go_time option \<Rightarrow> (go_time \<times> go_time) list \<Rightarrow> bool" where
  "chain p [] \<longleftrightarrow> True"
| "chain p ((l, t) # ws) \<longleftrightarrow> l < t \<and> l = (case p of None \<Rightarrow> t - minute | Some x \<Rightarrow> x) \<and> chain (Some t) ws"

lemma windows_chain:
  "\<forall>look \<in> set looks. listed_in name look \<Longrightarrow> chain (jw_lastTick w name) (windows name looks w)"
proof (induction looks arbitrary: w)
  case (Cons look looks)
  obtain e s now where look: "look = (e, s, now)" by (rule prod_cases3)
  have after: "jw_lastTick (scheduleJobs e s now w) name = (case window_of name look w of None \<Rightarrow> jw_lastTick w name | Some (l, t) \<Rightarrow> Some t)"
    using lastTick_after Cons.prems look by simp
  have ih: "chain (jw_lastTick (scheduleJobs e s now w) name) (windows name looks (scheduleJobs e s now w))"
    using Cons by simp
  show ?case
  proof (cases "window_of name look w")
    case None
    then show ?thesis using ih after look by simp
  next
    case (Some win)
    obtain l t where win: "win = (l, t)" by (rule prod.exhaust)
    show ?thesis using ih after look Some win window_known [of name e s now w l t] by (auto split: option.splits)
  qed
qed simp

lemma chain_above:
  "chain (Some x) ws \<Longrightarrow> u \<le> x \<Longrightarrow> filter (\<lambda>(l, t). l < u \<and> u \<le> t) ws = []"
  by (induction "Some x" ws arbitrary: x rule: chain.induct) auto

lemma chain_covers:
  "chain p ws \<Longrightarrow> ws \<noteq> [] \<Longrightarrow> fst (hd ws) < u \<Longrightarrow> u \<le> snd (last ws) \<Longrightarrow>
   length (filter (\<lambda>(l, t). l < u \<and> u \<le> t) ws) = 1"
proof (induction p ws rule: chain.induct)
  case (2 p l t ws)
  show ?case
  proof (cases "u \<le> t")
    case True
    then show ?thesis using 2 chain_above [of t ws u] by simp
  next
    case False
    then have ne: "ws \<noteq> []" using 2 by auto
    then obtain l' t' ws' where ws: "ws = (l', t') # ws'" by (cases ws) auto
    then have "l' = t" using 2 by simp
    then show ?thesis using 2 False ws by simp
  qed
qed simp

text \<open>
  C22: No minute falls between two looks and none is looked at twice: whatever the ticks, and however often the
  application was busy, stopped or the list could not be read in between, every instant between the first look at an
  application and the last lies in exactly one of the windows the scheduler took up, as long as the application exists. The
  first window is the one minute of the first tick. A window is taken up once: a deployment that cannot be read then,
  or a job that is refused because it still runs, is not looked at for it again.
\<close>

theorem every_minute_in_one_window:
  assumes "\<forall>look \<in> set looks. listed_in name look" "windows name looks w = ws" "ws \<noteq> []"
  shows "(fst (hd ws) < u \<and> u \<le> snd (last ws) \<longrightarrow> length (filter (\<lambda>(l, t). l < u \<and> u \<le> t) ws) = 1) \<and>
    fst (hd ws) = (case jw_lastTick w name of None \<Rightarrow> snd (hd ws) - minute | Some x \<Rightarrow> x)"
  using windows_chain [OF assms(1), of w] chain_covers [of _ ws u] assms(2,3) by (cases ws) (auto split: option.splits)

text \<open>
  A job whose schedule can be read is due at a look exactly if its schedule fires in a whole minute after the last look
  and no later than this one, or if its schedule never fires at all.
\<close>

theorem due_when_it_fires:
  assumes "0 \<le> last_look" "last_look \<le> tick" "parse (jb_schedule j) = Some (Inr s)"
  shows "job_due last_look tick j \<longleftrightarrow>
    (\<exists>u. last_look < u \<and> u \<le> tick \<and> u mod minute = 0 \<and> matches s u) \<or> (\<forall>u. \<not> matches s u)"
  by (rule due_cases [OF assms])

definition never_text :: string where "never_text = ''0 0 30 2 *''"

definition never_schedule :: schedule where
  "never_schedule = \<lparr>minutes = 1, hours = 1, days = 1073741824, months = 4, weekdays = 255,
     anyDay = False, anyWeekday = True, expr = never_text\<rparr>"

lemma never_parsed: "parse never_text = Some (Inr never_schedule)"
  by code_simp

lemma never_matches: "\<not> matches never_schedule u"
proof
  assume "matches never_schedule u"
  then have m: "set_has 4 (time_month u)" "set_has 1073741824 (time_day u)"
    by (auto simp: matches_def matchesDay_def never_schedule_def Let_def split: if_splits)
  have "(4 :: bitset) = set_add 0 2" "(1073741824 :: bitset) = set_add 0 30" by code_simp+
  then have "time_month u = 2" "time_day u = 30" using m by (simp_all only: set_has_add set_has_0 simp_thms)
  then show False using valid_date_of_day [of "day_number u"]
    by (auto simp: valid_date_def days_in_month_def time_month_def time_day_def split: if_splits)
qed

text \<open>A database with an application whose jobs are a report every quarter of an hour at night and one that never fires.\<close>

definition demo_report :: Job where
  "demo_report = \<lparr>jb_name = ''report'', jb_schedule = ''*/15 3 * * *'', jb_command = [''report''], jb_timeout = hour\<rparr>"

definition demo_never :: Job where
  "demo_never = \<lparr>jb_name = ''leap'', jb_schedule = never_text, jb_command = [''leap''], jb_timeout = hour\<rparr>"

definition jobs_db :: db where
  "jobs_db = demo_db\<lparr>deployments := map (\<lambda>d. d\<lparr>d_spec := (d_spec d)\<lparr>a_jobs := [demo_report, demo_never]\<rparr>\<rparr>) (deployments demo_db)\<rparr>"

definition jobs_env :: job_env where
  "jobs_env = \<lparr>je_now = 0, je_list = True, je_free = (\<lambda>_. True), je_load = (\<lambda>_. True), je_record = (\<lambda>_ _. True),
     je_launch = (\<lambda>_ _. Launched), je_finish = (\<lambda>_ _. True)\<rparr>"

text \<open>
  A job whose schedule names a day that no month has is accepted, and started at every tick: \<open>Next\<close> answers the zero
  time, which is not after any minute. So a job that is never due runs every minute of every day.
\<close>

theorem never_firing_is_always_due:
  assumes "0 \<le> last_look" "last_look \<le> tick" "jb_schedule j = ''0 0 30 2 *''"
  shows "(\<exists>s. parse (jb_schedule j) = Some (Inr s) \<and> (\<forall>u. \<not> matches s u)) \<and> job_due last_look tick j"
proof -
  have s: "parse (jb_schedule j) = Some (Inr never_schedule)" "\<forall>u. \<not> matches never_schedule u"
    using never_parsed never_matches assms(3) by (simp_all add: never_text_def)
  then show ?thesis using due_cases [OF assms(1,2) s(1)] by blast
qed

theorem never_firing_is_always_due_witness:
  "job_due (time_date 2026 3 1 3 14) (time_date 2026 3 1 3 15) demo_never"
  by (rule never_firing_is_always_due [THEN conjunct2]) (code_simp, code_simp, simp add: demo_never_def never_text_def)

theorem due_when_it_fires_witness:
  "job_due (time_date 2026 3 1 3 14) (time_date 2026 3 1 3 15) demo_report"
proof -
  have p: "parse (jb_schedule demo_report) = Some (Inr quarter_schedule)"
    by (simp add: demo_report_def quarter_schedule_parsed)
  have t: "0 \<le> time_date 2026 3 1 3 14" "time_date 2026 3 1 3 14 \<le> time_date 2026 3 1 3 15" by code_simp+
  have "time_date 2026 3 1 3 14 < time_date 2026 3 1 3 15" "time_date 2026 3 1 3 15 mod minute = 0"
    by (simp_all add: time_date_def date_day_def days_before_year_def days_before_month_def ns_defs)
  moreover have "matches quarter_schedule (time_date 2026 3 1 3 15)" by code_simp
  ultimately have "\<exists>u. time_date 2026 3 1 3 14 < u \<and> u \<le> time_date 2026 3 1 3 15 \<and> u mod minute = 0 \<and> matches quarter_schedule u"
    by (intro exI [of _ "time_date 2026 3 1 3 15"] conjI order_refl)
  then show ?thesis unfolding due_when_it_fires [OF t p] by (rule disjI1)
qed

definition demo_ids :: "string \<Rightarrow> int" where
  "demo_ids name = (if name = ''api'' then 1 else 2 * int (to_nat name))"

lemma demo_ids_inj: "inj demo_ids"
  by (auto simp: inj_def demo_ids_def) presburger+

lemma jobs_db_ids: "\<forall>d \<in> set (deployments jobs_db). same_application demo_ids d"
proof -
  have "\<forall>d \<in> set (deployments jobs_db). d_application d = ''api'' \<and> d_application_id d = 1" by code_simp
  then show ?thesis by (simp add: same_application_def demo_ids_def)
qed

definition demo_running :: job_world where
  "demo_running = snd (RunJob jobs_env (\<lambda>_. False) jobs_db ''api'' ''report'' idle_jobs)"

lemma demo_running_jobs: "map (\<lambda>c. (cl_application c, cl_job c, cl_run c)) (jw_collecting demo_running) = [(''api'', ''report'', 1)]"
  by code_simp

lemma by_hand_reaches: "(job_step demo_ids)\<^sup>*\<^sup>* w (snd (startFromActive e static jobs_db name resolve w))"
  by (rule r_into_rtranclp [where r = "job_step demo_ids"]) (rule job_step.by_hand [OF jobs_db_ids])

lemma demo_running_reachable: "(job_step demo_ids)\<^sup>*\<^sup>* idle_jobs demo_running"
  unfolding demo_running_def RunJob_def by (rule by_hand_reaches)

text \<open>Three looks, the second at a moment at which the application was busy.\<close>

definition demo_looks :: "(job_env \<times> db \<times> go_time) list" where
  "demo_looks = [(jobs_env, demo_db, 5 * minute + 7), (jobs_env\<lparr>je_free := (\<lambda>_. False)\<rparr>, demo_db, 6 * minute), (jobs_env, demo_db, 8 * minute)]"

lemma demo_windows: "windows ''api'' demo_looks idle_jobs = [(4 * minute, 5 * minute), (5 * minute, 8 * minute)]"
  by code_simp

theorem every_minute_in_one_window_witness:
  "length (filter (\<lambda>(l, t). l < 6 * minute \<and> 6 * minute \<le> t) (windows ''api'' demo_looks idle_jobs)) = 1"
proof -
  have "\<forall>look \<in> set demo_looks. listed_in ''api'' look"
    by code_simp
  from every_minute_in_one_window [OF this demo_windows, of "6 * minute"] show ?thesis
    by (simp add: demo_windows minute_def)
qed

theorem one_run_per_job_witness:
  "length (jw_collecting demo_running) = 1 \<and> jw_ops demo_running = 1 \<and>
   length (filter (\<lambda>c. cl_application c = ''api'' \<and> cl_job c = ''report'') (jw_collecting demo_running)) \<le> 1"
proof -
  have "length (jw_collecting demo_running) = 1"
    using arg_cong [OF demo_running_jobs, of length] by simp
  moreover have "''report'' \<noteq> commandJobName" by (simp add: commandJobName_def)
  ultimately show ?thesis
    using one_run_per_job [OF demo_running_reachable demo_ids_inj, of "''report''" "''api''"] by simp
qed

theorem outcome_is_recorded_witness:
  "\<exists>r. GetJobRun 1 (jw_runs (collectJob (hd (jw_collecting demo_running)) (ExitedWith 3) ''out'' True True 9 demo_running)) = Some r \<and>
     jn_status r = RunFailed \<and> jn_exitCode r = Some 3"
proof -
  obtain c where c: "jw_collecting demo_running = [c]" "cl_job c = ''report''" "cl_run c = 1"
    using demo_running_jobs by (cases "jw_collecting demo_running") auto
  then have "c \<in> set (jw_collecting demo_running)" "cl_job c \<noteq> commandJobName" by (simp_all add: commandJobName_def)
  from outcome_is_recorded [OF demo_running_reachable demo_ids_inj this, of "ExitedWith 3" "''out''" True 9]
  show ?thesis using c by (auto simp: run_outcome_def)
qed

text \<open>
  Commands of \<^verbatim>\<open>shipwick run\<close> are not exclusive, and the history of all of them is pruned as one job's. A
  command that is still running is forgotten when as many later ones have been recorded as the history holds: its row is
  deleted with the old ones, and when its container ends its outcome is written nowhere.
\<close>

lemma prune_drops:
  assumes t: "rows_ok t" and r: "r \<in> set (rr_rows t)"
    and later: "keep \<le> card {q \<in> set (rr_rows t). jn_application_id q = jn_application_id r \<and> jn_job q = jn_job r \<and> jn_id r < jn_id q}"
  shows "GetJobRun (jn_id r) (PruneJobRuns (jn_application_id r) (jn_job r) keep t) = None"
proof -
  let ?mine = "filter (\<lambda>q. jn_application_id q = jn_application_id r \<and> jn_job q = jn_job r) (rr_rows t)"
  let ?xs = "sort_key jn_id ?mine"
  have inj: "inj_on jn_id (set (rr_rows t))" using t by (simp add: rows_ok_def distinct_map)
  have "jn_id r \<notin> jn_id ` set (take keep (rev ?xs))"
  proof
    assume "jn_id r \<in> jn_id ` set (take keep (rev ?xs))"
    then obtain q where q: "q \<in> set (take keep (rev ?xs))" "jn_id q = jn_id r" by auto
    moreover have "q \<in> set (rr_rows t)" using set_take_subset [of keep "rev ?xs"] q(1) by auto
    ultimately have "r \<in> set (take keep (rev ?xs))" using inj r by (metis inj_onD)
    then obtain k where k: "k < keep" "k < length ?xs" "rev ?xs ! k = r" by (auto simp: in_set_conv_nth)
    have "{q \<in> set (rr_rows t). jn_application_id q = jn_application_id r \<and> jn_job q = jn_job r \<and> jn_id r < jn_id q} \<subseteq> set (take k (rev ?xs))"
    proof
      fix q assume "q \<in> {q \<in> set (rr_rows t). jn_application_id q = jn_application_id r \<and> jn_job q = jn_job r \<and> jn_id r < jn_id q}"
      then have q: "q \<in> set (rev ?xs)" "jn_id r < jn_id q" by simp_all
      obtain m where "m < length (rev ?xs)" "rev ?xs ! m = q" using q(1) unfolding in_set_conv_nth by blast
      then have m: "m < length ?xs" "rev ?xs ! m = q" by simp_all
      have "\<not> k \<le> m"
      proof
        assume "k \<le> m"
        then have "length ?xs - Suc m \<le> length ?xs - Suc k" by simp
        then have "jn_id (?xs ! (length ?xs - Suc m)) \<le> jn_id (?xs ! (length ?xs - Suc k))"
          using sorted_nth_mono [OF sorted_sort_key [of jn_id ?mine], of "length ?xs - Suc m" "length ?xs - Suc k"] m k(2)
          by (simp del: length_sort)
        then show False using m k q(2) by (simp add: rev_nth del: length_sort)
      qed
      then show "q \<in> set (take k (rev ?xs))" using m by (force simp: in_set_conv_nth)
    qed
    then have "card {q \<in> set (rr_rows t). jn_application_id q = jn_application_id r \<and> jn_job q = jn_job r \<and> jn_id r < jn_id q}
        \<le> card (set (take k (rev ?xs)))"
      by (rule card_mono [OF finite_set])
    also have "\<dots> \<le> length (take k (rev ?xs))" by (rule card_length)
    also have "\<dots> \<le> k" by simp
    finally show False using k(1) later by simp
  qed
  then show ?thesis
    using inj r by (auto simp: GetJobRun_def PruneJobRuns_def Let_def find_None_iff dest: inj_onD)
qed

end
