(* ===== verification/Runtime.thy ===== *)
theory Runtime
  imports Deployment_Store
begin

text \<open>
  The world the deployment engine acts on, as far as one application is concerned: the database, the
  application's containers in Docker, the containers draining in the background
  (\<^verbatim>\<open>src/agent/internal/deploy/drain.go\<close>), the routing override of \<^verbatim>\<open>routing.go\<close> and the ends of
  deployments that could not be written (\<^verbatim>\<open>settle.go\<close>), and the engine's functions that work on it
  (\<^verbatim>\<open>engine.go\<close>, and \<open>createReplicas\<close>, \<open>ensureReplicas\<close>, \<open>awaitReady\<close> of \<^verbatim>\<open>rollout.go\<close>).

  Docker, the proxy and the disk under the database are not this program's code: what they answer is
  the parameter \<open>env\<close>, functions of the number of the call. A call is done, is refused, or is done and
  reported as refused (\<open>Unheard\<close>); an inspection shows whatever the environment says; a timer or a
  cancelled context ends a wait after as many polls as the environment says. Between two calls
  containers that drain may go. Everything proved about the engine holds for every environment that
  meets the hypotheses written out in the statement.

  Two fields of the world are not the program's: \<open>seen\<close>, the containers, the ones draining and the override as they
  were after every call, and \<open>verified\<close>, the containers for which a wait for readiness has succeeded. No
  function reads them.
\<close>

section \<open>Computations with errors\<close>

datatype err = Refusal string | StoreError store_error | NilDereference

type_synonym ('s, 'a) comp = "'s \<Rightarrow> (err + 'a) \<times> 's"

definition done_with :: "'a \<Rightarrow> ('s, 'a) comp" where
  "done_with x s = (Inr x, s)"

definition fail_with :: "err \<Rightarrow> ('s, 'a) comp" where
  "fail_with er s = (Inl er, s)"

definition andThen :: "('s, 'a) comp \<Rightarrow> ('a \<Rightarrow> ('s, 'b) comp) \<Rightarrow> ('s, 'b) comp" where
  "andThen m k s = (case m s of (Inl er, s') \<Rightarrow> (Inl er, s') | (Inr x, s') \<Rightarrow> k x s')"

lemma andThen_cases:
  assumes "andThen m k s = (x, s')"
  obtains (fail) er where "m s = (Inl er, s')" "x = Inl er"
  | (ok) y s1 where "m s = (Inr y, s1)" "k y s1 = (x, s')"
  using assms by (auto simp: andThen_def split: prod.splits sum.splits)

text \<open>Evaluation runs the first part before it looks at the second.\<close>

fun next_with :: "('a \<Rightarrow> ('s, 'b) comp) \<Rightarrow> (err + 'a) \<times> 's \<Rightarrow> (err + 'b) \<times> 's" where
  "next_with k (Inl er, s) = (Inl er, s)"
| "next_with k (Inr x, s) = k x s"

lemma andThen_code [code]: "andThen m k s = next_with k (m s)"
  by (cases "m s"; cases "fst (m s)") (auto simp: andThen_def)

text \<open>An error that is logged and forgotten.\<close>

definition attempt :: "('s, 'a) comp \<Rightarrow> ('s, err option) comp" where
  "attempt m s = (case m s of (Inl er, s') \<Rightarrow> (Inr (Some er), s') | (Inr x, s') \<Rightarrow> (Inr None, s'))"

text \<open>A loop that returns at the first error.\<close>

fun each :: "('a \<Rightarrow> ('s, unit) comp) \<Rightarrow> 'a list \<Rightarrow> ('s, unit) comp" where
  "each f [] = done_with ()"
| "each f (x # xs) = andThen (f x) (\<lambda>_. each f xs)"

definition err_text :: "err \<Rightarrow> string" where
  "err_text er = (case er of
     Refusal t \<Rightarrow> t | StoreError ErrNotFound \<Rightarrow> ''not found'' | StoreError ErrConflict \<Rightarrow> ''conflict''
   | NilDereference \<Rightarrow> ''invalid memory address or nil pointer dereference'')"

section \<open>The world and its environment\<close>

record container =
  c_id :: string
  c_deployment :: int
  c_replica :: nat
  c_running :: bool
  c_job :: bool
  c_named :: bool

type_synonym routeMember = "Replica \<times> int"

record routeOverride =
  o_members :: "routeMember list"
  o_desired :: nat

record unsettled =
  u_deployment :: Deployment
  u_failure :: string

record world =
  database :: db
  containers :: "container list"
  drains :: "string list"
  override :: "routeOverride option"
  unsettled_ends :: "unsettled list"
  calls :: nat
  verified :: "string list"
  seen :: "(container list \<times> string list \<times> routeOverride option) list"

datatype answer = Done | Refused | Unheard

datatype drain_end = Draining | Removed | RemovedUnmarked | GaveUp

datatype observation = InspectFailed | Observed bool bool

record env =
  answer_of :: "nat \<Rightarrow> answer"
  new_id :: "nat \<Rightarrow> string"
  drain_end_of :: "nat \<Rightarrow> string \<Rightarrow> drain_end"
  observed :: "nat \<Rightarrow> string \<Rightarrow> observation"
  probe_answers :: "nat \<Rightarrow> string \<Rightarrow> bool"
  ready_replica :: "nat \<Rightarrow> string \<Rightarrow> bool"
  renamed :: "nat \<Rightarrow> string \<Rightarrow> bool"
  polls :: "nat \<Rightarrow> nat"
  cancelled :: "nat \<Rightarrow> bool"
  shutting_down :: "nat \<Rightarrow> bool"
  clock :: "nat \<Rightarrow> go_time"

text \<open>What is seen of the world after a call.\<close>

definition note_seen :: "world \<Rightarrow> world" where
  "note_seen w = w\<lparr>seen := seen w @ [(containers w, drains w, override w)]\<rparr>"

definition remove_container :: "string \<Rightarrow> world \<Rightarrow> world" where
  "remove_container i w = w\<lparr>containers := filter (\<lambda>c. c_id c \<noteq> i) (containers w)\<rparr>"

definition mark_removed :: "string \<Rightarrow> world \<Rightarrow> world" where
  "mark_removed i w = w\<lparr>database := MarkReplicaRemoved i (database w)\<rparr>"

text \<open>
  The goroutine of \<open>retireInBackground\<close>: it stops the container, removes it and marks the replica
  removed; each step may fail, and it gives up when its context ends. Either way the drain is over.
\<close>

definition end_drain :: "env \<Rightarrow> nat \<Rightarrow> string \<Rightarrow> world \<Rightarrow> world" where
  "end_drain e n i w =
     (let over = w\<lparr>drains := filter (\<lambda>j. j \<noteq> i) (drains w)\<rparr>
      in case drain_end_of e n i of
           Draining \<Rightarrow> w
         | Removed \<Rightarrow> mark_removed i (remove_container i over)
         | RemovedUnmarked \<Rightarrow> remove_container i over
         | GaveUp \<Rightarrow> over)"

text \<open>Time passes up to the next call: drains come to their end.\<close>

definition tick :: "env \<Rightarrow> world \<Rightarrow> world" where
  "tick e w = note_seen ((fold (end_drain e (calls w)) (drains w) w)\<lparr>calls := calls w + 1\<rparr>)"

definition refusal :: err where
  "refusal = Refusal ''refused''"

definition call :: "env \<Rightarrow> (world \<Rightarrow> world) \<Rightarrow> (world, unit) comp" where
  "call e f w =
     (let w1 = tick e w
      in case answer_of e (calls w) of
           Done \<Rightarrow> (Inr (), note_seen (f w1))
         | Refused \<Rightarrow> (Inl refusal, w1)
         | Unheard \<Rightarrow> (Inl refusal, note_seen (f w1)))"

definition store_call :: "env \<Rightarrow> (db \<Rightarrow> store_error + db \<times> 'a) \<Rightarrow> (world, 'a) comp" where
  "store_call e f w =
     (let w1 = tick e w
      in case (answer_of e (calls w), f (database w1)) of
           (Refused, _) \<Rightarrow> (Inl refusal, w1)
         | (Done, Inl se) \<Rightarrow> (Inl (StoreError se), w1)
         | (Done, Inr (s, x)) \<Rightarrow> (Inr x, w1\<lparr>database := s\<rparr>)
         | (Unheard, Inl se) \<Rightarrow> (Inl refusal, w1)
         | (Unheard, Inr (s, x)) \<Rightarrow> (Inl refusal, w1\<lparr>database := s\<rparr>))"

definition store_write :: "env \<Rightarrow> (db \<Rightarrow> db) \<Rightarrow> (world, unit) comp" where
  "store_write e f = store_call e (\<lambda>s. Inr (f s, ()))"

definition store_read :: "env \<Rightarrow> (db \<Rightarrow> store_error + 'a) \<Rightarrow> (world, 'a) comp" where
  "store_read e f = store_call e (\<lambda>s. case f s of Inl se \<Rightarrow> Inl se | Inr x \<Rightarrow> Inr (s, x))"

section \<open>The container runtime\<close>

definition update_container :: "string \<Rightarrow> (container \<Rightarrow> container) \<Rightarrow> world \<Rightarrow> world" where
  "update_container i f w = w\<lparr>containers := map (\<lambda>c. if c_id c = i then f c else c) (containers w)\<rparr>"

definition StartContainer :: "env \<Rightarrow> string \<Rightarrow> (world, unit) comp" where
  "StartContainer e i = call e (update_container i (\<lambda>c. c\<lparr>c_running := True\<rparr>))"

definition StopContainer :: "env \<Rightarrow> string \<Rightarrow> (world, unit) comp" where
  "StopContainer e i = call e (update_container i (\<lambda>c. c\<lparr>c_running := False\<rparr>))"

definition RemoveContainer :: "env \<Rightarrow> string \<Rightarrow> (world, unit) comp" where
  "RemoveContainer e i = call e (remove_container i)"

definition CreateContainer :: "env \<Rightarrow> int \<Rightarrow> nat \<Rightarrow> (world, string) comp" where
  "CreateContainer e dep i w =
     (let c = new_id e (calls w)
      in andThen (call e (\<lambda>w. w\<lparr>containers := containers w @
           [\<lparr>c_id = c, c_deployment = dep, c_replica = i, c_running = False, c_job = False, c_named = False\<rparr>]\<rparr>))
         (\<lambda>_. done_with c) w)"

text \<open>An inspection: whether the container runs, and whether it has an address.\<close>

definition InspectContainer :: "env \<Rightarrow> string \<Rightarrow> (world, bool \<times> bool) comp" where
  "InspectContainer e i w =
     (case observed e (calls w) i of
        InspectFailed \<Rightarrow> (Inl refusal, tick e w)
      | Observed running address \<Rightarrow> (Inr (running, address), tick e w))"

definition ListContainers :: "env \<Rightarrow> (world, container list) comp" where
  "ListContainers e w = andThen (call e (\<lambda>w. w)) (\<lambda>_ w. done_with (containers w) w) w"

text \<open>\<open>ctx.Err()\<close>, and a wait that a cancelled context cuts short.\<close>

definition ctx_err :: "env \<Rightarrow> (world, unit) comp" where
  "ctx_err e w = (if cancelled e (calls w) then fail_with (Refusal ''context canceled'') w else done_with () w)"

definition pause :: "env \<Rightarrow> (world, unit) comp" where
  "pause e w = (if cancelled e (calls w) then fail_with (Refusal ''context canceled'') (tick e w)
               else done_with () (tick e w))"

section \<open>Retiring containers\<close>

definition removeContainer :: "env \<Rightarrow> string \<Rightarrow> (world, unit) comp" where
  "removeContainer e i =
     andThen (RemoveContainer e i) (\<lambda>_. store_write e (MarkReplicaRemoved i))"

definition retireContainer :: "env \<Rightarrow> string \<Rightarrow> (world, unit) comp" where
  "retireContainer e i = andThen (attempt (StopContainer e i)) (\<lambda>_. removeContainer e i)"

text \<open>The caller's half of \<open>retireInBackground\<close>; the goroutine is \<open>end_drain\<close>.\<close>

definition retireInBackground :: "env \<Rightarrow> string \<Rightarrow> world \<Rightarrow> bool \<times> world" where
  "retireInBackground e i w =
     (if shutting_down e (calls w) then (False, w)
      else if i \<in> set (drains w) then (True, w)
      else (True, w\<lparr>drains := drains w @ [i]\<rparr>))"

text \<open>
  The wait for the drains of the application. With the application's lock held nothing adds one in
  the meantime, so one round decides: every drain comes to an end, or the context does.
\<close>

definition awaitDrains :: "env \<Rightarrow> (world, unit) comp" where
  "awaitDrains e w =
     (if drains w = [] then done_with () w
      else let w1 = tick e w
           in if drains w1 = [] then done_with () w1 else fail_with (Refusal ''context canceled'') w1)"

definition stale_container :: "world \<Rightarrow> int \<Rightarrow> container \<Rightarrow> bool" where
  "stale_container w dep c \<longleftrightarrow> \<not> c_job c \<and> c_id c \<notin> set (drains w) \<and> c_deployment c \<noteq> dep"

text \<open>\<open>retireAll\<close> retires concurrently; one after the other is one of its orders.\<close>

definition retireOthers :: "env \<Rightarrow> int \<Rightarrow> (world, unit) comp" where
  "retireOthers e dep w =
     (case ListContainers e w of
        (Inl er, w1) \<Rightarrow> (Inr (), w1)
      | (Inr cs, w1) \<Rightarrow>
          each (\<lambda>c. andThen (attempt (retireContainer e (c_id c))) (\<lambda>_. done_with ()))
            (filter (stale_container w1 dep) cs) w1)"

section \<open>Replicas come to exist\<close>

fun createReplicas :: "env \<Rightarrow> Deployment \<Rightarrow> nat list \<Rightarrow> world \<Rightarrow> (Replica list \<times> err option) \<times> world" where
  "createReplicas e d [] w = (([], None), w)"
| "createReplicas e d (i # is) w =
     (case CreateContainer e (d_id d) i w of
        (Inl er, w1) \<Rightarrow> (([], Some er), w1)
      | (Inr c, w1) \<Rightarrow>
          let rep = \<lparr>r_deployment = d_id d, r_index = i, r_container = c, r_restarts = 0\<rparr>
          in case store_write e (AddReplica rep) w1 of
               (Inl er, w2) \<Rightarrow> (([], Some er), snd (removeContainer e c w2))
             | (Inr _, w2) \<Rightarrow>
                 (case createReplicas e d is w2 of
                    ((created, er), w3) \<Rightarrow> ((rep # created, er), w3)))"

definition ensureReplicas :: "env \<Rightarrow> Deployment \<Rightarrow> nat list \<Rightarrow> world \<Rightarrow> (Replica list \<times> err option) \<times> world" where
  "ensureReplicas e d is w =
     (case createReplicas e d is w of
        ((created, Some er), w1) \<Rightarrow> ((created, Some er), w1)
      | ((created, None), w1) \<Rightarrow>
          (case each (\<lambda>rep. StartContainer e (r_container rep)) created w1 of
             (Inl er, w2) \<Rightarrow> ((created, Some er), w2)
           | (Inr _, w2) \<Rightarrow> ((created, None), w2)))"

text \<open>The same in the order of evaluation, each step with the outcome of the one before it.\<close>

fun created_more :: "Replica \<Rightarrow> (Replica list \<times> err option) \<times> world \<Rightarrow> (Replica list \<times> err option) \<times> world" where
  "created_more rep ((created, er), w) = ((rep # created, er), w)"

fun recorded_replica :: "env \<Rightarrow> Deployment \<Rightarrow> Replica \<Rightarrow> nat list \<Rightarrow> (err + unit) \<times> world \<Rightarrow> (Replica list \<times> err option) \<times> world" where
  "recorded_replica e d rep is (Inl er, w) = (([], Some er), snd (removeContainer e (r_container rep) w))"
| "recorded_replica e d rep is (Inr u, w) = created_more rep (createReplicas e d is w)"

fun created_replica :: "env \<Rightarrow> Deployment \<Rightarrow> nat \<Rightarrow> nat list \<Rightarrow> (err + string) \<times> world \<Rightarrow> (Replica list \<times> err option) \<times> world" where
  "created_replica e d i is (Inl er, w) = (([], Some er), w)"
| "created_replica e d i is (Inr c, w) =
     recorded_replica e d \<lparr>r_deployment = d_id d, r_index = i, r_container = c, r_restarts = 0\<rparr> is
       (store_write e (AddReplica \<lparr>r_deployment = d_id d, r_index = i, r_container = c, r_restarts = 0\<rparr>) w)"

lemma createReplicas_code [code]:
  "createReplicas e d [] w = (([], None), w)"
  "createReplicas e d (i # is) w = created_replica e d i is (CreateContainer e (d_id d) i w)"
  by (simp_all add: Let_def split: prod.splits sum.splits)

fun started_replicas :: "Replica list \<Rightarrow> (err + unit) \<times> world \<Rightarrow> (Replica list \<times> err option) \<times> world" where
  "started_replicas created (Inl er, w) = ((created, Some er), w)"
| "started_replicas created (Inr u, w) = ((created, None), w)"

fun start_created :: "env \<Rightarrow> (Replica list \<times> err option) \<times> world \<Rightarrow> (Replica list \<times> err option) \<times> world" where
  "start_created e ((created, Some er), w) = ((created, Some er), w)"
| "start_created e ((created, None), w) = started_replicas created (each (\<lambda>rep. StartContainer e (r_container rep)) created w)"

lemma ensureReplicas_code [code]: "ensureReplicas e d is w = start_created e (createReplicas e d is w)"
  by (simp add: ensureReplicas_def split: prod.splits option.splits sum.splits)

section \<open>Waiting until replicas are ready\<close>

definition StartupBudget :: "Health \<Rightarrow> duration" where
  "StartupBudget h = wrap64 (h_start_period h + wrap64 (h_interval h * h_retries h))"

definition still_running :: "env \<Rightarrow> Replica \<Rightarrow> (world, unit) comp" where
  "still_running e rep =
     andThen (InspectContainer e (r_container rep))
       (\<lambda>(running, _). if running then done_with ()
          else fail_with (Refusal (''replica '' @ itoa (int (r_index rep)) @ '' exited shortly after start'')))"

text \<open>Both waits: the second argument is how many polls come before the timer or the context ends it.\<close>

fun stable_rounds :: "env \<Rightarrow> nat \<Rightarrow> Replica list \<Rightarrow> (world, unit) comp" where
  "stable_rounds e 0 reps = andThen (each (still_running e) reps) (\<lambda>_. pause e)"
| "stable_rounds e (Suc k) reps = andThen (each (still_running e) reps) (\<lambda>_. stable_rounds e k reps)"

definition awaitStable :: "env \<Rightarrow> Replica list \<Rightarrow> (world, unit) comp" where
  "awaitStable e reps w = stable_rounds e (polls e (calls w)) reps w"

text \<open>One round over the pending replicas; those that did not answer yet remain.\<close>

fun probe_round :: "env \<Rightarrow> Replica list \<Rightarrow> (world, Replica list) comp" where
  "probe_round e [] = done_with []"
| "probe_round e (rep # reps) =
     andThen (InspectContainer e (r_container rep))
       (\<lambda>(running, address).
          if \<not> running then
            fail_with (Refusal (''replica '' @ itoa (int (r_index rep)) @ '' exited before it became healthy''))
          else if \<not> address then andThen (probe_round e reps) (\<lambda>rest. done_with (rep # rest))
          else (\<lambda>w. if probe_answers e (calls w) (r_container rep) then probe_round e reps (tick e w)
                   else andThen (ctx_err e) (\<lambda>_. andThen (probe_round e reps) (\<lambda>rest. done_with (rep # rest))) (tick e w)))"

fun healthy_rounds :: "env \<Rightarrow> nat \<Rightarrow> Replica list \<Rightarrow> (world, unit) comp" where
  "healthy_rounds e 0 pending =
     andThen (probe_round e pending) (\<lambda>rest. if rest = [] then done_with ()
       else fail_with (Refusal (''replica '' @ itoa (int (r_index (hd rest))) @ '' did not become healthy'')))"
| "healthy_rounds e (Suc k) pending =
     andThen (probe_round e pending) (\<lambda>rest. if rest = [] then done_with () else healthy_rounds e k rest)"

definition awaitHealthy :: "env \<Rightarrow> Replica list \<Rightarrow> (world, unit) comp" where
  "awaitHealthy e reps w = healthy_rounds e (polls e (calls w)) reps w"

definition note_verified :: "Replica list \<Rightarrow> (world, unit) comp" where
  "note_verified reps w = done_with () (w\<lparr>verified := verified w @ map r_container reps\<rparr>)"

definition awaitReady :: "env \<Rightarrow> App \<Rightarrow> Replica list \<Rightarrow> (world, unit) comp" where
  "awaitReady e a reps =
     (if reps = [] then done_with ()
      else andThen (if a_health a \<noteq> None then awaitHealthy e reps else awaitStable e reps)
        (\<lambda>_. note_verified reps))"

section \<open>Routing\<close>

definition routeVia :: "routeOverride \<Rightarrow> world \<Rightarrow> world" where
  "routeVia o' w = w\<lparr>override := Some o'\<rparr>"

definition clearRouteOverride :: "world \<Rightarrow> world" where
  "clearRouteOverride w = w\<lparr>override := None\<rparr>"

text \<open>\<open>path.Join\<close> of parts that have been validated.\<close>

definition staticDir :: "string \<Rightarrow> string \<Rightarrow> string" where
  "staticDir app digest = ''/srv/shipwick/'' @ app @ ''/'' @ trim_prefix digest ''sha256:''"

text \<open>Who the plan of \<open>routingPlans\<close> names: the override's members, else the active deployment's replicas.\<close>

definition plan_members :: "string \<Rightarrow> world \<Rightarrow> Replica list" where
  "plan_members app w =
     (case override w of
        Some o' \<Rightarrow> map fst (o_members o')
      | None \<Rightarrow>
          (case GetApplication app (database w) of
             Inl _ \<Rightarrow> []
           | Inr a \<Rightarrow>
               (case app_active a of
                  None \<Rightarrow> []
                | Some i \<Rightarrow> if app_desired a = DesiredRunning then ListReplicas i (database w) else [])))"

text \<open>
  A sync gives the application's names to the members of the plan that run and are ready, takes them
  from members that run and are not ready, and touches no other container. A sync that fails half-way
  has renamed some of them.
\<close>

definition give_names :: "env \<Rightarrow> nat \<Rightarrow> (string \<Rightarrow> bool) \<Rightarrow> string \<Rightarrow> world \<Rightarrow> world" where
  "give_names e n reached app w =
     w\<lparr>containers := map (\<lambda>c. if c_id c \<in> r_container ` set (plan_members app w) \<and> c_running c \<and> reached (c_id c)
                           then c\<lparr>c_named := ready_replica e n (c_id c)\<rparr> else c) (containers w)\<rparr>"

definition SyncProxy :: "env \<Rightarrow> string \<Rightarrow> (world, unit) comp" where
  "SyncProxy e app w =
     (let n = calls w; w1 = tick e w
      in if answer_of e n = Done then (Inr (), note_seen (give_names e n (\<lambda>_. True) app w1))
         else (Inl refusal, note_seen (give_names e n (renamed e n) app w1)))"

text \<open>It loses its names before it starts.\<close>

definition startNameless :: "env \<Rightarrow> string \<Rightarrow> (world, unit) comp" where
  "startNameless e i =
     andThen (call e (update_container i (\<lambda>c. c\<lparr>c_named := False\<rparr>))) (\<lambda>_. StartContainer e i)"

section \<open>Status\<close>

definition illegal :: "DeploymentStatus \<Rightarrow> DeploymentStatus \<Rightarrow> err" where
  "illegal s to = Refusal ''illegal state transition''"

text \<open>The deployment in the engine's memory moves only when the database has taken the change.\<close>

definition transitionWithError ::
    "env \<Rightarrow> Deployment \<Rightarrow> DeploymentStatus \<Rightarrow> string \<Rightarrow> (world, Deployment) comp" where
  "transitionWithError e d to errMsg =
     (if \<not> CanTransition (d_status d) to then fail_with (illegal (d_status d) to)
      else andThen (store_call e (\<lambda>s. case TransitionDeployment (d_id d) (d_status d) to errMsg s of
                                      Inl se \<Rightarrow> Inl se | Inr s' \<Rightarrow> Inr (s', ())))
             (\<lambda>_. done_with (d\<lparr>d_status := to\<rparr>)))"

section \<open>Recording the end\<close>

text \<open>\<open>writeEnd\<close> also returns what it learned of the status.\<close>

definition writeEnd :: "env \<Rightarrow> unsettled \<Rightarrow> world \<Rightarrow> (err option \<times> unsettled) \<times> world" where
  "writeEnd e u w =
     (let d = u_deployment u;
          complete = (\<lambda>d w. case store_write e (CompleteDeployment (d_id d) (clock e (calls w))) w of
                        (Inl er, w') \<Rightarrow> ((Some er, u\<lparr>u_deployment := d\<rparr>), w')
                      | (Inr _, w') \<Rightarrow> ((None, u\<lparr>u_deployment := d\<rparr>), w'))
      in if IsSettled (d_status d) then complete d w
         else
           (let msg = (if u_failure u = [] then ''the deployment ended, and the database could not be written at the time to say how''
                       else u_failure u)
            in case transitionWithError e d StatusFailed msg w of
                 (Inr d', w1) \<Rightarrow> complete d' w1
               | (Inl (StoreError ErrConflict), w1) \<Rightarrow>
                   (case store_read e (GetDeployment (d_id d)) w1 of
                      (Inl er, w2) \<Rightarrow> ((Some er, u), w2)
                    | (Inr current, w2) \<Rightarrow>
                        let d' = d\<lparr>d_status := d_status current\<rparr>
                        in if IsSettled (d_status d') then complete d' w2
                           else ((Some (StoreError ErrConflict), u\<lparr>u_deployment := d'\<rparr>), w2))
               | (Inl er, w1) \<Rightarrow> ((Some er, u), w1)))"

definition settle :: "env \<Rightarrow> Deployment \<Rightarrow> string \<Rightarrow> world \<Rightarrow> world" where
  "settle e d failure w =
     (case writeEnd e \<lparr>u_deployment = d, u_failure = failure\<rparr> w of
        ((None, u), w1) \<Rightarrow> w1
      | ((Some er, u), w1) \<Rightarrow> w1\<lparr>unsettled_ends := unsettled_ends w1 @ [u]\<rparr>)"

fun retry_ends :: "env \<Rightarrow> unsettled list \<Rightarrow> world \<Rightarrow> unsettled list \<times> world" where
  "retry_ends e [] w = ([], w)"
| "retry_ends e (u # us) w =
     (case writeEnd e u w of
        ((er, u'), w1) \<Rightarrow>
          (case retry_ends e us w1 of
             (still, w2) \<Rightarrow> (if er = None then still else u' # still, w2)))"

definition retrySettling :: "env \<Rightarrow> world \<Rightarrow> world" where
  "retrySettling e w =
     (case retry_ends e (unsettled_ends w) (w\<lparr>unsettled_ends := []\<rparr>) of
        (still, w1) \<Rightarrow> w1\<lparr>unsettled_ends := still @ unsettled_ends w1\<rparr>)"

text \<open>Whether the application has a deployment made after \<open>d\<close>.\<close>

definition superseded :: "Deployment \<Rightarrow> db \<Rightarrow> bool" where
  "superseded d s =
     (case listDeployments \<lparr>f_application = d_application d, f_statuses = [], f_limit = 1\<rparr> s of
        [] \<Rightarrow> False
      | latest # _ \<Rightarrow> d_sequence latest > d_sequence d)"

section \<open>What a computation keeps\<close>

text \<open>\<open>keeps R m\<close>: whatever \<open>m\<close> does, and whether it fails or not, the state before and after are related.\<close>

definition keeps :: "('s \<Rightarrow> 's \<Rightarrow> bool) \<Rightarrow> ('s \<Rightarrow> 'b \<times> 's) \<Rightarrow> bool" where
  "keeps R m \<longleftrightarrow> (\<forall>s. R s (snd (m s)))"

named_theorems keeps_intros

lemma keepsD: "keeps R m \<Longrightarrow> R s (snd (m s))"
  by (simp add: keeps_def)

lemma keeps_result: "keeps R m \<Longrightarrow> m s = (x, s') \<Longrightarrow> R s s'"
  by (metis keepsD snd_conv)

locale preorder_law =
  fixes R :: "'s \<Rightarrow> 's \<Rightarrow> bool"
  assumes law_refl: "R s s"
    and law_trans: "R s t \<Longrightarrow> R t u \<Longrightarrow> R s u"
begin

lemma keeps_done: "keeps R (done_with x)"
  by (simp add: keeps_def done_with_def law_refl)

lemma keeps_fail: "keeps R (fail_with er)"
  by (simp add: keeps_def fail_with_def law_refl)

lemma keeps_andThen:
  assumes "keeps R m" "\<And>x. keeps R (k x)"
  shows "keeps R (andThen m k)"
  unfolding keeps_def
proof
  fix s
  have "R s (snd (m s))"
    using assms(1) by (rule keepsD)
  then show "R s (snd (andThen m k s))"
    using assms(2) law_trans by (auto simp: andThen_def keeps_def split: prod.splits sum.splits)
qed

lemma keeps_attempt: "keeps R m \<Longrightarrow> keeps R (attempt m)"
  unfolding keeps_def attempt_def by (auto split: prod.splits sum.splits) (metis snd_conv)+

lemma keeps_each: "(\<And>x. keeps R (f x)) \<Longrightarrow> keeps R (each f xs)"
  by (induction xs) (auto intro: keeps_done keeps_andThen)

lemmas keeps_combinators = keeps_done keeps_fail keeps_andThen keeps_attempt keeps_each

end

text \<open>
  What the engine does to the world outside, effect by effect. First the effects that leave the
  containers alone but for their names: time passing, writes to the database, verification.
\<close>

locale world_effects = preorder_law R for R :: "world \<Rightarrow> world \<Rightarrow> bool" +
  fixes e :: env
  assumes calm_tick: "R w (tick e w)"
    and calm_note: "R w (note_seen w)"
    and calm_names: "R w (give_names e n p app w)"
    and calm_verified: "R w (w\<lparr>verified := verified w @ v\<rparr>)"
    and calm_removed: "R w (w\<lparr>database := MarkReplicaRemoved c (database w)\<rparr>)"
    and calm_added: "R w (w\<lparr>database := AddReplica rep (database w)\<rparr>)"
    and calm_transition: "\<lbrakk>CanTransition from to; to \<notin> {StatusActive, StatusSuperseded};
      TransitionDeployment i from to msg (database w) = Inr s1\<rbrakk> \<Longrightarrow> R w (w\<lparr>database := s1\<rparr>)"
    and calm_complete: "R w (w\<lparr>database := CompleteDeployment i now (database w)\<rparr>)"
    and calm_unsettled: "R w (w\<lparr>unsettled_ends := us\<rparr>)"
begin

lemma keeps_chain: "keeps R m \<Longrightarrow> m w = (x, w1) \<Longrightarrow> R w1 w2 \<Longrightarrow> R w w2"
  by (meson keeps_result law_trans)

lemma keeps_call:
  assumes "\<And>w. R w (f w)"
  shows "keeps R (call e f)"
proof -
  have "R w (note_seen (f (tick e w)))" for w
    by (rule law_trans[OF law_trans[OF calm_tick assms] calm_note])
  then show ?thesis
    unfolding keeps_def call_def Let_def by (auto split: answer.splits intro: calm_tick)
qed

lemma keeps_store_call:
  "(\<And>w s x. f (database w) = Inr (s, x) \<Longrightarrow> R w (w\<lparr>database := s\<rparr>)) \<Longrightarrow> keeps R (store_call e f)"
  unfolding keeps_def store_call_def Let_def
  by (auto split: answer.splits sum.splits intro: calm_tick law_trans[OF calm_tick])

lemma keeps_store_write: "(\<And>w. R w (w\<lparr>database := f (database w)\<rparr>)) \<Longrightarrow> keeps R (store_write e f)"
  unfolding store_write_def by (rule keeps_store_call) auto

lemma keeps_store_read: "keeps R (store_read e f)"
  unfolding store_read_def by (rule keeps_store_call) (auto split: sum.splits intro: law_refl)

lemma keeps_inspect: "keeps R (InspectContainer e i)"
  unfolding keeps_def InspectContainer_def by (auto split: observation.splits intro: calm_tick)

lemma keeps_list: "keeps R (ListContainers e)"
proof -
  have "keeps R (call e (\<lambda>w. w))"
    by (intro keeps_call law_refl)
  then show ?thesis
    unfolding keeps_def ListContainers_def andThen_def done_with_def
    by (auto split: prod.splits sum.splits) (metis snd_conv)+
qed

lemma keeps_ctx_err: "keeps R (ctx_err e)" "keeps R (pause e)"
  unfolding keeps_def ctx_err_def pause_def done_with_def fail_with_def by (auto intro: law_refl calm_tick)

lemma keeps_awaitDrains: "keeps R (awaitDrains e)"
  unfolding keeps_def awaitDrains_def Let_def done_with_def fail_with_def
  by (auto intro: law_refl calm_tick)

lemma keeps_stable: "keeps R (stable_rounds e k reps)"
proof -
  have one: "keeps R (each (still_running e) reps)" for reps
    unfolding still_running_def by (intro keeps_combinators keeps_inspect) (auto intro: keeps_combinators)
  show ?thesis
    by (induction k) (auto intro: keeps_andThen one keeps_ctx_err)
qed

lemma keeps_probe_round: "keeps R (probe_round e reps)"
proof (induction reps)
  case (Cons rep reps)
  have later: "keeps R (andThen (probe_round e reps) (\<lambda>rest. done_with (rep # rest)))"
    by (intro keeps_andThen keeps_done Cons.IH)
  have again: "keeps R (andThen (ctx_err e) (\<lambda>_. andThen (probe_round e reps) (\<lambda>rest. done_with (rep # rest))))"
    by (intro keeps_andThen keeps_ctx_err keeps_done Cons.IH)
  have "keeps R (\<lambda>w. if probe_answers e (calls w) c then probe_round e reps (tick e w)
     else andThen (ctx_err e) (\<lambda>_. andThen (probe_round e reps) (\<lambda>rest. done_with (rep # rest))) (tick e w))" for c
    unfolding keeps_def using law_trans[OF calm_tick keepsD[OF Cons.IH]] law_trans[OF calm_tick keepsD[OF again]] by auto
  then show ?case
    using later by (auto intro!: keeps_andThen keeps_inspect keeps_fail keeps_done Cons.IH)
qed (simp add: keeps_done)

lemma keeps_healthy: "keeps R (healthy_rounds e k reps)"
  by (induction k arbitrary: reps) (auto intro!: keeps_andThen keeps_probe_round keeps_done keeps_fail)

lemma keeps_awaitReady: "keeps R (awaitReady e a reps)"
proof -
  have "keeps R (awaitHealthy e reps)" "keeps R (awaitStable e reps)"
    using keepsD[OF keeps_healthy] keepsD[OF keeps_stable]
    by (auto simp: keeps_def awaitHealthy_def awaitStable_def)
  moreover have "keeps R (note_verified reps)"
    by (simp add: keeps_def note_verified_def done_with_def calm_verified)
  ultimately show ?thesis
    unfolding awaitReady_def by (auto intro: keeps_andThen keeps_done)
qed

lemma keeps_sync: "keeps R (SyncProxy e app)"
proof -
  have "R w (note_seen (give_names e n p app (tick e w)))" for w n p
    by (rule law_trans[OF law_trans[OF calm_tick calm_names] calm_note])
  then show ?thesis
    by (simp add: keeps_def SyncProxy_def Let_def)
qed

lemma keeps_transition:
  assumes "to \<notin> {StatusActive, StatusSuperseded}"
  shows "keeps R (transitionWithError e d to msg)"
  unfolding transitionWithError_def using assms
  by (auto intro!: keeps_andThen keeps_done keeps_fail keeps_store_call split: sum.splits intro: calm_transition)

lemma keeps_complete: "keeps R (store_write e (CompleteDeployment i now))"
  by (intro keeps_store_write calm_complete)

lemma keeps_writeEnd: "keeps R (writeEnd e u)"
proof -
  have tr: "keeps R (transitionWithError e d StatusFailed msg)" for d msg
    by (rule keeps_transition) simp
  have complete: "R w (snd (case store_write e (CompleteDeployment i now) w1 of
      (Inl er, w') \<Rightarrow> (f er, w') | (Inr _, w') \<Rightarrow> (g, w')))" if "R w w1" for w w1 i now f and g :: "err option \<times> unsettled"
    using law_trans[OF that] by (auto split: prod.splits sum.splits dest!: keeps_result[OF keeps_complete])
  have "R w (snd (writeEnd e u w))" for w
  proof (cases "IsSettled (d_status (u_deployment u))")
    case True
    then show ?thesis
      using complete[OF law_refl] by (simp add: writeEnd_def Let_def)
  next
    case False
    define msg where "msg = (if u_failure u = [] then ''the deployment ended, and the database could not be written at the time to say how'' else u_failure u)"
    obtain x w1 where t: "transitionWithError e (u_deployment u) StatusFailed msg w = (x, w1)" "R w w1"
      using keeps_result[OF tr] by (metis surj_pair)
    obtain y w2 where g: "store_read e (GetDeployment (d_id (u_deployment u))) w1 = (y, w2)" "R w w2"
      using keeps_result[OF keeps_store_read] law_trans[OF t(2)] by (metis surj_pair)
    show ?thesis
      using False t(1) g(1) complete[OF t(2)] complete[OF g(2)] t(2) g(2)
      unfolding writeEnd_def Let_def msg_def
      by (auto split: sum.splits err.splits store_error.splits)
  qed
  then show ?thesis by (simp add: keeps_def)
qed

lemma law_settle: "R w (settle e d failure w)"
  unfolding settle_def
  by (auto split: prod.splits option.splits dest!: keeps_result[OF keeps_writeEnd] intro: law_trans[OF _ calm_unsettled])

lemma keeps_retry_ends: "keeps R (retry_ends e us)"
proof (induction us)
  case (Cons u us)
  have "R w (snd (retry_ends e (u # us) w))" for w
    by (auto split: prod.splits dest!: keeps_result[OF keeps_writeEnd] keeps_result[OF Cons.IH]) (meson law_trans)+
  then show ?case by (simp add: keeps_def)
qed (simp add: keeps_def law_refl)

lemma law_retrySettling: "R w (retrySettling e w)"
  unfolding retrySettling_def
  by (auto split: prod.splits dest!: keeps_result[OF keeps_retry_ends] intro: law_trans[OF law_trans[OF calm_unsettled] calm_unsettled])

end

text \<open>
  Then all of them: a relation that every single effect keeps is kept by every function of the
  engine. \<open>ActivateDeployment\<close> is not among the effects: it is the commit of a rollout.
\<close>

locale engine_effects = preorder_law R for R :: "world \<Rightarrow> world \<Rightarrow> bool" +
  fixes e :: env
  assumes law_frame: "R w (w\<lparr>calls := n, verified := v, seen := s, override := o', drains := ds\<rparr>)"
    and law_containers: "R w (w\<lparr>containers := cs\<rparr>)"
    and law_removed: "R w (w\<lparr>database := MarkReplicaRemoved c (database w)\<rparr>)"
    and law_added: "R w (w\<lparr>database := AddReplica rep (database w)\<rparr>)"
    and law_transition: "\<lbrakk>CanTransition from to; to \<notin> {StatusActive, StatusSuperseded};
      TransitionDeployment i from to msg (database w) = Inr s1\<rbrakk> \<Longrightarrow> R w (w\<lparr>database := s1\<rparr>)"
    and law_complete: "R w (w\<lparr>database := CompleteDeployment i now (database w)\<rparr>)"
    and law_unsettled: "R w (w\<lparr>unsettled_ends := us\<rparr>)"
begin

lemma keeps_world_frame: "R w (w\<lparr>drains := ds\<rparr>)" "R w (w\<lparr>seen := s\<rparr>)" "R w (w\<lparr>calls := n\<rparr>)"
    "R w (w\<lparr>override := o'\<rparr>)" "R w (w\<lparr>verified := v\<rparr>)"
  using law_frame[where w = w and n = "calls w" and v = "verified w" and s = "seen w" and o' = "override w" and ds = ds]
    law_frame[where w = w and n = "calls w" and v = "verified w" and s = s and o' = "override w" and ds = "drains w"]
    law_frame[where w = w and n = n and v = "verified w" and s = "seen w" and o' = "override w" and ds = "drains w"]
    law_frame[where w = w and n = "calls w" and v = "verified w" and s = "seen w" and o' = o' and ds = "drains w"]
    law_frame[where w = w and n = "calls w" and v = v and s = "seen w" and o' = "override w" and ds = "drains w"]
  by simp_all

lemma law_end_drain: "R w (end_drain e n i w)"
  unfolding end_drain_def mark_removed_def remove_container_def Let_def
  using law_trans[OF keeps_world_frame(1) law_containers] law_trans[OF law_trans[OF keeps_world_frame(1) law_containers] law_removed]
  by (auto split: drain_end.splits intro: law_refl keeps_world_frame)

lemma law_tick: "R w (tick e w)"
proof -
  have drained: "R w (fold (end_drain e n) ds w)" for n ds
    by (induction ds arbitrary: w) (auto intro: law_refl law_trans[OF law_end_drain])
  show ?thesis
    unfolding tick_def note_seen_def
    by (rule law_trans[OF law_trans[OF drained keeps_world_frame(3)] keeps_world_frame(2)])
qed

lemma law_note: "R w (note_seen w)"
  unfolding note_seen_def by (rule keeps_world_frame)

end

sublocale engine_effects \<subseteq> world_effects
proof
  show "R w (give_names e n p app w)" for w n p app
    unfolding give_names_def by (rule law_containers)
qed (simp_all add: law_tick law_note keeps_world_frame law_removed law_added law_transition law_complete law_unsettled)

context engine_effects
begin

lemma keeps_docker: "keeps R (StartContainer e i)" "keeps R (StopContainer e i)" "keeps R (RemoveContainer e i)"
    "keeps R (startNameless e i)"
  unfolding StartContainer_def StopContainer_def RemoveContainer_def startNameless_def update_container_def remove_container_def
  by (intro keeps_call keeps_andThen law_containers)+

lemma keeps_create: "keeps R (CreateContainer e dep i)"
proof -
  have k: "keeps R (andThen (call e (\<lambda>w. w\<lparr>containers := f w\<rparr>)) (\<lambda>_. done_with c))" for f and c :: string
    by (intro keeps_andThen keeps_call keeps_done law_containers)
  show ?thesis
    using keepsD[OF k] by (simp add: keeps_def CreateContainer_def Let_def)
qed

lemma keeps_remove: "keeps R (removeContainer e i)" "keeps R (retireContainer e i)"
  unfolding removeContainer_def retireContainer_def
  by (intro keeps_andThen keeps_attempt keeps_docker keeps_store_write law_removed)+

lemma keeps_background: "keeps R (retireInBackground e i)"
  unfolding keeps_def retireInBackground_def by (auto intro: law_refl keeps_world_frame)

lemma keeps_retireOthers: "keeps R (retireOthers e dep)"
  unfolding keeps_def
proof
  fix w
  have k: "keeps R (each (\<lambda>c. andThen (attempt (retireContainer e (c_id c))) (\<lambda>_. done_with ())) cs)" for cs
    by (intro keeps_combinators keeps_remove)
  show "R w (snd (retireOthers e dep w))"
    unfolding retireOthers_def
    by (auto split: prod.splits sum.splits intro: keeps_result[OF keeps_list] keeps_chain[OF keeps_list] keepsD[OF k])
qed

lemma keeps_createReplicas: "keeps R (createReplicas e d is)"
proof (induction "is")
  case Nil
  then show ?case by (simp add: keeps_def law_refl)
next
  case (Cons i "is")
  have add: "keeps R (store_write e (AddReplica rep))" for rep
    by (intro keeps_store_write law_added)
  have "R w (snd (createReplicas e d (i # is) w))" for w
    using keepsD[OF keeps_remove(1)]
    by (auto simp: Let_def split: prod.splits sum.splits
        dest!: keeps_result[OF keeps_create] keeps_result[OF add] keeps_result[OF Cons]) (meson law_trans)+
  then show ?case
    by (simp add: keeps_def)
qed

lemma keeps_ensureReplicas: "keeps R (ensureReplicas e d is)"
  unfolding keeps_def
proof
  fix w
  have start: "keeps R (each (\<lambda>rep. StartContainer e (r_container rep)) reps)" for reps
    by (intro keeps_each keeps_docker)
  show "R w (snd (ensureReplicas e d is w))"
    unfolding ensureReplicas_def
    by (auto split: prod.splits sum.splits option.splits intro: keeps_result[OF keeps_createReplicas]
        keeps_chain[OF keeps_createReplicas] keeps_result[OF start])
qed

end

section \<open>Two things every effect keeps\<close>

text \<open>The tables change only in the ways of \<open>db_step\<close>; without a commit the applications stay as they are.\<close>

definition store_steps :: "world \<Rightarrow> world \<Rightarrow> bool" where
  "store_steps w w' \<longleftrightarrow> db_step\<^sup>*\<^sup>* (database w) (database w')"

definition same_applications :: "world \<Rightarrow> world \<Rightarrow> bool" where
  "same_applications w w' \<longleftrightarrow> applications (database w') = applications (database w)"

interpretation steps_law: engine_effects store_steps e for e
proof
  show "store_steps w (w\<lparr>database := s1\<rparr>)"
    if "CanTransition from to" "to \<notin> {StatusActive, StatusSuperseded}"
      "TransitionDeployment i from to msg (database w) = Inr s1" for "from" to i msg w s1
    using db_step.transit[OF that] by (simp add: store_steps_def)
qed (auto simp: store_steps_def intro: db_step.intros)

interpretation apps_law: engine_effects same_applications e for e
  by standard
    (auto simp: same_applications_def MarkReplicaRemoved_def AddReplica_def TransitionDeployment_def Let_def
      CompleteDeployment_def update_deployments_def split: if_splits)

end
