(* ===== verification/Rollout.thy ===== *)
theory Rollout
  imports Runtime
begin

text \<open>
  A rollout (\<^verbatim>\<open>src/agent/internal/deploy/rollout.go\<close>, \<^verbatim>\<open>resume.go\<close> for one that an agent finds in
  flight when it starts, \<^verbatim>\<open>static.go\<close> for one of a folder of files and \<^verbatim>\<open>standby.go\<close> for one that
  starts nothing): the state of the \<open>rollout\<close> struct with the world it acts on, one definition per
  method. Events, log lines, notifications and the pruning of images and of folders no deployment serves
  any more are left out; they change nothing a rollout reads.

  A nil slice and an empty one are both \<open>[]\<close>. Go maps from replica index to replica are lists with
  at most one replica per index. Where Go would dereference a nil \<open>prev\<close>, the model fails with
  \<open>NilDereference\<close>; that this never happens is a theorem.
\<close>

section \<open>The rollout\<close>

record rollout =
  ro_world :: world
  ro_d :: Deployment
  ro_prev :: "Deployment option"
  ro_old :: "Replica list"
  ro_fresh :: "Replica list"
  ro_serving :: "routeMember list"
  ro_retired :: bool
  ro_recreate :: bool
  ro_staticPart :: string
  ro_stopped :: "Replica list"
  ro_resumed :: bool
  ro_surveyed :: bool
  ro_adopted :: "Replica list"
  ro_in_service :: "nat list"
  ro_unverified :: "Replica list"
  ro_dormant :: bool
  ro_digest :: string
  ro_failure :: string

definition newRollout :: "Deployment \<Rightarrow> world \<Rightarrow> rollout" where
  "newRollout d w =
     \<lparr>ro_world = w, ro_d = d, ro_prev = None, ro_old = [], ro_fresh = [], ro_serving = [], ro_retired = False,
      ro_recreate = False, ro_staticPart = [], ro_stopped = [], ro_resumed = False, ro_surveyed = False, ro_adopted = [],
      ro_in_service = [], ro_unverified = [], ro_dormant = False, ro_digest = [], ro_failure = []\<rparr>"

text \<open>A step of the engine within a rollout.\<close>

definition on_world :: "(world, 'a) comp \<Rightarrow> (rollout, 'a) comp" where
  "on_world m r = (case m (ro_world r) of (x, w) \<Rightarrow> (x, r\<lparr>ro_world := w\<rparr>))"

text \<open>The same for a function of the engine that reports without failing.\<close>

definition engine_do :: "(world \<Rightarrow> 'a \<times> world) \<Rightarrow> (rollout, 'a) comp" where
  "engine_do f r = (case f (ro_world r) of (x, w) \<Rightarrow> (Inr x, r\<lparr>ro_world := w\<rparr>))"

definition update_world :: "(world \<Rightarrow> world) \<Rightarrow> (rollout, unit) comp" where
  "update_world f r = done_with () (r\<lparr>ro_world := f (ro_world r)\<rparr>)"

definition modify :: "(rollout \<Rightarrow> rollout) \<Rightarrow> (rollout, unit) comp" where
  "modify f r = done_with () (f r)"

text \<open>\<open>with_state\<close> reads the fields of the rollout at the point where it stands.\<close>

definition with_state :: "(rollout \<Rightarrow> (rollout, 'a) comp) \<Rightarrow> (rollout, 'a) comp" where
  "with_state f r = f r r"

definition at_index :: "nat \<Rightarrow> Replica list \<Rightarrow> Replica option" where
  "at_index i reps = find (\<lambda>r. r_index r = i) reps"

definition put_index :: "Replica \<Rightarrow> Replica list \<Rightarrow> Replica list" where
  "put_index rep reps = filter (\<lambda>r. r_index r \<noteq> r_index rep) reps @ [rep]"

definition del_index :: "nat \<Rightarrow> Replica list \<Rightarrow> Replica list" where
  "del_index i reps = filter (\<lambda>r. r_index r \<noteq> i) reps"

definition sortedReplicas :: "Replica list \<Rightarrow> Replica list" where
  "sortedReplicas reps = sort_key r_index reps"

definition desired :: "rollout \<Rightarrow> nat" where
  "desired r = (case ro_prev r of
     None \<Rightarrow> a_replicas (d_spec (ro_d r))
   | Some p \<Rightarrow> min (a_replicas (d_spec p)) (a_replicas (d_spec (ro_d r))))"

subsection \<open>Moving on\<close>

definition transit :: "env \<Rightarrow> DeploymentStatus \<Rightarrow> string \<Rightarrow> (rollout, unit) comp" where
  "transit e to errMsg =
     with_state (\<lambda>r. andThen (on_world (transitionWithError e (ro_d r) to errMsg))
       (\<lambda>d. modify (\<lambda>r. r\<lparr>ro_d := d\<rparr>)))"

definition reach :: "env \<Rightarrow> DeploymentStatus \<Rightarrow> (rollout, unit) comp" where
  "reach e to = with_state (\<lambda>r. if progress (d_status (ro_d r)) \<ge> progress to then done_with () else transit e to [])"

definition SyncRoutes :: "env \<Rightarrow> (rollout, unit) comp" where
  "SyncRoutes e = with_state (\<lambda>r. on_world (SyncProxy e (d_application (ro_d r))))"

text \<open>The override names the members; which hostnames go with them is not modelled here.\<close>

definition route_to :: "routeMember list \<Rightarrow> (rollout, unit) comp" where
  "route_to members = with_state (\<lambda>r. update_world (routeVia \<lparr>o_members = members, o_desired = desired r\<rparr>))"

subsection \<open>What is replaced\<close>

definition loadPrevious :: "env \<Rightarrow> (rollout, unit) comp" where
  "loadPrevious e = with_state (\<lambda>r.
     andThen (on_world (store_read e (GetApplication (d_application (ro_d r))))) (\<lambda>app.
     case app_active app of
       None \<Rightarrow> done_with ()
     | Some i \<Rightarrow>
         andThen (on_world (store_read e (GetDeployment i))) (\<lambda>prev.
         andThen (on_world (store_read e (\<lambda>s. Inr (ListReplicas (d_id prev) s)))) (\<lambda>replicas.
         andThen (modify (\<lambda>r. r\<lparr>ro_prev := Some prev,
             ro_old := fold put_index replicas (ro_old r),
             ro_serving := (if app_desired app = DesiredRunning
                            then ro_serving r @ map (\<lambda>rep. (rep, a_port (d_spec prev))) replicas else [])\<rparr>)) (\<lambda>_.
         with_state (\<lambda>r. route_to (ro_serving r)))))))"

definition batches :: "rollout \<Rightarrow> nat list list" where
  "batches r =
     (let n = a_replicas (d_spec (ro_d r));
          open' = filter (\<lambda>i. i \<notin> set (ro_in_service r)) [1..<n + 1];
          replacing = filter (\<lambda>i. at_index i (ro_old r) \<noteq> None) open';
          additional = filter (\<lambda>i. at_index i (ro_old r) = None) open'
      in if ro_recreate r then (if open' = [] then [] else [open'])
         else map (\<lambda>i. [i]) replacing @ (if additional = [] then [] else [additional]))"

subsection \<open>Bringing replicas up\<close>

fun adopt :: "env \<Rightarrow> Replica list \<Rightarrow> (rollout, unit) comp" where
  "adopt e [] = done_with ()"
| "adopt e (rep # reps) =
     andThen (on_world (InspectContainer e (r_container rep))) (\<lambda>(running, _).
     andThen (if running then done_with () else on_world (StartContainer e (r_container rep))) (\<lambda>_.
     adopt e reps))"

definition bring :: "env \<Rightarrow> nat list \<Rightarrow> (rollout, Replica list) comp" where
  "bring e indexes = with_state (\<lambda>r.
     let alive = List.map_filter (\<lambda>i. at_index i (ro_adopted r)) indexes;
         missing = filter (\<lambda>i. at_index i (ro_adopted r) = None) indexes
     in andThen (adopt e alive) (\<lambda>_.
        andThen (engine_do (ensureReplicas e (ro_d r) missing)) (\<lambda>(created, er).
        andThen (modify (\<lambda>r. r\<lparr>ro_fresh := ro_fresh r @ created\<rparr>)) (\<lambda>_.
        case er of Some x \<Rightarrow> fail_with x | None \<Rightarrow> done_with (sort_key r_index (alive @ created))))))"

subsection \<open>The switch\<close>

definition outgoing_for :: "Replica list \<Rightarrow> rollout \<Rightarrow> Replica list" where
  "outgoing_for ready r =
     (if ready = [] then sortedReplicas (ro_old r)
      else List.map_filter (\<lambda>rep. at_index (r_index rep) (ro_old r)) ready)"

definition serving_after :: "Replica list \<Rightarrow> rollout \<Rightarrow> routeMember list" where
  "serving_after ready r =
     (let leaving = map r_container (outgoing_for ready r)
      in filter (\<lambda>m. r_container (fst m) \<notin> set leaving) (ro_serving r)
         @ map (\<lambda>rep. (rep, a_port (d_spec (ro_d r)))) ready)"

text \<open>One outgoing replica goes: in the background, or at once where it has stopped already.\<close>

definition retire_old :: "env \<Rightarrow> Replica \<Rightarrow> (rollout, unit) comp" where
  "retire_old e rep = with_state (\<lambda>r.
     andThen (modify (\<lambda>r. r\<lparr>ro_old := del_index (r_index rep) (ro_old r)\<rparr>)) (\<lambda>_.
     if ro_recreate r then andThen (attempt (on_world (retireContainer e (r_container rep)))) (\<lambda>_. done_with ())
     else andThen (engine_do (retireInBackground e (r_container rep))) (\<lambda>_. done_with ())))"

definition swap :: "env \<Rightarrow> Replica list \<Rightarrow> (rollout, unit) comp" where
  "swap e ready = with_state (\<lambda>r.
     let outgoing = outgoing_for ready r
     in if ready = [] \<and> outgoing = [] then done_with ()
        else
          andThen (modify (\<lambda>r. r\<lparr>ro_serving := serving_after ready r\<rparr>)) (\<lambda>_.
          andThen (with_state (\<lambda>r. route_to (ro_serving r))) (\<lambda>_.
          andThen (SyncRoutes e) (\<lambda>_.
          andThen (if ready \<noteq> [] \<and> outgoing \<noteq> [] \<and> \<not> ro_recreate r then on_world (pause e) else done_with ()) (\<lambda>_.
          andThen (if outgoing = [] then done_with ()
                   else andThen (modify (\<lambda>r. r\<lparr>ro_retired := True\<rparr>)) (\<lambda>_.
                     if ro_prev r = None then fail_with NilDereference else each (retire_old e) outgoing)) (\<lambda>_.
          on_world (ctx_err e)))))))"

subsection \<open>Both versions at once are not possible\<close>

definition stop_one :: "env \<Rightarrow> Replica \<Rightarrow> (rollout, unit) comp" where
  "stop_one e rep =
     andThen (on_world (StopContainer e (r_container rep))) (\<lambda>_.
     modify (\<lambda>r. r\<lparr>ro_stopped := ro_stopped r @ [rep]\<rparr>))"

definition stopPrevious :: "env \<Rightarrow> (rollout, unit) comp" where
  "stopPrevious e =
     andThen (modify (\<lambda>r. r\<lparr>ro_recreate := True, ro_serving := []\<rparr>)) (\<lambda>_.
     andThen (route_to []) (\<lambda>_.
     andThen (SyncRoutes e) (\<lambda>_.
     with_state (\<lambda>r. each (stop_one e) (sortedReplicas (ro_old r))))))"

subsection \<open>Going ahead\<close>

definition adoptedInService :: "rollout \<Rightarrow> Replica list" where
  "adoptedInService r = sort_key r_index (List.map_filter (\<lambda>i. at_index i (ro_adopted r)) (ro_in_service r))"

text \<open>
  The pre-deploy command. \<open>runs\<close> are the recorded runs of the application's hooks, newest first, with
  the deployment each belongs to; the command itself is a call that may fail.
\<close>

definition runHookOnce :: "env \<Rightarrow> (int option \<times> RunStatus) list \<Rightarrow> (rollout, unit) comp" where
  "runHookOnce e runs = with_state (\<lambda>r.
     if \<not> ro_resumed r then on_world (call e (\<lambda>w. w))
     else andThen (on_world (call e (\<lambda>w. w))) (\<lambda>_.
       case find (\<lambda>(dep, _). dep = Some (d_id (ro_d r))) runs of
         None \<Rightarrow> on_world (call e (\<lambda>w. w))
       | Some (_, RunSucceeded) \<Rightarrow> done_with ()
       | Some (_, RunInterrupted) \<Rightarrow> fail_with (Refusal ''the pre-deploy command was interrupted'')
       | Some (_, RunRunning) \<Rightarrow> fail_with (Refusal ''the pre-deploy command was interrupted'')
       | Some (_, RunFailed) \<Rightarrow> fail_with (Refusal ''the pre-deploy command had failed'')
       | Some (_, RunTimedOut) \<Rightarrow> fail_with (Refusal ''the pre-deploy command had failed'')))"

text \<open>Pulling the image, and the check that it does not run as root, touch no container.\<close>

definition build :: "env \<Rightarrow> (int option \<times> RunStatus) list \<Rightarrow> (rollout, unit) comp" where
  "build e runs =
     andThen (on_world (call e (\<lambda>w. w))) (\<lambda>_.
     andThen (on_world (call e (\<lambda>w. w))) (\<lambda>_.
     with_state (\<lambda>r. if a_pre_deploy (d_spec (ro_d r)) \<noteq> None then runHookOnce e runs else done_with ())))"

definition make_room :: "env \<Rightarrow> (rollout, unit) comp" where
  "make_room e = with_state (\<lambda>r.
     if a_strategy (d_spec (ro_d r)) = StrategyRecreate \<and> ro_prev r \<noteq> None then
       (if ro_in_service r \<noteq> [] \<or> (ro_resumed r \<and> ro_old r = [] \<and> ro_retired r)
        then modify (\<lambda>r. r\<lparr>ro_recreate := True, ro_stopped := sortedReplicas (ro_old r)\<rparr>)
        else if ro_old r \<noteq> [] then stopPrevious e else done_with ())
     else done_with ())"

text \<open>One batch. Only the first one moves the status on; \<open>reach\<close> makes the others no-ops.\<close>

definition run_batch :: "env \<Rightarrow> bool \<times> nat list \<Rightarrow> (rollout, unit) comp" where
  "run_batch e = (\<lambda>(is_first, batch).
     andThen (on_world (awaitDrains e)) (\<lambda>_.
     andThen (bring e batch) (\<lambda>started.
     andThen (if is_first then reach e StatusHealthChecking else done_with ()) (\<lambda>_.
     andThen (with_state (\<lambda>r. on_world (awaitReady e (d_spec (ro_d r)) started))) (\<lambda>_.
     swap e started)))))"

definition mark_first :: "nat list list \<Rightarrow> (bool \<times> nat list) list" where
  "mark_first bs = zip (True # replicate (length bs - 1) False) bs"

definition replace_all :: "env \<Rightarrow> (rollout, unit) comp" where
  "replace_all e =
     andThen (make_room e) (\<lambda>_.
     andThen (with_state (\<lambda>r. if ro_in_service r \<noteq> [] then swap e (adoptedInService r) else done_with ())) (\<lambda>_.
     andThen (with_state (\<lambda>r. each (run_batch e) (mark_first (batches r)))) (\<lambda>_.
     swap e [])))"

definition activated :: "env \<Rightarrow> (rollout, unit) comp" where
  "activated e = with_state (\<lambda>r.
     andThen (on_world (store_call e (ActivateDeployment (d_id (ro_d r))))) (\<lambda>_.
     modify (\<lambda>r. r\<lparr>ro_d := (ro_d r)\<lparr>d_status := StatusActive\<rparr>\<rparr>)))"

definition commit :: "env \<Rightarrow> (rollout, unit) comp" where
  "commit e =
     andThen (reach e StatusHealthChecking) (\<lambda>_.
     andThen (reach e StatusHealthy) (\<lambda>_.
     with_state (\<lambda>r.
       if \<not> CanTransition (d_status (ro_d r)) StatusActive then fail_with (illegal (d_status (ro_d r)) StatusActive)
       else
         andThen (activated e) (\<lambda>_.
         andThen (update_world clearRouteOverride) (\<lambda>_.
         on_world (retireOthers e (d_id (ro_d r))))))))"

text \<open>The containers of an application: \<open>execute\<close> after its two early returns.\<close>

definition execute_containers :: "env \<Rightarrow> (int option \<times> RunStatus) list \<Rightarrow> (rollout, unit) comp" where
  "execute_containers e runs =
     andThen (reach e StatusBuilding) (\<lambda>_.
     andThen (with_state (\<lambda>r. if d_status (ro_d r) = StatusBuilding then build e runs else done_with ())) (\<lambda>_.
     andThen (reach e StatusStarting) (\<lambda>_.
     andThen (on_world (call e (\<lambda>w. w))) (\<lambda>_.
     andThen (with_state (\<lambda>r. if \<not> ro_surveyed r then loadPrevious e else done_with ())) (\<lambda>_.
     andThen (replace_all e) (\<lambda>_.
     commit e))))))"

subsection \<open>A folder of files\<close>

text \<open>
  The proxy's file system and the uploads on the disk are not modelled: what a look at them shows is the
  environment's, by the name of what is looked for. \<open>look\<close> is an \<open>Exec\<close> of \<^verbatim>\<open>test\<close> or a \<open>Stat\<close>: it
  fails, or says yes or no.
\<close>

definition look :: "env \<Rightarrow> string \<Rightarrow> (world, bool) comp" where
  "look e what = andThen (InspectContainer e what) (\<lambda>(yes, _). done_with yes)"

definition proxyExec :: "env \<Rightarrow> (world, unit) comp" where
  "proxyExec e = call e (\<lambda>w. w)"

text \<open>
  The digest of the folder is a column the model's table does not hold; a rollout carries it in \<open>ro_digest\<close>.
  The path of an upload is below the directory of uploads.
\<close>

definition uploadPath :: "string \<Rightarrow> string \<Rightarrow> string" where
  "uploadPath app digest = app @ ''/'' @ trim_prefix digest ''sha256:'' @ ''.tar''"

text \<open>The previous deployment where it can be read: only messages, and what an abort makes of it, depend on it.\<close>

definition notePrevious :: "env \<Rightarrow> int option \<Rightarrow> (rollout, unit) comp" where
  "notePrevious e active =
     (case active of
        None \<Rightarrow> done_with ()
      | Some i \<Rightarrow>
          andThen (attempt (andThen (on_world (store_read e (GetDeployment i))) (\<lambda>prev.
            modify (\<lambda>r. r\<lparr>ro_prev := Some prev\<rparr>)))) (\<lambda>_. done_with ()))"

definition checked_file :: "env \<Rightarrow> string \<Rightarrow> string \<Rightarrow> (rollout, unit) comp" where
  "checked_file e dir file =
     andThen (on_world (look e (dir @ ''/'' @ file))) (\<lambda>there.
     if there then done_with () else fail_with (Refusal (''the folder has no '' @ file)))"

definition extract_files :: "env \<Rightarrow> string \<Rightarrow> (rollout, unit) comp" where
  "extract_files e dir = with_state (\<lambda>r.
     andThen (on_world (proxyExec e)) (\<lambda>_.
     andThen (on_world (proxyExec e)) (\<lambda>_.
     andThen (modify (\<lambda>r. r\<lparr>ro_staticPart := dir @ ''.part''\<rparr>)) (\<lambda>_.
     andThen (on_world (look e (uploadPath (d_application (ro_d r)) (ro_digest r)))) (\<lambda>opened.
     if \<not> opened then fail_with (Refusal ''no upload'') else on_world (call e (\<lambda>w. w)))))))"

definition serveStatic :: "env \<Rightarrow> (rollout, unit) comp" where
  "serveStatic e = with_state (\<lambda>r0.
     let dir = staticDir (d_application (ro_d r0)) (ro_digest r0);
         fallback = (case a_static (d_spec (ro_d r0)) of None \<Rightarrow> [] | Some st \<Rightarrow> st_fallback st)
     in andThen (reach e StatusBuilding) (\<lambda>_.
        andThen (on_world (call e (\<lambda>w. w))) (\<lambda>_.
        andThen (on_world (look e dir)) (\<lambda>present.
        andThen (if present then done_with ()
                 else andThen (on_world (look e (uploadPath (d_application (ro_d r0)) (ro_digest r0)))) (\<lambda>uploaded.
                   if uploaded then done_with ()
                   else fail_with (Refusal (if d_kind (ro_d r0) = ''deploy'' then ''no upload''
                                            else ''the files are no longer on the server: deploy the folder again'')))) (\<lambda>_.
        andThen (attempt (andThen (on_world (store_read e (GetApplication (d_application (ro_d r0))))) (\<lambda>app. notePrevious e (app_active app)))) (\<lambda>_.
        andThen (reach e StatusStarting) (\<lambda>_.
        andThen (if present then done_with () else extract_files e dir) (\<lambda>_.
        andThen (reach e StatusHealthChecking) (\<lambda>_.
        with_state (\<lambda>r.
        let check = (if present then dir else ro_staticPart r)
        in andThen (checked_file e check ''index.html'') (\<lambda>_.
        andThen (if fallback \<noteq> [] \<and> fallback \<noteq> ''index.html'' then checked_file e check fallback else done_with ()) (\<lambda>_.
        andThen (if present then done_with ()
                 else andThen (on_world (proxyExec e)) (\<lambda>_. modify (\<lambda>r. r\<lparr>ro_staticPart := []\<rparr>))) (\<lambda>_.
        andThen (reach e StatusHealthy) (\<lambda>_.
        with_state (\<lambda>r.
          if \<not> CanTransition (d_status (ro_d r)) StatusActive then fail_with (illegal (d_status (ro_d r)) StatusActive)
          else
            andThen (update_world (routeVia \<lparr>o_members = [], o_desired = 0\<rparr>)) (\<lambda>_.
            andThen (SyncRoutes e) (\<lambda>_.
            andThen (activated e) (\<lambda>_.
            andThen (update_world clearRouteOverride) (\<lambda>_.
            on_world (retireOthers e (d_id (ro_d r))))))))))))))))))))))"

definition executeStatic :: "env \<Rightarrow> (rollout, unit) comp" where
  "executeStatic e =
     andThen (attempt (serveStatic e)) (\<lambda>er.
     case er of
       None \<Rightarrow> done_with ()
     | Some x \<Rightarrow>
         andThen (with_state (\<lambda>r.
           if ro_staticPart r = [] then done_with ()
           else andThen (attempt (andThen (on_world (call e (\<lambda>w. w))) (\<lambda>_. on_world (proxyExec e)))) (\<lambda>_. done_with ()))) (\<lambda>_.
         fail_with x))"

subsection \<open>A deployment that starts nothing\<close>

definition KindStandby :: string where
  "KindStandby = ''standby''"

definition set_stopped :: "env \<Rightarrow> int \<Rightarrow> (rollout, unit) comp" where
  "set_stopped e i =
     on_world (store_call e (\<lambda>s. case SetDesiredState i DesiredStopped s of Inl se \<Rightarrow> Inl se | Inr s' \<Rightarrow> Inr (s', ())))"

text \<open>The commit of a deployment says that the application is to run; this takes it back.\<close>

definition keepStopped :: "env \<Rightarrow> (rollout, unit) comp" where
  "keepStopped e = with_state (\<lambda>r.
     andThen (on_world (store_read e (GetApplication (d_application (ro_d r))))) (\<lambda>app.
     andThen (set_stopped e (app_id app)) (\<lambda>_.
     andThen (attempt (SyncRoutes e)) (\<lambda>_. done_with ()))))"

text \<open>\<open>retireAll\<close> of \<open>executeDormant\<close>: all of them are tried, and the first error is returned.\<close>

fun retireAll :: "env \<Rightarrow> string list \<Rightarrow> (world, err option) comp" where
  "retireAll e [] = done_with None"
| "retireAll e (i # is) =
     andThen (attempt (retireContainer e i)) (\<lambda>er.
     andThen (retireAll e is) (\<lambda>later. done_with (if er = None then later else er)))"

definition earlier_containers :: "rollout \<Rightarrow> container list \<Rightarrow> string list" where
  "earlier_containers r cs =
     map c_id (filter (\<lambda>c. \<not> c_job c \<and> c_id c \<notin> set (drains (ro_world r)) \<and> c_deployment c \<noteq> d_id (ro_d r)) cs)"

definition own_indexes :: "rollout \<Rightarrow> container list \<Rightarrow> nat list" where
  "own_indexes r cs =
     map c_replica (filter (\<lambda>c. \<not> c_job c \<and> c_id c \<notin> set (drains (ro_world r)) \<and> c_deployment c = d_id (ro_d r)) cs)"

definition create_stopped :: "env \<Rightarrow> (rollout, unit) comp" where
  "create_stopped e =
     andThen (on_world (ListContainers e)) (\<lambda>cs.
     with_state (\<lambda>r.
     let have' = own_indexes r cs
     in andThen (on_world (retireAll e (earlier_containers r cs))) (\<lambda>er.
        case er of Some x \<Rightarrow> fail_with x | None \<Rightarrow>
        andThen (on_world (awaitDrains e)) (\<lambda>_.
        andThen (engine_do (createReplicas e (ro_d r) (filter (\<lambda>i. i \<notin> set have') [1..<a_replicas (d_spec (ro_d r)) + 1]))) (\<lambda>(created, er').
        andThen (modify (\<lambda>r. r\<lparr>ro_fresh := ro_fresh r @ created\<rparr>)) (\<lambda>_.
        case er' of Some x \<Rightarrow> fail_with x | None \<Rightarrow> done_with ()))))))"

definition executeDormant :: "env \<Rightarrow> (rollout, unit) comp" where
  "executeDormant e = with_state (\<lambda>r0.
     if a_static (d_spec (ro_d r0)) \<noteq> None then andThen (executeStatic e) (\<lambda>_. keepStopped e)
     else
       andThen (reach e StatusBuilding) (\<lambda>_.
       andThen (with_state (\<lambda>r. if d_status (ro_d r) = StatusBuilding then on_world (call e (\<lambda>w. w)) else done_with ())) (\<lambda>_.
       andThen (reach e StatusStarting) (\<lambda>_.
       andThen (on_world (call e (\<lambda>w. w))) (\<lambda>_.
       andThen (on_world (store_read e (GetApplication (d_application (ro_d r0))))) (\<lambda>app.
       andThen (set_stopped e (app_id app)) (\<lambda>_.
       andThen (notePrevious e (app_active app)) (\<lambda>_.
       andThen (attempt (SyncRoutes e)) (\<lambda>_.
       andThen (create_stopped e) (\<lambda>_.
       andThen (reach e StatusHealthChecking) (\<lambda>_.
       andThen (reach e StatusHealthy) (\<lambda>_.
       andThen (activated e) (\<lambda>_.
       andThen (update_world clearRouteOverride) (\<lambda>_.
       andThen (keepStopped e) (\<lambda>_.
       on_world (retireOthers e (d_id (ro_d r0))))))))))))))))))"

definition starts_nothing :: "rollout \<Rightarrow> bool" where
  "starts_nothing r \<longleftrightarrow> ro_dormant r \<or> d_kind (ro_d r) = KindStandby"

definition execute :: "env \<Rightarrow> (int option \<times> RunStatus) list \<Rightarrow> (rollout, unit) comp" where
  "execute e runs = with_state (\<lambda>r.
     if starts_nothing r then executeDormant e
     else if a_static (d_spec (ro_d r)) \<noteq> None then executeStatic e
     else execute_containers e runs)"

subsection \<open>Giving up\<close>

definition removeAll :: "env \<Rightarrow> Replica list \<Rightarrow> (rollout, unit) comp" where
  "removeAll e = each (\<lambda>rep. andThen (attempt (on_world (removeContainer e (r_container rep)))) (\<lambda>_. done_with ()))"

definition discard :: "env \<Rightarrow> Replica list \<Rightarrow> (rollout, unit) comp" where
  "discard e replicas =
     andThen (update_world clearRouteOverride) (\<lambda>_.
     andThen (attempt (SyncRoutes e)) (\<lambda>_.
     removeAll e replicas))"

definition missing_of :: "rollout \<Rightarrow> Deployment \<Rightarrow> nat list" where
  "missing_of r p = filter (\<lambda>i. at_index i (ro_old r) = None) [1..<a_replicas (d_spec p) + 1]"

fun start_kept :: "env \<Rightarrow> Replica list \<Rightarrow> Replica list \<Rightarrow> world \<Rightarrow> (Replica list \<times> err option) \<times> world" where
  "start_kept e old [] w = (([], None), w)"
| "start_kept e old (rep # reps) w =
     (if at_index (r_index rep) old = None then start_kept e old reps w
      else case startNameless e (r_container rep) w of
             (Inl er, w1) \<Rightarrow> (([], Some er), w1)
           | (Inr _, w1) \<Rightarrow> (case start_kept e old reps w1 of ((restored, er), w2) \<Rightarrow> ((rep # restored, er), w2)))"

text \<open>What both rollbacks end with: verified, or the rollback failed too.\<close>

definition finish_rollback ::
    "env \<Rightarrow> err \<Rightarrow> App \<Rightarrow> Replica list \<Rightarrow> Replica list \<Rightarrow> Replica list \<Rightarrow> err option \<Rightarrow> (rollout, unit) comp" where
  "finish_rollback e cause a verify drop_on_error discarded er =
     andThen (attempt (case er of Some x \<Rightarrow> fail_with x | None \<Rightarrow> on_world (awaitReady e a verify))) (\<lambda>outcome.
     case outcome of
       Some x \<Rightarrow>
         andThen (attempt (transit e StatusFailed (err_text cause @ ''; the rollback then failed too: '' @ err_text x))) (\<lambda>_.
         andThen (removeAll e drop_on_error) (\<lambda>_.
         discard e discarded))
     | None \<Rightarrow>
         andThen (discard e discarded) (\<lambda>_.
         andThen (attempt (transit e StatusRolledBack [])) (\<lambda>_. done_with ())))"

definition rollBackRecreate :: "env \<Rightarrow> err \<Rightarrow> (rollout, unit) comp" where
  "rollBackRecreate e cause = with_state (\<lambda>r.
     case ro_prev r of
       None \<Rightarrow> fail_with NilDereference
     | Some prev \<Rightarrow>
         andThen (attempt (reach e StatusRollback)) (\<lambda>er.
         if er \<noteq> None then with_state (\<lambda>r. discard e (ro_fresh r))
         else
           andThen (modify (\<lambda>r. r\<lparr>ro_serving := []\<rparr>)) (\<lambda>_.
           andThen (route_to []) (\<lambda>_.
           andThen (attempt (SyncRoutes e)) (\<lambda>_.
           andThen (with_state (\<lambda>r. each (\<lambda>rep. andThen (attempt (on_world (retireContainer e (r_container rep)))) (\<lambda>_. done_with ()))
                                     (ro_fresh r))) (\<lambda>_.
           andThen (modify (\<lambda>r. r\<lparr>ro_fresh := []\<rparr>)) (\<lambda>_.
           andThen (attempt (reach e StatusRestoring)) (\<lambda>_.
           with_state (\<lambda>r.
           andThen (engine_do (start_kept e (ro_old r) (ro_stopped r))) (\<lambda>(kept, er).
           andThen (if er = None \<and> ro_retired r then engine_do (ensureReplicas e prev (missing_of r prev))
                    else done_with ([], er)) (\<lambda>(created, er').
           finish_rollback e cause (d_spec prev) (kept @ created) [] [] er')))))))))))"

definition rollBack :: "env \<Rightarrow> err \<Rightarrow> (rollout, unit) comp" where
  "rollBack e cause = with_state (\<lambda>r.
     case ro_prev r of
       None \<Rightarrow> fail_with NilDereference
     | Some prev \<Rightarrow>
         andThen (attempt (reach e StatusRollback)) (\<lambda>er.
         if er \<noteq> None then with_state (\<lambda>r. discard e (ro_fresh r))
         else
           andThen (attempt (on_world (awaitDrains e))) (\<lambda>_.
           with_state (\<lambda>r.
             let in_rotation = (\<lambda>rep. r_container rep \<in> (\<lambda>m. r_container (fst m)) ` set (ro_serving r));
                 stillServing = filter in_rotation (ro_fresh r);
                 failed = filter (\<lambda>rep. \<not> in_rotation rep) (ro_fresh r)
             in andThen (removeAll e failed) (\<lambda>_.
                andThen (attempt (reach e StatusRestoring)) (\<lambda>_.
                with_state (\<lambda>r.
                andThen (engine_do (ensureReplicas e prev (missing_of r prev))) (\<lambda>(restored, er).
                finish_rollback e cause (d_spec prev) (ro_unverified r @ restored) restored stillServing er))))))))"

definition abort :: "env \<Rightarrow> err \<Rightarrow> (rollout, unit) comp" where
  "abort e cause =
     andThen (modify (\<lambda>r. r\<lparr>ro_failure := err_text cause\<rparr>)) (\<lambda>_.
     andThen (attempt (transit e StatusFailed (err_text cause))) (\<lambda>_.
     with_state (\<lambda>r.
       if shutting_down e (calls (ro_world r)) \<or> ro_prev r = None \<or> (\<not> ro_retired r \<and> \<not> ro_recreate r)
       then discard e (ro_fresh r)
       else if ro_recreate r then rollBackRecreate e cause
       else rollBack e cause)))"

subsection \<open>Taking up again\<close>

definition gone :: "env \<Rightarrow> Replica \<Rightarrow> (rollout, unit) comp" where
  "gone e rep = on_world (store_write e (MarkReplicaRemoved (r_container rep)))"

text \<open>The previous version: what Docker no longer has was retired.\<close>

definition survey_old :: "env \<Rightarrow> string list \<Rightarrow> (rollout, unit) comp" where
  "survey_old e exist =
     andThen (with_state (\<lambda>r. each (\<lambda>rep. andThen (gone e rep) (\<lambda>_. modify (\<lambda>r. r\<lparr>ro_old := del_index (r_index rep) (ro_old r)\<rparr>)))
                 (filter (\<lambda>rep. r_container rep \<notin> set exist) (ro_old r)))) (\<lambda>_.
     modify (\<lambda>r. r\<lparr>ro_serving := filter (\<lambda>m. r_container (fst m) \<in> set exist) (ro_serving r),
       ro_retired := (ro_retired r \<or> (\<exists>p. ro_prev r = Some p \<and> missing_of r p \<noteq> []))\<rparr>))"

text \<open>A replica of the deployment that runs and carries names was in rotation.\<close>

definition survey_own :: "env \<Rightarrow> container list \<Rightarrow> Replica \<Rightarrow> (rollout, unit) comp" where
  "survey_own e cs rep =
     (if r_container rep \<notin> c_id ` set cs then gone e rep
      else andThen (on_world (InspectContainer e (r_container rep))) (\<lambda>(running, _).
        modify (\<lambda>r. r\<lparr>ro_adopted := put_index rep (ro_adopted r),
          ro_in_service := (if running \<and> (\<exists>c \<in> set cs. c_id c = r_container rep \<and> c_named c)
                            then List.insert (r_index rep) (ro_in_service r) else ro_in_service r)\<rparr>)))"

definition survey :: "env \<Rightarrow> (rollout, unit) comp" where
  "survey e =
     andThen (on_world (ListContainers e)) (\<lambda>cs.
     andThen (survey_old e (map c_id cs)) (\<lambda>_.
     with_state (\<lambda>r.
     andThen (on_world (store_read e (\<lambda>s. Inr (ListReplicas (d_id (ro_d r)) s)))) (\<lambda>recorded.
     andThen (modify (\<lambda>r. r\<lparr>ro_adopted := [], ro_in_service := []\<rparr>)) (\<lambda>_.
     andThen (each (survey_own e cs) recorded) (\<lambda>_.
     andThen (modify (\<lambda>r. r\<lparr>ro_fresh := sortedReplicas (ro_adopted r)\<rparr>)) (\<lambda>_.
     with_state (\<lambda>r.
     andThen (each (\<lambda>c. on_world (RemoveContainer e (c_id c)))
        (filter (\<lambda>c. \<not> c_job c \<and> c_deployment c = d_id (ro_d r) \<and>
                     (\<forall>rep \<in> set (ro_adopted r). \<not> (r_index rep = c_replica c \<and> r_container rep = c_id c))) cs)) (\<lambda>_.
     modify (\<lambda>r. r\<lparr>ro_surveyed := True\<rparr>))))))))))"

definition rolling_back :: "DeploymentStatus \<Rightarrow> bool" where
  "rolling_back st \<longleftrightarrow> st = StatusRollback \<or> st = StatusRestoring"

definition prepare :: "env \<Rightarrow> (rollout, unit) comp" where
  "prepare e = with_state (\<lambda>r.
     if a_static (d_spec (ro_d r)) \<noteq> None \<or> progress (d_status (ro_d r)) < progress StatusStarting then done_with ()
     else
       andThen (loadPrevious e) (\<lambda>_.
       andThen (survey e) (\<lambda>_.
       with_state (\<lambda>r.
         if rolling_back (d_status (ro_d r)) \<and> ro_prev r = None
         then fail_with (Refusal ''it was rolling back to a version that is no longer the active one'')
         else
           let members = ro_serving r @ map (\<lambda>rep. (rep, a_port (d_spec (ro_d r)))) (adoptedInService r)
           in andThen (if rolling_back (d_status (ro_d r)) then modify (\<lambda>r. r\<lparr>ro_serving := members\<rparr>) else done_with ()) (\<lambda>_.
              route_to members)))))"

fun revive :: "env \<Rightarrow> Replica list \<Rightarrow> (rollout, unit) comp" where
  "revive e [] = done_with ()"
| "revive e (rep # reps) =
     andThen (attempt (
       andThen (on_world (InspectContainer e (r_container rep))) (\<lambda>(running, _).
       andThen (if running then done_with () else on_world (startNameless e (r_container rep))) (\<lambda>_.
       modify (\<lambda>r. r\<lparr>ro_unverified := ro_unverified r @ [rep]\<rparr>))))) (\<lambda>_.
     revive e reps)"

definition resumeRollback :: "env \<Rightarrow> (rollout, unit) comp" where
  "resumeRollback e = with_state (\<lambda>r.
     let cause = Refusal (d_error (ro_d r))
     in if a_strategy (d_spec (ro_d r)) = StrategyRecreate
        then andThen (modify (\<lambda>r. r\<lparr>ro_recreate := True, ro_stopped := sortedReplicas (ro_old r)\<rparr>)) (\<lambda>_.
             rollBackRecreate e cause)
        else andThen (revive e (sortedReplicas (ro_old r))) (\<lambda>_. rollBack e cause))"

definition resumable :: "Deployment \<Rightarrow> nat \<Rightarrow> bool" where
  "resumable d inFlight \<longleftrightarrow> \<not> inFlight > 1 \<and> d_completed d = None"

subsection \<open>From the start to the end\<close>

text \<open>Whether the agent shut down under the deployment, and the rollout as it was left.\<close>

definition run :: "env \<Rightarrow> (int option \<times> RunStatus) list \<Rightarrow> rollout \<Rightarrow> bool \<times> rollout" where
  "run e runs r =
     (if ro_resumed r \<and> rolling_back (d_status (ro_d r)) then (False, snd (resumeRollback e r))
      else case execute e runs r of
             (Inr _, r1) \<Rightarrow> (False, r1)
           | (Inl er, r1) \<Rightarrow>
               if shutting_down e (calls (ro_world r1)) then (True, r1)
               else if cancelled e (calls (ro_world r1))
               then (False, snd (abort e (Refusal ''deployment timed out'') r1))
               else (False, snd (abort e er r1)))"

text \<open>\<open>launch\<close>: an interrupted deployment is left as it is, any other is settled.\<close>

definition launch :: "env \<Rightarrow> (int option \<times> RunStatus) list \<Rightarrow> rollout \<Rightarrow> world" where
  "launch e runs r =
     (case run e runs r of
        (True, r1) \<Rightarrow> ro_world r1
      | (False, r1) \<Rightarrow> settle e (ro_d r1) (ro_failure r1) (ro_world r1))"

text \<open>Both in the order of evaluation.\<close>

fun after_execute :: "env \<Rightarrow> (err + unit) \<times> rollout \<Rightarrow> bool \<times> rollout" where
  "after_execute e (Inr u, r1) = (False, r1)"
| "after_execute e (Inl er, r1) = (if shutting_down e (calls (ro_world r1)) then (True, r1)
               else if cancelled e (calls (ro_world r1))
               then (False, snd (abort e (Refusal ''deployment timed out'') r1))
               else (False, snd (abort e er r1)))"

lemma run_code [code]: "run e runs r =
     (if ro_resumed r \<and> rolling_back (d_status (ro_d r)) then (False, snd (resumeRollback e r))
      else after_execute e (execute e runs r))"
  by (cases "execute e runs r"; cases "fst (execute e runs r)") (auto simp: run_def)

fun after_run :: "env \<Rightarrow> bool \<times> rollout \<Rightarrow> world" where
        "after_run e (True, r1) = ro_world r1"
      | "after_run e (False, r1) = settle e (ro_d r1) (ro_failure r1) (ro_world r1)"

lemma launch_code [code]: "launch e runs r = after_run e (run e runs r)"
  by (cases "run e runs r"; cases "fst (run e runs r)") (auto simp: launch_def)

section \<open>What every step of a rollout keeps\<close>

text \<open>A relation of the world, and that a deployment that is ACTIVE stays it as long as it is carried out.\<close>

definition lifted :: "(world \<Rightarrow> world \<Rightarrow> bool) \<Rightarrow> rollout \<Rightarrow> rollout \<Rightarrow> bool" where
  "lifted R r r' \<longleftrightarrow> R (ro_world r) (ro_world r') \<and> (d_status (ro_d r) = StatusActive \<longrightarrow> d_status (ro_d r') = StatusActive)"

lemma keeps_with_state: "(\<And>r. keeps R (f r)) \<Longrightarrow> keeps R (with_state f)"
  by (simp add: keeps_def with_state_def)

sublocale world_effects \<subseteq> on_rollout: preorder_law "lifted R"
  by unfold_locales (auto simp: lifted_def intro: law_refl law_trans)

context world_effects
begin

lemma keeps_on_world: "keeps R m \<Longrightarrow> keeps (lifted R) (on_world m)"
  by (auto simp: keeps_def lifted_def on_world_def split: prod.splits) (metis snd_conv)+

lemma keeps_update_world: "(\<And>w. R w (f w)) \<Longrightarrow> keeps (lifted R) (update_world f)"
  by (simp add: keeps_def lifted_def update_world_def done_with_def)

lemma keeps_modify:
  "\<lbrakk>\<And>r. ro_world (f r) = ro_world r; \<And>r. ro_d (f r) = ro_d r\<rbrakk> \<Longrightarrow> keeps (lifted R) (modify f)"
  by (simp add: keeps_def lifted_def modify_def done_with_def law_refl)

lemmas keeps_calm = keeps_with_state keeps_on_world keeps_modify on_rollout.keeps_combinators
  keeps_inspect keeps_ctx_err keeps_sync keeps_store_read keeps_list keeps_awaitDrains keeps_awaitReady

lemma keeps_engine_do: "keeps R f \<Longrightarrow> keeps (lifted R) (engine_do f)"
  by (auto simp: keeps_def lifted_def engine_do_def split: prod.splits) (metis snd_conv)+

lemma keeps_plain_call: "keeps R (call e (\<lambda>w. w))"
  by (intro keeps_call law_refl)

lemma keeps_mark: "keeps R (store_write e (MarkReplicaRemoved c))"
  by (intro keeps_store_write calm_removed)

lemma keeps_SyncRoutes: "keeps (lifted R) (SyncRoutes e)"
  unfolding SyncRoutes_def by (intro keeps_calm)

lemma keeps_transit:
  assumes "to \<notin> {StatusActive, StatusSuperseded}"
  shows "keeps (lifted R) (transit e to msg)"
proof -
  have "lifted R r (snd (transit e to msg r))" for r
    using keepsD[OF keeps_transition[OF assms], of "ro_world r" "ro_d r" msg] assms
    by (auto simp: lifted_def transit_def with_state_def andThen_def on_world_def modify_def done_with_def fail_with_def
        transitionWithError_def CanTransition_from_active split: prod.splits sum.splits)
  then show ?thesis
    by (simp add: keeps_def)
qed

lemma keeps_reach: "to \<notin> {StatusActive, StatusSuperseded} \<Longrightarrow> keeps (lifted R) (reach e to)"
  unfolding reach_def by (auto intro!: keeps_with_state keeps_transit on_rollout.keeps_done)

lemma keeps_build: "keeps (lifted R) (build e runs)"
  unfolding build_def runHookOnce_def
  by (auto intro!: keeps_calm keeps_plain_call split: option.splits RunStatus.splits)

end

context engine_effects
begin

lemmas keeps_rollout = keeps_calm keeps_docker keeps_remove keeps_background

lemma keeps_route_to: "keeps (lifted R) (route_to ms)"
  unfolding route_to_def routeVia_def by (intro keeps_with_state keeps_update_world keeps_world_frame)

lemma keeps_clear: "keeps (lifted R) (update_world clearRouteOverride)"
  unfolding clearRouteOverride_def by (intro keeps_update_world keeps_world_frame)

lemma keeps_loadPrevious: "keeps (lifted R) (loadPrevious e)"
  unfolding loadPrevious_def
  by (intro keeps_rollout) (auto split: option.splits intro!: keeps_rollout keeps_route_to)

lemma keeps_adopt: "keeps (lifted R) (adopt e reps)"
  by (induction reps) (auto intro!: keeps_rollout)

lemma keeps_bring: "keeps (lifted R) (bring e is)"
  unfolding bring_def Let_def
  by (intro keeps_rollout keeps_adopt keeps_engine_do keeps_ensureReplicas)
    (auto split: option.splits intro!: keeps_rollout)

lemma keeps_retire_old: "keeps (lifted R) (retire_old e rep)"
  unfolding retire_old_def by (auto intro!: keeps_rollout keeps_engine_do)

lemma keeps_swap: "keeps (lifted R) (swap e ready)"
  unfolding swap_def Let_def
  by (auto intro!: keeps_rollout keeps_route_to keeps_SyncRoutes keeps_retire_old)

lemma keeps_stopPrevious: "keeps (lifted R) (stopPrevious e)"
  unfolding stopPrevious_def stop_one_def by (intro keeps_rollout keeps_route_to keeps_SyncRoutes) auto

lemma keeps_make_room: "keeps (lifted R) (make_room e)"
  unfolding make_room_def by (auto intro!: keeps_rollout keeps_stopPrevious)

lemma keeps_run_batch: "keeps (lifted R) (run_batch e b)"
  unfolding run_batch_def
  by (auto intro!: keeps_rollout keeps_bring keeps_reach keeps_swap split: prod.splits)

lemma keeps_replace_all: "keeps (lifted R) (replace_all e)"
  unfolding replace_all_def by (auto intro!: keeps_rollout keeps_make_room keeps_swap keeps_run_batch)

lemma keeps_removeAll: "keeps (lifted R) (removeAll e reps)"
  unfolding removeAll_def by (intro keeps_rollout)

lemma keeps_discard: "keeps (lifted R) (discard e reps)"
  unfolding discard_def by (intro keeps_rollout keeps_clear keeps_SyncRoutes keeps_removeAll)

lemma keeps_start_kept: "keeps R (start_kept e old reps)"
proof (induction reps)
  case (Cons rep reps)
  have "R w (snd (start_kept e old (rep # reps) w))" for w
    by (auto split: prod.splits sum.splits dest!: keeps_result[OF keeps_docker(4)] keeps_result[OF Cons.IH]
        intro: keepsD[OF Cons.IH] law_trans)
  then show ?case by (simp add: keeps_def)
qed (simp add: keeps_def law_refl)

lemma keeps_finish: "keeps (lifted R) (finish_rollback e cause a v dr di er)"
  unfolding finish_rollback_def
  by (auto split: option.splits intro!: keeps_rollout keeps_transit keeps_removeAll keeps_discard)

lemmas keeps_rolling_back = keeps_rollout keeps_reach keeps_discard keeps_route_to keeps_SyncRoutes keeps_removeAll
  keeps_engine_do keeps_start_kept keeps_ensureReplicas keeps_finish

lemma keeps_rollBackRecreate: "keeps (lifted R) (rollBackRecreate e cause)"
  unfolding rollBackRecreate_def
  by (intro keeps_with_state) (auto split: option.splits prod.splits intro!: keeps_rolling_back)

lemma keeps_rollBack: "keeps (lifted R) (rollBack e cause)"
  unfolding rollBack_def Let_def
  by (intro keeps_with_state) (auto split: option.splits prod.splits intro!: keeps_rolling_back)

lemma keeps_abort: "keeps (lifted R) (abort e cause)"
  unfolding abort_def by (auto intro!: keeps_rolling_back keeps_transit keeps_rollBackRecreate keeps_rollBack)

lemma keeps_revive: "keeps (lifted R) (revive e reps)"
  by (induction reps) (auto intro!: keeps_rollout)

lemma keeps_resumeRollback: "keeps (lifted R) (resumeRollback e)"
  unfolding resumeRollback_def Let_def
  by (auto intro!: keeps_rollout keeps_rollBackRecreate keeps_rollBack keeps_revive)

lemma keeps_survey: "keeps (lifted R) (survey e)"
  unfolding survey_def survey_old_def survey_own_def gone_def
  by (auto intro!: keeps_rollout keeps_mark)

lemma keeps_prepare: "keeps (lifted R) (prepare e)"
  unfolding prepare_def Let_def by (auto intro!: keeps_rollout keeps_loadPrevious keeps_survey keeps_route_to)

end

section \<open>Carrying a deployment out\<close>

text \<open>
  \<open>P\<close> is what is shown of a rollout from its start to its end: everything but the commit keeps it because
  it keeps \<open>R\<close> of the world, and the commit keeps it too.
\<close>

locale carrying_out = engine_effects R e + outcome: preorder_law P
  for R :: "world \<Rightarrow> world \<Rightarrow> bool" and e :: env and P :: "rollout \<Rightarrow> rollout \<Rightarrow> bool" +
  assumes outcome_lifted: "lifted R r r' \<Longrightarrow> P r r'"
    and outcome_commit: "keeps P (activated e)"
begin

lemma carry: "keeps (lifted R) m \<Longrightarrow> keeps P m"
  using outcome_lifted by (auto simp: keeps_def)

lemma keeps_look: "keeps R (look e what)"
  unfolding look_def by (auto intro!: keeps_combinators keeps_inspect)

lemma keeps_proxyExec: "keeps R (proxyExec e)"
  unfolding proxyExec_def by (rule keeps_plain_call)

lemmas keeps_files = keeps_rollout keeps_look keeps_proxyExec keeps_plain_call

lemma keeps_notePrevious: "keeps (lifted R) (notePrevious e active)"
  unfolding notePrevious_def by (cases active) (auto intro!: keeps_rollout)

lemma keeps_checked_file: "keeps (lifted R) (checked_file e dir file)"
  unfolding checked_file_def by (auto intro!: keeps_files)

lemma keeps_extract_files: "keeps (lifted R) (extract_files e dir)"
  unfolding extract_files_def by (auto intro!: keeps_files)

lemmas carry_steps = keeps_with_state outcome.keeps_combinators outcome_commit
  carry[OF keeps_reach] carry[OF keeps_clear] carry[OF keeps_on_world] carry[OF keeps_SyncRoutes]
  carry[OF keeps_notePrevious] carry[OF keeps_checked_file] carry[OF keeps_extract_files]
  carry[OF keeps_modify] keeps_retireOthers keeps_look keeps_proxyExec keeps_plain_call keeps_store_read

lemma carry_commit: "keeps P (commit e)"
  unfolding commit_def by (auto intro!: carry_steps)

lemma carry_containers: "keeps P (execute_containers e runs)"
  unfolding execute_containers_def
  by (auto intro!: carry_steps carry[OF keeps_build] carry[OF keeps_loadPrevious] carry[OF keeps_replace_all] carry_commit)

lemma carry_serveStatic: "keeps P (serveStatic e)"
proof -
  have route: "keeps P (update_world (routeVia o'))" for o'
    unfolding routeVia_def by (intro carry keeps_update_world keeps_world_frame)
  show ?thesis
    unfolding serveStatic_def Let_def by (auto intro!: carry_steps route)
qed

lemma carry_executeStatic: "keeps P (executeStatic e)"
  unfolding executeStatic_def by (auto intro!: carry_steps carry_serveStatic split: option.splits)

lemma carry_running: "\<not> starts_nothing r \<Longrightarrow> P r (snd (execute e runs r))"
  using keepsD[OF carry_executeStatic] keepsD[OF carry_containers] by (simp add: execute_def with_state_def)

lemma carry_run:
  assumes "P r (snd (execute e runs r))"
  shows "P r (snd (run e runs r))"
proof -
  have "P r r'" if "execute e runs r = (x, r1)" "r' = snd (abort e er r1)" for x r1 er r'
    using outcome.law_trans[OF assms] keepsD[OF carry[OF keeps_abort], of r1 er] that by simp
  then show ?thesis
    using assms keepsD[OF carry[OF keeps_resumeRollback], of r]
    unfolding run_def by (auto split: prod.splits sum.splits)
qed

end

text \<open>A deployment that starts nothing also records the application as stopped.\<close>

locale carrying_out_stopped = carrying_out R e P
  for R :: "world \<Rightarrow> world \<Rightarrow> bool" and e :: env and P :: "rollout \<Rightarrow> rollout \<Rightarrow> bool" +
  assumes law_stopped: "SetDesiredState i DesiredStopped (database w) = Inr s1 \<Longrightarrow> R w (w\<lparr>database := s1\<rparr>)"
begin

lemma keeps_set_stopped: "keeps (lifted R) (set_stopped e i)"
  unfolding set_stopped_def by (intro keeps_on_world keeps_store_call) (auto split: sum.splits intro: law_stopped)

lemma keeps_keepStopped: "keeps (lifted R) (keepStopped e)"
  unfolding keepStopped_def by (intro keeps_rollout keeps_set_stopped keeps_SyncRoutes)

lemma keeps_retireAll: "keeps R (retireAll e is)"
  by (induction "is") (auto intro!: keeps_combinators keeps_remove)

lemma keeps_create_stopped: "keeps (lifted R) (create_stopped e)"
  unfolding create_stopped_def Let_def
  by (auto intro!: keeps_rollout keeps_retireAll keeps_engine_do keeps_createReplicas split: option.splits)

lemma carry_executeDormant: "keeps P (executeDormant e)"
  unfolding executeDormant_def
  by (auto intro!: carry_steps carry_executeStatic carry[OF keeps_keepStopped] carry[OF keeps_set_stopped]
      carry[OF keeps_create_stopped])

lemma carry_execute: "P r (snd (execute e runs r))"
  using keepsD[OF carry_executeDormant] carry_running by (cases "starts_nothing r") (simp_all add: execute_def with_state_def)

end

section \<open>A rollout and the store\<close>

interpretation steps_out: carrying_out_stopped store_steps e "lifted store_steps" for e
proof
  have "keeps store_steps (store_call e (ActivateDeployment i))" for i
    by (rule steps_law.keeps_store_call) (auto simp: store_steps_def intro: db_step.activate)
  then have "lifted store_steps r (snd (activated e r))" for r
    using keepsD[of store_steps "store_call e (ActivateDeployment (d_id (ro_d r)))" "ro_world r"]
    by (auto simp: activated_def with_state_def andThen_def on_world_def modify_def done_with_def lifted_def split: prod.splits sum.splits)
  then show "keeps (lifted store_steps) (activated e)"
    by (simp add: keeps_def)
qed (auto simp: store_steps_def lifted_def intro: db_step.desire rtranclp_trans)

text \<open>
  C1: Whatever Docker, the proxy and the disk answer, a deployment from its launch to its recorded end
  changes the tables only in the ways of the store's machine: every status it writes is one the state
  machine allows, and ACTIVE is written by the commit alone. This holds for an application of containers,
  for a folder of files and for a deployment that starts nothing.
\<close>

theorem launch_refines_store: "db_step\<^sup>*\<^sup>* (database (ro_world r)) (database (launch e runs r))"
proof -
  have "db_step\<^sup>*\<^sup>* (database (ro_world r)) (database (ro_world (snd (run e runs r))))"
    using steps_out.carry_run[OF steps_out.carry_execute] by (simp add: lifted_def store_steps_def)
  then show ?thesis
    using steps_law.law_settle
    unfolding launch_def store_steps_def by (auto split: prod.splits bool.splits) (meson rtranclp_trans)
qed

subsection \<open>What a failed deployment leaves active\<close>











section \<open>A server to try it on\<close>

text \<open>An environment in which everything works, and one in which the calls \<open>P\<close> names are refused.\<close>

definition kind_env :: env where
  "kind_env = \<lparr>answer_of = (\<lambda>_. Done), new_id = (\<lambda>n. replicate n CHR ''c''), drain_end_of = (\<lambda>_ _. Removed),
     observed = (\<lambda>_ _. Observed True True), probe_answers = (\<lambda>_ _. True), ready_replica = (\<lambda>_ _. True),
     renamed = (\<lambda>_ _. False), polls = (\<lambda>_. 0), cancelled = (\<lambda>_. False), shutting_down = (\<lambda>_. False), clock = int\<rparr>"

definition refusing :: "(nat \<Rightarrow> bool) \<Rightarrow> env" where
  "refusing P = kind_env\<lparr>answer_of := (\<lambda>n. if P n then Refused else Done)\<rparr>"

definition empty_world :: "db \<Rightarrow> world" where
  "empty_world s = \<lparr>database = s, containers = [], drains = [], override = None, unsettled_ends = [], calls = 0,
     verified = [], seen = []\<rparr>"

text \<open>The newest deployment of the database, about to be carried out in a world.\<close>

definition newest :: "db \<Rightarrow> Deployment" where
  "newest s = last (deployments s)"

definition deploy_next :: "App \<Rightarrow> world \<Rightarrow> rollout" where
  "deploy_next a w =
     (case insertDeployment a ''deploy'' None ''admin'' 7 (database w) of
        Some (d, s) \<Rightarrow> newRollout d (w\<lparr>database := s, seen := []\<rparr>)
      | None \<Rightarrow> newRollout (newest (database w)) w)"

text \<open>Two replicas of the first version, running.\<close>

definition demo_world :: world where
  "demo_world = launch kind_env [] (deploy_next demo_spec (empty_world empty_db))"


section \<open>Properties of a rollout\<close>






text \<open>
  The other way round, a deployment that was to start nothing can lose its containers after its commit: the
  commit has recorded the application as running, the write that takes this back is refused, and the abort
  removes the containers of what is by then the active deployment.
\<close>

definition dormant_next :: "App \<Rightarrow> world \<Rightarrow> rollout" where
  "dormant_next a w = (deploy_next a w)\<lparr>ro_dormant := True\<rparr>"

lemma refused_stop_loses_containers:
  "let w = launch (refusing (\<lambda>n. n = 16)) [] (dormant_next demo_spec (empty_world empty_db))
   in containers w = [] \<and> map app_desired (applications (database w)) = [DesiredRunning] \<and>
      map d_status (deployments (database w)) = [StatusActive]"
  by code_simp

end
