(* ===== verification/Rolling.thy ===== *)
theory Rolling
  imports Rollout
begin

text \<open>
  What a rolling deployment promises while it runs: the number of containers, the number of
  replicas that serve, who may serve, and what a failure leaves behind. The statements are about every
  moment a caller of Docker could see (\<open>seen\<close>), not only about the end, and hold for every environment.

  \<open>quiet\<close> relates the world before and after a step that neither creates nor starts nor stops a
  container: the containers that do not drain are still there, and nothing else has come. It is a law
  of \<open>world_effects\<close>, so every wait, sync and transition of the engine keeps it. \<open>fwd\<close> is the
  invariant between two batches.
\<close>

section \<open>Steps that leave the containers alone\<close>

definition core :: "container \<Rightarrow> container" where
  "core c = c\<lparr>c_named := False\<rparr>"

definition ids :: "container list \<Rightarrow> string set" where
  "ids cs = c_id ` set cs"

lemma core_id [simp]: "c_id (core c) = c_id c" "c_running (core c) = c_running c" "c_job (core c) = c_job c"
    "c_deployment (core c) = c_deployment c" "core (core c) = core c" "core (c\<lparr>c_named := b\<rparr>) = core c"
  by (simp_all add: core_def)

lemma core_eqD: "core c = core c' \<Longrightarrow> c_id c = c_id c' \<and> c_running c = c_running c' \<and> c_job c = c_job c' \<and> c_deployment c = c_deployment c'"
  by (metis core_id(1-4))

text \<open>The containers \<open>cs\<close> are those of \<open>w\<close>, less some that drain.\<close>

definition among :: "world \<Rightarrow> container list \<Rightarrow> bool" where
  "among w cs \<longleftrightarrow> core ` set cs \<subseteq> core ` set (containers w) \<and>
     (\<forall>c \<in> set (containers w). c_id c \<notin> set (drains w) \<longrightarrow> core c \<in> core ` set cs)"

definition drains_remove :: "env \<Rightarrow> bool" where
  "drains_remove e \<longleftrightarrow> (\<forall>n i. drain_end_of e n i \<noteq> GaveUp)"

definition quiet :: "env \<Rightarrow> world \<Rightarrow> world \<Rightarrow> bool" where
  "quiet e w w' \<longleftrightarrow> override w' = override w \<and> calls w \<le> calls w' \<and> set (drains w') \<subseteq> set (drains w) \<and>
     set (verified w) \<subseteq> set (verified w') \<and> among w (containers w') \<and>
     (drains_remove e \<longrightarrow> ids (containers w') \<inter> set (drains w) \<subseteq> set (drains w')) \<and>
     (\<exists>new. seen w' = seen w @ new \<and> (\<forall>(cs, ds, o') \<in> set new. o' = override w \<and> set ds \<subseteq> set (drains w) \<and> among w cs))"

lemma among_refl: "among w (containers w)"
  by (simp add: among_def)

lemma among_trans: "among w (containers w') \<Longrightarrow> set (drains w') \<subseteq> set (drains w) \<Longrightarrow> among w' cs \<Longrightarrow> among w cs"
  unfolding among_def by (smt (verit, best) core_id(1) image_iff subset_iff)

lemma among_ids: "among w cs \<Longrightarrow> ids cs \<subseteq> ids (containers w)"
  unfolding among_def ids_def by (smt (verit) core_id(1) image_iff image_subset_iff)

lemma seen_later:
  assumes "\<forall>(cs, ds, o') \<in> set new. o' = ov \<and> set ds \<subseteq> D \<and> P cs" "ov = ov'" "D \<subseteq> D'" "\<And>cs. P cs \<Longrightarrow> P' cs"
  shows "\<forall>(cs, ds, o') \<in> set new. o' = ov' \<and> set ds \<subseteq> D' \<and> P' cs"
  using assms by fastforce

lemma quiet_refl: "quiet e w w"
  by (auto simp: quiet_def among_refl)

lemma quiet_trans:
  assumes "quiet e w w'" "quiet e w' w''"
  shows "quiet e w w''"
proof -
  obtain new new' where seen: "seen w' = seen w @ new" "\<forall>(cs, ds, o') \<in> set new. o' = override w \<and> set ds \<subseteq> set (drains w) \<and> among w cs"
      "seen w'' = seen w' @ new'" "\<forall>(cs, ds, o') \<in> set new'. o' = override w' \<and> set ds \<subseteq> set (drains w') \<and> among w' cs"
    using assms unfolding quiet_def by blast
  have w: "among w (containers w')" "set (drains w') \<subseteq> set (drains w)"
    using assms(1) by (auto simp: quiet_def)
  have ov: "override w' = override w"
    using assms(1) by (simp add: quiet_def)
  have new': "\<forall>(cs, ds, o') \<in> set new'. o' = override w \<and> set ds \<subseteq> set (drains w) \<and> among w cs"
    by (rule seen_later[OF seen(4) ov w(2)]) (rule among_trans[OF w])
  have "seen w'' = seen w @ new @ new'"
    by (simp add: seen)
  moreover have "\<forall>(cs, ds, o') \<in> set (new @ new'). o' = override w \<and> set ds \<subseteq> set (drains w) \<and> among w cs"
    using seen(2) new' by auto
  ultimately have "\<exists>new. seen w'' = seen w @ new \<and> (\<forall>(cs, ds, o') \<in> set new. o' = override w \<and> set ds \<subseteq> set (drains w) \<and> among w cs)"
    by blast
  moreover have "ids (containers w'') \<inter> set (drains w) \<subseteq> set (drains w'')" if "drains_remove e"
    using assms that among_ids[of w' "containers w''"] unfolding quiet_def by blast
  ultimately show ?thesis
    using assms among_trans[OF w] unfolding quiet_def by (auto intro: order_trans)
qed

lemma end_drains_frame:
  "override (fold (end_drain e n) ds w) = override w \<and> verified (fold (end_drain e n) ds w) = verified w \<and>
   seen (fold (end_drain e n) ds w) = seen w \<and> calls (fold (end_drain e n) ds w) = calls w"
proof (induction ds arbitrary: w)
  case (Cons i ds)
  then show ?case
    by (auto simp: end_drain_def mark_removed_def remove_container_def Let_def split: drain_end.splits)
qed simp

lemma end_drains_set:
  "set (drains (fold (end_drain e n) ds w)) = set (drains w) - {i \<in> set ds. drain_end_of e n i \<noteq> Draining} \<and>
   set (containers (fold (end_drain e n) ds w)) =
     {c \<in> set (containers w). \<not> (c_id c \<in> set ds \<and> drain_end_of e n (c_id c) \<in> {Removed, RemovedUnmarked})}"
proof (induction ds arbitrary: w)
  case (Cons i ds)
  show ?case
    using Cons[of "end_drain e n i w"]
    by (auto simp: end_drain_def mark_removed_def remove_container_def Let_def split: drain_end.splits)
qed simp

lemma among_tick: "among w (containers (tick e w))"
  using end_drains_set[of e "calls w" "drains w" w] by (auto simp: among_def tick_def note_seen_def)

lemma quiet_tick: "quiet e w (tick e w)"
proof -
  have "ids (containers (tick e w)) \<inter> set (drains w) \<subseteq> set (drains (tick e w))" if "drains_remove e"
  proof
    fix i
    assume "i \<in> ids (containers (tick e w)) \<inter> set (drains w)"
    then show "i \<in> set (drains (tick e w))"
      using end_drains_set[of e "calls w" "drains w" w] that
      by (cases "drain_end_of e (calls w) i") (auto simp: tick_def note_seen_def ids_def drains_remove_def)
  qed
  moreover have "set (drains (tick e w)) \<subseteq> set (drains w)"
    using end_drains_set[of e "calls w" "drains w" w] by (auto simp: tick_def note_seen_def)
  ultimately show ?thesis
    using among_tick[of w e] end_drains_frame[of e "calls w" "drains w" w]
    by (auto simp: quiet_def) (auto simp: tick_def note_seen_def)
qed

lemma quiet_names: "quiet e w (give_names e' n p app w)"
proof -
  define g :: "container \<Rightarrow> container" where "g = (\<lambda>c. if c_id c \<in> r_container ` set (plan_members app w) \<and> c_running c \<and> p (c_id c)
                         then c\<lparr>c_named := ready_replica e' n (c_id c)\<rparr> else c)"
  have g: "core (g c) = core c" "c_id (g c) = c_id c" for c
    by (simp_all add: g_def)
  have cs: "containers (give_names e' n p app w) = map g (containers w)"
    unfolding give_names_def g_def by simp
  have "core ` set (map g (containers w)) = core ` set (containers w)" "ids (map g (containers w)) = ids (containers w)"
    by (simp_all only: ids_def set_map image_image g)
  then show ?thesis
    by (auto simp: quiet_def cs among_def) (auto simp: give_names_def)
qed

interpretation quiet_law: world_effects "quiet e" e for e
proof
  show "quiet e w w" for w by (rule quiet_refl)
  show "quiet e s u" if "quiet e s t" "quiet e t u" for s t u using that by (rule quiet_trans)
  show "quiet e w (tick e w)" for w by (rule quiet_tick)
  show "quiet e w (note_seen w)" for w by (auto simp: quiet_def note_seen_def among_refl)
  show "quiet e w (give_names e n p app w)" for w n p app by (rule quiet_names)
qed (auto simp: quiet_def among_refl)

section \<open>Steps that create\<close>

text \<open>The ids Docker gives from a call on.\<close>

definition ids_from :: "env \<Rightarrow> nat \<Rightarrow> string set" where
  "ids_from e n = {new_id e k |k. n \<le> k}"

definition live_ids :: "container list \<Rightarrow> string set" where
  "live_ids cs = c_id ` {c \<in> set cs. \<not> c_job c}"

text \<open>
  The containers \<open>cs\<close> differ from those of \<open>w\<close> in the containers with an id of \<open>F\<close> only, and at most
  \<open>k\<close> of those are new; of the others some that drain may be gone.
\<close>

definition apart_from :: "string set \<Rightarrow> nat \<Rightarrow> world \<Rightarrow> container list \<Rightarrow> bool" where
  "apart_from F k w cs \<longleftrightarrow>
     (\<exists>S. finite S \<and> card S \<le> k \<and> live_ids cs \<subseteq> live_ids (containers w) \<union> S) \<and>
     (\<forall>c \<in> set cs. c_id c \<notin> F \<longrightarrow> core c \<in> core ` set (containers w)) \<and>
     (\<forall>c \<in> set (containers w). c_id c \<notin> set (drains w) \<and> c_id c \<notin> F \<longrightarrow> core c \<in> core ` set cs)"

definition building :: "env \<Rightarrow> string set \<Rightarrow> nat \<Rightarrow> world \<Rightarrow> world \<Rightarrow> bool" where
  "building e F k w w' \<longleftrightarrow> override w' = override w \<and> calls w \<le> calls w' \<and> set (drains w') \<subseteq> set (drains w) \<and>
     set (verified w) \<subseteq> set (verified w') \<and> apart_from F k w (containers w') \<and>
     (\<exists>new. seen w' = seen w @ new \<and> (\<forall>(cs, ds, o') \<in> set new. o' = override w \<and> set ds \<subseteq> set (drains w) \<and> apart_from F k w cs))"

lemma apart_from_mono: "apart_from F k w cs \<Longrightarrow> k \<le> k' \<Longrightarrow> apart_from F k' w cs"
  unfolding apart_from_def by (meson order_trans)

lemma apart_from_trans:
  assumes "apart_from F k w (containers w')" "set (drains w') \<subseteq> set (drains w)" "apart_from F l w' cs"
  shows "apart_from F (k + l) w cs"
proof -
  obtain S T where S: "finite S" "card S \<le> k" "live_ids (containers w') \<subseteq> live_ids (containers w) \<union> S"
    and T: "finite T" "card T \<le> l" "live_ids cs \<subseteq> live_ids (containers w') \<union> T"
    using assms(1,3) unfolding apart_from_def by blast
  have "card (S \<union> T) \<le> k + l"
    using card_Un_le[of S T] S(2) T(2) by linarith
  moreover have "live_ids cs \<subseteq> live_ids (containers w) \<union> (S \<union> T)"
    using S(3) T(3) by blast
  ultimately have "\<exists>S. finite S \<and> card S \<le> k + l \<and> live_ids cs \<subseteq> live_ids (containers w) \<union> S"
    using S(1) T(1) by blast
  moreover have "core c \<in> core ` set (containers w)" if "c \<in> set cs" "c_id c \<notin> F" for c
    using assms(1,3) that unfolding apart_from_def by (smt (verit, best) core_id(1) image_iff)
  moreover have "core c \<in> core ` set cs" if "c \<in> set (containers w)" "c_id c \<notin> set (drains w)" "c_id c \<notin> F" for c
    using assms that unfolding apart_from_def by (smt (verit, best) core_id(1) image_iff subset_iff)
  ultimately show ?thesis
    unfolding apart_from_def by blast
qed

lemma building_refl: "building e F k w w"
proof -
  have "apart_from F k w (containers w)"
    unfolding apart_from_def by (auto intro!: exI[of _ "{}"])
  then show ?thesis by (auto simp: building_def)
qed

lemma building_trans:
  assumes "building e F k w w'" "building e F l w' w''"
  shows "building e F (k + l) w w''"
proof -
  obtain new new' where seen: "seen w' = seen w @ new" "\<forall>(cs, ds, o') \<in> set new. o' = override w \<and> set ds \<subseteq> set (drains w) \<and> apart_from F k w cs"
      "seen w'' = seen w' @ new'" "\<forall>(cs, ds, o') \<in> set new'. o' = override w' \<and> set ds \<subseteq> set (drains w') \<and> apart_from F l w' cs"
    using assms unfolding building_def by blast
  have w: "apart_from F k w (containers w')" "set (drains w') \<subseteq> set (drains w)"
    using assms(1) by (auto simp: building_def)
  have ov: "override w' = override w"
    using assms(1) by (simp add: building_def)
  have new: "\<forall>(cs, ds, o') \<in> set new. o' = override w \<and> set ds \<subseteq> set (drains w) \<and> apart_from F (k + l) w cs"
    by (rule seen_later[OF seen(2) refl order_refl]) (rule apart_from_mono, assumption, simp)
  have new': "\<forall>(cs, ds, o') \<in> set new'. o' = override w \<and> set ds \<subseteq> set (drains w) \<and> apart_from F (k + l) w cs"
    by (rule seen_later[OF seen(4) ov w(2)]) (rule apart_from_trans[OF w])
  have "seen w'' = seen w @ new @ new'"
    by (simp add: seen)
  moreover have "\<forall>(cs, ds, o') \<in> set (new @ new'). o' = override w \<and> set ds \<subseteq> set (drains w) \<and> apart_from F (k + l) w cs"
    using new new' by auto
  ultimately have "\<exists>new. seen w'' = seen w @ new \<and> (\<forall>(cs, ds, o') \<in> set new. o' = override w \<and> set ds \<subseteq> set (drains w) \<and> apart_from F (k + l) w cs)"
    by blast
  then show ?thesis
    using assms apart_from_trans[OF w] unfolding building_def by (auto intro: order_trans)
qed

lemma among_apart: "among w cs \<Longrightarrow> apart_from F 0 w cs"
proof -
  assume a: "among w cs"
  have "live_ids cs \<subseteq> live_ids (containers w)"
  proof
    fix i
    assume "i \<in> live_ids cs"
    then obtain c where c: "c \<in> set cs" "i = c_id c" "\<not> c_job c"
      by (auto simp: live_ids_def)
    then obtain c' where "c' \<in> set (containers w)" "core c = core c'"
      using a by (auto simp: among_def)
    then show "i \<in> live_ids (containers w)"
      using c core_eqD[of c c'] by (auto simp: live_ids_def)
  qed
  then show ?thesis
    using a by (auto simp: apart_from_def among_def intro!: exI[of _ "{}"])
qed

lemma quiet_building: "quiet e w w' \<Longrightarrow> building e F 0 w w'"
  unfolding quiet_def building_def using among_apart by fastforce

text \<open>A call that creates one container, or changes some with ids of \<open>F\<close>.\<close>

lemma building_call:
  assumes "\<And>w. apart_from F k w (containers (f w)) \<and> override (f w) = override w \<and> drains (f w) = drains w \<and>
      verified (f w) = verified w \<and> seen (f w) = seen w \<and> calls (f w) = calls w"
  shows "building e F k w (snd (call e f w))"
proof -
  have "building e F 0 w (tick e w)"
    by (rule quiet_building) (rule quiet_tick)
  moreover have "building e F k w1 (note_seen (f w1))" for w1
    using assms[of w1] by (auto simp: building_def note_seen_def)
  ultimately have "building e F k w (tick e w)" "building e F k w (note_seen (f (tick e w)))"
    using building_trans[of e F 0 w "tick e w" k] building_refl by (force)+
  then show ?thesis
    by (auto simp: call_def Let_def split: answer.splits)
qed

lemma building_update:
  assumes "i \<in> F" "\<And>c. c_id (f c) = c_id c \<and> c_job (f c) = c_job c"
  shows "building e F 0 w (snd (call e (update_container i f) w))"
proof (rule building_call)
  fix w
  have "live_ids (containers (update_container i f w)) \<subseteq> live_ids (containers w)"
    using assms(2) unfolding live_ids_def update_container_def by (auto simp: image_iff)
  then have "apart_from F 0 w (containers (update_container i f w))"
    using assms by (auto simp: apart_from_def update_container_def intro!: exI[of _ "{}"])
  then show "apart_from F 0 w (containers (update_container i f w)) \<and> override (update_container i f w) = override w \<and>
      drains (update_container i f w) = drains w \<and> verified (update_container i f w) = verified w \<and>
      seen (update_container i f w) = seen w \<and> calls (update_container i f w) = calls w"
    by (simp add: update_container_def)
qed

lemma building_start: "i \<in> F \<Longrightarrow> building e F 0 w (snd (StartContainer e i w))"
  unfolding StartContainer_def by (rule building_update) auto

lemma building_removal: "i \<in> F \<Longrightarrow> building e F 0 w (snd (RemoveContainer e i w))"
  unfolding RemoveContainer_def
  by (rule building_call) (auto simp: remove_container_def apart_from_def live_ids_def intro!: exI[of _ "{}"])

lemma building_create:
  assumes "ids_from e (calls w) \<subseteq> F"
  shows "building e F 1 w (snd (CreateContainer e dep i w))"
proof -
  have "new_id e (calls w) \<in> F"
    using assms by (auto simp: ids_from_def)
  then have "building e F 1 w (snd (call e (\<lambda>w'. w'\<lparr>containers := containers w' @
      [\<lparr>c_id = new_id e (calls w), c_deployment = dep, c_replica = i, c_running = False, c_job = False, c_named = False\<rparr>]\<rparr>) w))"
    by (intro building_call) (auto simp: apart_from_def live_ids_def intro!: exI[of _ "{new_id e (calls w)}"])
  then show ?thesis
    by (auto simp: CreateContainer_def Let_def andThen_def done_with_def split: prod.splits sum.splits)
qed


lemma calls_create: "CreateContainer e dep i w = (x, w') \<Longrightarrow> calls w < calls w'"
  by (auto simp: CreateContainer_def call_def Let_def andThen_def done_with_def tick_def note_seen_def end_drains_frame
      split: answer.splits prod.splits sum.splits)

lemma ids_from_mono: "n \<le> m \<Longrightarrow> ids_from e m \<subseteq> ids_from e n"
  by (auto simp: ids_from_def)

lemma quiet_live: "quiet e w w' \<Longrightarrow> live_ids (containers w') \<subseteq> live_ids (containers w)"
  using among_apart[of w "containers w'" "{}"] by (auto simp: quiet_def apart_from_def)

lemma live_ids_append [simp]: "live_ids (cs @ cs') = live_ids cs \<union> live_ids cs'"
  by (auto simp: live_ids_def)

lemma create_id:
  assumes "CreateContainer e dep i w = (Inr c, w')"
  shows "c = new_id e (calls w) \<and> live_ids (containers w') \<subseteq> insert c (live_ids (containers w)) \<and>
    drains w' = drains (tick e w) \<and>
    containers w' = containers (tick e w) @
      [\<lparr>c_id = c, c_deployment = dep, c_replica = i, c_running = False, c_job = False, c_named = False\<rparr>]"
proof -
  have w': "c = new_id e (calls w)" "drains w' = drains (tick e w)" "containers w' = containers (tick e w) @
      [\<lparr>c_id = c, c_deployment = dep, c_replica = i, c_running = False, c_job = False, c_named = False\<rparr>]"
    using assms by (auto simp: CreateContainer_def call_def Let_def andThen_def done_with_def note_seen_def
        split: answer.splits prod.splits sum.splits)
  then show ?thesis
    using quiet_live[OF quiet_tick, of e w] by (auto simp: live_ids_def)
qed

lemma createReplicas_building:
  assumes "createReplicas e d is w = ((created, er), w')" "ids_from e (calls w) \<subseteq> F"
  shows "building e F (length is) w w' \<and>
    (\<forall>rep \<in> set created. r_container rep \<in> ids_from e (calls w) \<and> r_deployment rep = d_id d) \<and>
    (\<exists>k. map r_index created = take k is) \<and>
    (er = None \<longrightarrow> map r_index created = is \<and> live_ids (containers w') \<subseteq> live_ids (containers w) \<union> r_container ` set created)"
  using assms
proof (induction "is" arbitrary: w created er w')
  case Nil
  then show ?case by (auto simp: building_refl)
next
  case (Cons i "is")
  obtain x w1 where x: "CreateContainer e (d_id d) i w = (x, w1)"
    by fastforce
  have b1: "building e F 1 w w1"
    using building_create[OF Cons.prems(2), of "d_id d" i] x by simp
  have F1: "ids_from e (calls w1) \<subseteq> F" and le: "calls w < calls w1"
    using calls_create[OF x] ids_from_mono[of "calls w" "calls w1" e] Cons.prems(2) by auto
  show ?case
  proof (cases x)
    case (Inl er')
    then show ?thesis
      using Cons.prems(1) x building_trans[OF b1 building_refl[of e F "length is"]]
      by (auto intro: exI[of _ 0])
  next
    case (Inr c)
    note c = create_id[OF x[unfolded Inr]]
    have cF: "c \<in> F" "c \<in> ids_from e (calls w)"
      using c Cons.prems(2) by (auto simp: ids_from_def)
    define rep where "rep = \<lparr>r_deployment = d_id d, r_index = i, r_container = c, r_restarts = 0\<rparr>"
    obtain y w2 where y: "store_write e (AddReplica rep) w1 = (y, w2)"
      by fastforce
    have q2: "quiet e w1 w2"
      by (rule keeps_result[OF quiet_law.keeps_store_write y]) (rule quiet_law.calm_added)
    have b2: "building e F 1 w w2"
      using building_trans[OF b1 quiet_building[OF q2]] by simp
    show ?thesis
    proof (cases y)
      case (Inl er')
      obtain z w3 where z: "RemoveContainer e c w2 = (z, w3)"
        by fastforce
      have "building e F 0 w2 w3"
        using building_removal[OF cF(1), of e w2] z by simp
      moreover have "building e F 0 w3 (snd (store_write e (MarkReplicaRemoved c) w3))"
        by (intro quiet_building keepsD[OF quiet_law.keeps_store_write] quiet_law.calm_removed)
      ultimately have "building e F 0 w2 (snd (removeContainer e c w2))"
        using building_trans[of e F 0 w2 w3 0] z
        by (cases z) (auto simp: removeContainer_def andThen_def)
      then have "building e F (1 + length is) w (snd (removeContainer e c w2))"
        using building_trans[OF building_trans[OF b2] building_refl[of e F "length is"]] by force
      then show ?thesis
        using Cons.prems(1) x Inr y Inl unfolding rep_def by (auto intro: exI[of _ 0])
    next
      case (Inr u)
      obtain created' w4 where rest: "createReplicas e d is w2 = ((created', er), w4)"
        and eqs: "created = rep # created'" "w' = w4"
        using Cons.prems(1) x \<open>x = Inr c\<close> y Inr unfolding rep_def by (auto simp: Let_def split: prod.splits)
      have le2: "calls w1 \<le> calls w2"
        using q2 by (simp add: quiet_def)
      have sub: "ids_from e (calls w2) \<subseteq> ids_from e (calls w)"
        using ids_from_mono le le2 by (meson less_imp_le order_trans)
      note IH = Cons.IH[OF rest order_trans[OF sub Cons.prems(2)]]
      have "building e F (1 + length is) w w4"
        using building_trans[OF b2] IH by blast
      moreover have "live_ids (containers w2) \<subseteq> insert c (live_ids (containers w))"
        using quiet_live[OF q2] c by blast
      moreover obtain k where "map r_index created' = take k is"
        using IH by blast
      then have "\<exists>k. map r_index (rep # created') = take k (i # is)"
        by (intro exI[of _ "Suc k"]) (simp add: rep_def)
      ultimately show ?thesis
        using IH sub cF(2) unfolding eqs by (auto simp: rep_def)
    qed
  qed
qed


text \<open>Nothing that does not drain is removed, stopped or taken for another deployment's.\<close>

definition upward :: "world \<Rightarrow> world \<Rightarrow> bool" where
  "upward w w' \<longleftrightarrow> set (drains w') \<subseteq> set (drains w) \<and>
     (\<forall>c \<in> set (containers w). c_id c \<notin> set (drains w) \<longrightarrow>
        (\<exists>c' \<in> set (containers w'). c_id c' = c_id c \<and> c_deployment c' = c_deployment c \<and> (c_running c \<longrightarrow> c_running c')))"

lemma quiet_upward: "quiet e w w' \<Longrightarrow> upward w w'"
  unfolding quiet_def upward_def among_def by (smt (verit, ccfv_threshold) core_eqD image_iff)

lemma upward_refl: "upward w w"
  by (auto simp: upward_def)

lemma upward_trans: "upward w w' \<Longrightarrow> upward w' w'' \<Longrightarrow> upward w w''"
  unfolding upward_def by (smt (verit, best) subset_iff)

text \<open>A container that is up and one that is merely there.\<close>

definition present :: "world \<Rightarrow> int \<Rightarrow> string \<Rightarrow> bool" where
  "present w dep i \<longleftrightarrow> i \<notin> set (drains w) \<and> (\<exists>c \<in> set (containers w). c_id c = i \<and> c_deployment c = dep)"

definition up :: "world \<Rightarrow> int \<Rightarrow> string \<Rightarrow> bool" where
  "up w dep i \<longleftrightarrow> i \<notin> set (drains w) \<and> (\<exists>c \<in> set (containers w). c_id c = i \<and> c_deployment c = dep \<and> c_running c)"

lemma present_upward: "upward w w' \<Longrightarrow> present w dep i \<Longrightarrow> present w' dep i"
  unfolding upward_def present_def by blast

lemma up_upward: "upward w w' \<Longrightarrow> up w dep i \<Longrightarrow> up w' dep i"
  unfolding upward_def up_def by blast

lemma upward_call:
  assumes "\<And>w. upward w (f w)"
  shows "upward w (snd (call e f w))"
proof -
  have "upward w1 (note_seen w1)" for w1
    by (auto simp: upward_def note_seen_def)
  then have "upward w (note_seen (f (tick e w)))"
    using upward_trans[OF quiet_upward[OF quiet_tick]] upward_trans[OF assms] by blast
  then show ?thesis
    using quiet_upward[OF quiet_tick] by (auto simp: call_def Let_def split: answer.splits)
qed

lemma upward_start: "upward w (snd (StartContainer e i w))"
proof -
  have "upward w (update_container i (\<lambda>c. c\<lparr>c_running := True\<rparr>) w)" for w
    unfolding upward_def update_container_def
  proof (intro conjI ballI impI)
    fix c
    assume "c \<in> set (containers w)"
    then show "\<exists>c' \<in> set (containers (w\<lparr>containers := map (\<lambda>c. if c_id c = i then c\<lparr>c_running := True\<rparr> else c) (containers w)\<rparr>)).
        c_id c' = c_id c \<and> c_deployment c' = c_deployment c \<and> (c_running c \<longrightarrow> c_running c')"
      by (intro bexI[of _ "if c_id c = i then c\<lparr>c_running := True\<rparr> else c"]) auto
  qed simp
  then show ?thesis
    unfolding StartContainer_def by (rule upward_call)
qed

lemma upward_create: "upward w (snd (CreateContainer e dep i w))"
proof -
  have keep: "upward w w'" if "call e (\<lambda>w'. w'\<lparr>containers := containers w' @ cs\<rparr>) w = (x, w')" for cs x w'
    using upward_call[of "\<lambda>w'. w'\<lparr>containers := containers w' @ cs\<rparr>" w e] that by (auto simp: upward_def)
  show ?thesis
    by (auto simp: CreateContainer_def Let_def andThen_def done_with_def split: prod.splits sum.splits dest: keep)
qed

lemma start_up: "StartContainer e i w = (Inr u, w') \<Longrightarrow> present w dep i \<Longrightarrow> up w' dep i"
proof -
  assume a: "StartContainer e i w = (Inr u, w')" "present w dep i"
  then have w': "containers w' = map (\<lambda>c. if c_id c = i then c\<lparr>c_running := True\<rparr> else c) (containers (tick e w))"
      "drains w' = drains (tick e w)"
    by (auto simp: StartContainer_def call_def Let_def note_seen_def update_container_def split: answer.splits)
  obtain c where c: "c \<in> set (containers (tick e w))" "c_id c = i" "c_deployment c = dep" "i \<notin> set (drains (tick e w))"
    using present_upward[OF quiet_upward[OF quiet_tick] a(2)] by (auto simp: present_def)
  then have "c\<lparr>c_running := True\<rparr> \<in> set (containers w')"
    unfolding w' by (auto simp: image_iff intro!: bexI[of _ c])
  then show ?thesis
    using c unfolding up_def w'(2) by (intro conjI bexI[of _ "c\<lparr>c_running := True\<rparr>"]) auto
qed

lemma createReplicas_present:
  assumes "createReplicas e d is w = ((created, None), w')" "ids_from e (calls w) \<inter> set (drains w) = {}"
  shows "upward w w' \<and> (\<forall>rep \<in> set created. present w' (d_id d) (r_container rep))"
  using assms
proof (induction "is" arbitrary: w created)
  case Nil
  then show ?case by (simp add: upward_refl)
next
  case (Cons i "is")
  obtain c w1 where x: "CreateContainer e (d_id d) i w = (Inr c, w1)"
    using Cons.prems(1) by (auto split: prod.splits sum.splits)
  define rep where "rep = \<lparr>r_deployment = d_id d, r_index = i, r_container = c, r_restarts = 0\<rparr>"
  obtain u w2 where y: "store_write e (AddReplica rep) w1 = (Inr u, w2)"
    using Cons.prems(1) x unfolding rep_def by (auto simp: Let_def split: prod.splits sum.splits)
  obtain created' where rest: "createReplicas e d is w2 = ((created', None), w')" and eqs: "created = rep # created'"
    using Cons.prems(1) x y unfolding rep_def by (auto simp: Let_def split: prod.splits)
  have q2: "quiet e w1 w2"
    by (rule keeps_result[OF quiet_law.keeps_store_write y]) (rule quiet_law.calm_added)
  have u1: "upward w w1"
    using upward_create[of w e "d_id d" i] x by simp
  have sub: "ids_from e (calls w2) \<subseteq> ids_from e (calls w)" "set (drains w2) \<subseteq> set (drains w)"
    using calls_create[OF x] q2 u1 ids_from_mono[of "calls w" "calls w2" e] by (auto simp: quiet_def upward_def)
  have "present w1 (d_id d) c"
    using create_id[OF x] Cons.prems(2) quiet_upward[OF quiet_tick, of w e]
    by (auto simp: present_def ids_from_def upward_def)
  moreover have "upward w2 w'" "\<forall>rep \<in> set created'. present w' (d_id d) (r_container rep)"
    using Cons.IH[OF rest] sub Cons.prems(2) by blast+
  ultimately show ?case
    using upward_trans[OF u1] upward_trans[OF quiet_upward[OF q2]] present_upward[of w1 w'] unfolding eqs rep_def by auto
qed

lemma start_all:
  assumes "each (\<lambda>rep. StartContainer e (r_container rep)) reps w = (x, w')"
    "r_container ` set reps \<subseteq> F"
  shows "building e F 0 w w' \<and> upward w w' \<and> live_ids (containers w') \<subseteq> live_ids (containers w) \<and>
    (x = Inr () \<longrightarrow> (\<forall>rep \<in> set reps. present w dep (r_container rep)) \<longrightarrow> (\<forall>rep \<in> set reps. up w' dep (r_container rep)))"
  using assms
proof (induction reps arbitrary: w)
  case Nil
  then show ?case by (simp add: done_with_def building_refl upward_refl)
next
  case (Cons rep reps)
  obtain y w1 where y: "StartContainer e (r_container rep) w = (y, w1)"
    by fastforce
  have b1: "building e F 0 w w1" and u1: "upward w w1"
    using building_start[of "r_container rep" F e w] upward_start[of w e "r_container rep"] y Cons.prems(2) by auto
  have live: "live_ids (containers w1) \<subseteq> live_ids (containers w)"
    using b1 by (auto simp: building_def apart_from_def)
  show ?case
  proof (cases y)
    case (Inl er)
    then show ?thesis
      using Cons.prems(1) y b1 u1 live by (auto simp: andThen_def)
  next
    case (Inr u)
    then have rest: "each (\<lambda>rep. StartContainer e (r_container rep)) reps w1 = (x, w')"
      using Cons.prems(1) y by (simp add: andThen_def)
    note IH = Cons.IH[OF rest]
    have "up w1 dep (r_container rep)" if "present w dep (r_container rep)"
      using start_up y Inr that by blast
    then show ?thesis
      using IH Cons.prems(2) building_trans[OF b1, of 0 w'] upward_trans[OF u1] live present_upward[OF u1] up_upward
      by auto
  qed
qed

text \<open>Everything \<open>ensureReplicas\<close> does to the world, and what it returns.\<close>

lemma ensureReplicas_building:
  assumes "ensureReplicas e d is w = ((created, er), w')" "ids_from e (calls w) \<subseteq> F"
  shows "building e F (length is) w w' \<and>
    (\<forall>rep \<in> set created. r_container rep \<in> ids_from e (calls w) \<and> r_deployment rep = d_id d) \<and>
    (\<exists>k. map r_index created = take k is)"
    and "er = None \<Longrightarrow> map r_index created = is \<and> live_ids (containers w') \<subseteq> live_ids (containers w) \<union> r_container ` set created"
    and "er = None \<Longrightarrow> ids_from e (calls w) \<inter> set (drains w) = {} \<Longrightarrow>
      upward w w' \<and> (\<forall>rep \<in> set created. up w' (d_id d) (r_container rep))"
proof -
  obtain created1 er1 w1 where c: "createReplicas e d is w = ((created1, er1), w1)"
    by (metis prod.exhaust)
  note B = createReplicas_building[OF c assms(2)]
  consider (refused) "er1 \<noteq> None" "created = created1" "er = er1" "w' = w1"
    | (started) y where "er1 = None" "created = created1"
        "each (\<lambda>rep. StartContainer e (r_container rep)) created1 w1 = (y, w')" "er = (case y of Inl x \<Rightarrow> Some x | Inr _ \<Rightarrow> None)"
    using assms(1) c by (auto simp: ensureReplicas_def split: option.splits prod.splits sum.splits)
  then have "building e F (length is) w w' \<and> created = created1 \<and> (er = None \<longrightarrow> er1 = None \<and>
      live_ids (containers w') \<subseteq> live_ids (containers w1) \<and>
      (ids_from e (calls w) \<inter> set (drains w) = {} \<longrightarrow> upward w w' \<and> (\<forall>rep \<in> set created. up w' (d_id d) (r_container rep))))"
  proof cases
    case started
    have "r_container ` set created1 \<subseteq> F"
      using B assms(2) by blast
    note S = start_all[OF started(3) this, where dep = "d_id d"]
    then show ?thesis
      using S B started building_trans[of e F "length is" w w1 0 w'] createReplicas_present[of e d "is" w created1 w1] c
        upward_trans[of w w1 w'] by (auto split: sum.splits)
  qed (use B in auto)
  then show "building e F (length is) w w' \<and>
    (\<forall>rep \<in> set created. r_container rep \<in> ids_from e (calls w) \<and> r_deployment rep = d_id d) \<and>
    (\<exists>k. map r_index created = take k is)"
    and "er = None \<Longrightarrow> map r_index created = is \<and> live_ids (containers w') \<subseteq> live_ids (containers w) \<union> r_container ` set created"
    and "er = None \<Longrightarrow> ids_from e (calls w) \<inter> set (drains w) = {} \<Longrightarrow>
      upward w w' \<and> (\<forall>rep \<in> set created. up w' (d_id d) (r_container rep))"
    using B by blast+
qed


section \<open>The invariant of a rolling deployment\<close>

subsection \<open>What a snapshot has to satisfy\<close>

text \<open>The members of the override whose containers run and do not drain.\<close>

definition in_service :: "container list \<Rightarrow> string list \<Rightarrow> routeOverride \<Rightarrow> string set" where
  "in_service cs ds ov = {i \<in> r_container ` fst ` set (o_members ov). i \<notin> set ds \<and> (\<exists>c \<in> set cs. c_id c = i \<and> c_running c)}"

text \<open>
  At most \<open>K\<close> containers that are not jobs; at least \<open>m\<close> replicas in service, which is what the override
  asks for; and of
  deployment \<open>dep\<close> only replicas in service that are verified.
\<close>

definition snapshot_ok :: "nat \<Rightarrow> nat \<Rightarrow> int \<Rightarrow> string set \<Rightarrow> container list \<Rightarrow> string list \<Rightarrow> routeOverride option \<Rightarrow> bool" where
  "snapshot_ok K m dep V cs ds o' \<longleftrightarrow> card (live_ids cs) \<le> K \<and>
     (\<forall>ov. o' = Some ov \<longrightarrow> o_desired ov = m \<and> m \<le> card (in_service cs ds ov) \<and>
        (\<forall>rep \<in> fst ` set (o_members ov). r_deployment rep = dep \<longrightarrow> r_container rep \<in> V))"

definition seen_ok :: "nat \<Rightarrow> nat \<Rightarrow> int \<Rightarrow> world \<Rightarrow> bool" where
  "seen_ok K m dep w \<longleftrightarrow> (\<forall>(cs, ds, o') \<in> set (seen w). snapshot_ok K m dep (set (verified w)) cs ds o')"

lemma snapshot_ok_mono: "snapshot_ok K m dep V cs ds o' \<Longrightarrow> V \<subseteq> V' \<Longrightarrow> snapshot_ok K m dep V' cs ds o'"
  unfolding snapshot_ok_def by blast

lemma live_ids_set: "live_ids cs = set (map c_id (filter (\<lambda>c. \<not> c_job c) cs))"
  by (auto simp: live_ids_def)

lemma finite_live [simp]: "finite (live_ids cs)"
  by (simp add: live_ids_def)

lemma among_up: "up w dep i \<Longrightarrow> among w cs \<Longrightarrow> \<exists>c \<in> set cs. c_id c = i \<and> c_running c"
  unfolding up_def among_def by (smt (verit, best) core_eqD image_iff)

lemma apart_up: "up w dep i \<Longrightarrow> i \<notin> F \<Longrightarrow> apart_from F k w cs \<Longrightarrow> \<exists>c \<in> set cs. c_id c = i \<and> c_running c"
  unfolding up_def apart_from_def by (smt (verit, best) core_eqD image_iff)

lemma seen_ok_quiet:
  assumes "quiet e w w'" "seen_ok K m dep w" "\<And>cs ds. among w cs \<Longrightarrow> set ds \<subseteq> set (drains w) \<Longrightarrow> snapshot_ok K m dep (set (verified w)) cs ds (override w)"
  shows "seen_ok K m dep w'"
proof -
  obtain new where new: "seen w' = seen w @ new" "\<forall>(cs, ds, o') \<in> set new. o' = override w \<and> set ds \<subseteq> set (drains w) \<and> among w cs"
    using assms(1) by (auto simp: quiet_def)
  have V: "set (verified w) \<subseteq> set (verified w')"
    using assms(1) by (simp add: quiet_def)
  show ?thesis
    using assms(2,3) new V snapshot_ok_mono[OF _ V] unfolding seen_ok_def by fastforce
qed

lemma seen_ok_building:
  assumes "building e F k w w'" "seen_ok K m dep w" "\<And>cs ds. apart_from F k w cs \<Longrightarrow> set ds \<subseteq> set (drains w) \<Longrightarrow> snapshot_ok K m dep (set (verified w)) cs ds (override w)"
  shows "seen_ok K m dep w'"
proof -
  obtain new where new: "seen w' = seen w @ new" "\<forall>(cs, ds, o') \<in> set new. o' = override w \<and> set ds \<subseteq> set (drains w) \<and> apart_from F k w cs"
    using assms(1) by (auto simp: building_def)
  have V: "set (verified w) \<subseteq> set (verified w')"
    using assms(1) by (simp add: building_def)
  show ?thesis
    using assms(2,3) new V snapshot_ok_mono[OF _ V] unfolding seen_ok_def by fastforce
qed

subsection \<open>Where a rolling deployment starts\<close>

definition spec_replicas :: "rollout \<Rightarrow> nat" where
  "spec_replicas r = a_replicas (d_spec (ro_d r))"

definition indexes :: "Replica list \<Rightarrow> nat set" where
  "indexes reps = r_index ` set reps"

definition cids :: "Replica list \<Rightarrow> string set" where
  "cids reps = r_container ` set reps"

text \<open>The replica slots of the old and the new version together.\<close>

definition slots :: "rollout \<Rightarrow> nat" where
  "slots r = card (indexes (ro_old r) \<union> {1..spec_replicas r})"

text \<open>
  The rollout as \<open>loadPrevious\<close> leaves it, for an application that is up: the previous version is
  complete, every one of its replicas runs and serves, and there is no container beside them but
  jobs and at most one that is still draining. Docker's ids are unique, and a container that drains is
  removed in the end; an agent that shuts down cancels the deployment's context.
\<close>

definition rolling_start :: "env \<Rightarrow> rollout \<Rightarrow> bool" where
  "rolling_start e r \<longleftrightarrow>
     \<not> ro_recreate r \<and> \<not> ro_retired r \<and> ro_adopted r = [] \<and> ro_in_service r = [] \<and> ro_fresh r = [] \<and>
     (a_strategy (d_spec (ro_d r)) = StrategyRolling \<or> ro_prev r = None) \<and>
     distinct (map r_index (ro_old r)) \<and> distinct (map r_container (ro_old r)) \<and>
     (\<forall>rep \<in> set (ro_old r). up (ro_world r) (r_deployment rep) (r_container rep) \<and> r_deployment rep \<noteq> d_id (ro_d r)) \<and>
     live_ids (containers (ro_world r)) \<subseteq> cids (ro_old r) \<union> set (drains (ro_world r)) \<and>
     card (live_ids (containers (ro_world r))) \<le> slots r + 1 \<and>
     map fst (ro_serving r) = ro_old r \<and>
     (case ro_prev r of
        None \<Rightarrow> ro_old r = [] \<and> override (ro_world r) = None
      | Some p \<Rightarrow> length (ro_old r) = a_replicas (d_spec p) \<and>
          override (ro_world r) = Some \<lparr>o_members = ro_serving r, o_desired = desired r\<rparr>) \<and>
     inj (new_id e) \<and> drains_remove e \<and> (\<forall>n. shutting_down e n \<longrightarrow> cancelled e n) \<and>
     ids_from e (calls (ro_world r)) \<inter> (cids (ro_old r) \<union> set (drains (ro_world r))) = {} \<and>
     seen (ro_world r) = []"

subsection \<open>Between two batches\<close>

text \<open>
  \<open>s\<close> is where the rollout started, \<open>X\<close> the replicas of the new version that are in service, \<open>Y\<close>
  the indexes whose old replica has been retired, \<open>E\<close> the containers that are on their way in or out.
\<close>

definition fwd :: "env \<Rightarrow> rollout \<Rightarrow> nat set \<Rightarrow> nat set \<Rightarrow> string set \<Rightarrow> rollout \<Rightarrow> bool" where
  "fwd e s X Y E r \<longleftrightarrow> (let w = ro_world r; w0 = ro_world s in
     \<not> ro_recreate r \<and> ro_adopted r = [] \<and> ro_in_service r = [] \<and> ro_prev r = ro_prev s \<and>
     d_id (ro_d r) = d_id (ro_d s) \<and> d_spec (ro_d r) = d_spec (ro_d s) \<and>
     ro_old r = filter (\<lambda>rep. r_index rep \<notin> Y) (ro_old s) \<and>
     distinct (map r_index (ro_fresh r)) \<and> distinct (map r_container (ro_fresh r)) \<and> indexes (ro_fresh r) = X \<and>
     X \<subseteq> {1..spec_replicas s} \<and> X \<inter> indexes (ro_old s) \<subseteq> Y \<and>
     calls w0 \<le> calls w \<and> cids (ro_fresh r) \<subseteq> ids_from e (calls w0) - ids_from e (calls w) \<and>
     (\<forall>rep \<in> set (ro_fresh r). r_deployment rep = d_id (ro_d s) \<and> up w (d_id (ro_d s)) (r_container rep)) \<and>
     cids (ro_fresh r) \<subseteq> set (verified w) \<and>
     (\<forall>rep \<in> set (ro_old r). up w (r_deployment rep) (r_container rep)) \<and>
     set (drains w) \<subseteq> set (drains w0) \<union> cids (ro_old s) \<and>
     live_ids (containers w) \<subseteq> cids (ro_old r) \<union> cids (ro_fresh r) \<union> set (drains w) \<union> E \<and>
     card (live_ids (containers w)) \<le> slots s + 1 \<and>
     fst ` set (ro_serving r) = set (ro_old r) \<union> set (ro_fresh r) \<and>
     (if ro_prev s = None \<and> X = {} then override w = None
      else override w = Some \<lparr>o_members = ro_serving r, o_desired = desired s\<rparr>) \<and>
     seen_ok (slots s + 1) (desired s) (d_id (ro_d s)) w)"

text \<open>Enough old and new replicas for what the override wants.\<close>

definition enough :: "rollout \<Rightarrow> nat set \<Rightarrow> nat set \<Rightarrow> bool" where
  "enough s X Y \<longleftrightarrow> desired s \<le> card (indexes (ro_old s) - Y) + card X \<or> (ro_prev s = None \<and> X = {})"

text \<open>Until an old replica is retired the old version is untouched.\<close>

definition intact :: "rollout \<Rightarrow> rollout \<Rightarrow> bool" where
  "intact s r \<longleftrightarrow> ro_retired r \<or> (\<forall>rep \<in> set (ro_old s). up (ro_world r) (r_deployment rep) (r_container rep))"

text \<open>What holds wherever the rollout stops: enough for what a failure leaves behind.\<close>

definition stopped_ok :: "env \<Rightarrow> rollout \<Rightarrow> rollout \<Rightarrow> bool" where
  "stopped_ok e s r \<longleftrightarrow>
     \<not> ro_recreate r \<and> ro_prev r = ro_prev s \<and> cids (ro_fresh r) \<subseteq> ids_from e (calls (ro_world s)) \<and>
     seen_ok (slots s + 1) (desired s) (d_id (ro_d s)) (ro_world r) \<and> intact s r"

lemmas fwdD = fwd_def[unfolded Let_def, THEN iffD1]

lemma card_indexes: "distinct (map r_index reps) \<Longrightarrow> card (indexes reps) = length reps"
  by (metis distinct_card indexes_def length_map set_map)

lemma card_cids: "distinct (map r_container reps) \<Longrightarrow> card (cids reps) = length reps"
  by (metis cids_def distinct_card length_map set_map)

lemma finite_index_sets [simp]: "finite (indexes reps)" "finite (cids reps)"
  by (simp_all add: indexes_def cids_def)

lemma rolling_startD:
  assumes "rolling_start e s"
  shows "distinct (map r_index (ro_old s))" "distinct (map r_container (ro_old s))" "inj (new_id e)" "drains_remove e"
    "ids_from e (calls (ro_world s)) \<inter> cids (ro_old s) = {}" "ids_from e (calls (ro_world s)) \<inter> set (drains (ro_world s)) = {}"
    "\<And>rep. rep \<in> set (ro_old s) \<Longrightarrow> r_deployment rep \<noteq> d_id (ro_d s)"
    "\<And>n. shutting_down e n \<Longrightarrow> cancelled e n"
  using assms unfolding rolling_start_def by auto

lemma fwd_start: "rolling_start e s \<Longrightarrow> fwd e s {} {} {} s \<and> intact s s \<and> enough s {} {}"
  unfolding rolling_start_def fwd_def Let_def intact_def enough_def
  by (auto simp: indexes_def cids_def seen_ok_def desired_def distinct_card length_map
      split: option.splits simp flip: set_map)

subsection \<open>The old and the new replicas, counted\<close>

lemma old_left:
  assumes "rolling_start e s" "fwd e s X Y E r"
  shows "length (ro_old r) = card (indexes (ro_old s) - Y)" "indexes (ro_old r) = indexes (ro_old s) - Y"
    "distinct (map r_index (ro_old r))" "distinct (map r_container (ro_old r))" "set (ro_old r) \<subseteq> set (ro_old s)"
proof -
  have old: "ro_old r = filter (\<lambda>rep. r_index rep \<notin> Y) (ro_old s)"
    using fwdD[OF assms(2)] by simp
  show "indexes (ro_old r) = indexes (ro_old s) - Y" "set (ro_old r) \<subseteq> set (ro_old s)"
    by (auto simp: old indexes_def)
  show d: "distinct (map r_index (ro_old r))" "distinct (map r_container (ro_old r))"
    using rolling_startD[OF assms(1)] by (simp_all add: old distinct_map_filter)
  show "length (ro_old r) = card (indexes (ro_old s) - Y)"
    using card_indexes[OF d(1)] \<open>indexes (ro_old r) = indexes (ro_old s) - Y\<close> by simp
qed

lemma old_fresh_disjoint:
  assumes "rolling_start e s" "fwd e s X Y E r"
  shows "cids (ro_old r) \<inter> cids (ro_fresh r) = {}" "cids (ro_old s) \<inter> ids_from e (calls (ro_world s)) = {}"
    "cids (ro_fresh r) \<inter> ids_from e (calls (ro_world r)) = {}" "ids_from e (calls (ro_world r)) \<subseteq> ids_from e (calls (ro_world s))"
    "cids (ro_old r) \<inter> ids_from e (calls (ro_world r)) = {}"
proof -
  have f: "cids (ro_fresh r) \<subseteq> ids_from e (calls (ro_world s)) - ids_from e (calls (ro_world r))"
      "calls (ro_world s) \<le> calls (ro_world r)"
    using fwdD[OF assms(2)] by simp_all
  show new: "ids_from e (calls (ro_world r)) \<subseteq> ids_from e (calls (ro_world s))"
    using f(2) by (rule ids_from_mono)
  show s: "cids (ro_old s) \<inter> ids_from e (calls (ro_world s)) = {}"
    using rolling_startD(5)[OF assms(1)] by blast
  have "cids (ro_old r) \<subseteq> cids (ro_old s)"
    using old_left(5)[OF assms] by (auto simp: cids_def)
  then show "cids (ro_old r) \<inter> cids (ro_fresh r) = {}" "cids (ro_old r) \<inter> ids_from e (calls (ro_world r)) = {}"
    using s f new by blast+
  show "cids (ro_fresh r) \<inter> ids_from e (calls (ro_world r)) = {}"
    using f by blast
qed

lemma serving_count:
  assumes "rolling_start e s" "fwd e s X Y E r"
  shows "card (cids (ro_old r) \<union> cids (ro_fresh r)) = card (indexes (ro_old s) - Y) + card X"
proof -
  have "card (cids (ro_fresh r)) = card X"
    using fwdD[OF assms(2)] card_cids[of "ro_fresh r"] card_indexes[of "ro_fresh r"] by simp
  then show ?thesis
    using card_Un_disjoint[OF _ _ old_fresh_disjoint(1)[OF assms]] card_cids[OF old_left(4)[OF assms]] old_left(1)[OF assms] by simp
qed

lemma slots_count:
  assumes "rolling_start e s" "fwd e s X X E r" "B \<subseteq> {1..spec_replicas s}" "B \<inter> X = {}"
  shows "length (ro_old r) + length (ro_fresh r) + card (B - indexes (ro_old s)) \<le> slots s"
proof -
  have X: "X \<subseteq> {1..spec_replicas s}" "card X = length (ro_fresh r)"
    using fwdD[OF assms(2)] card_indexes[of "ro_fresh r"] by auto
  then have fin: "finite X" "finite B"
    using assms(3) finite_subset by blast+
  have dis: "(indexes (ro_old s) - X) \<inter> X = {}" "((indexes (ro_old s) - X) \<union> X) \<inter> (B - indexes (ro_old s)) = {}"
    using assms(4) by auto
  have "card (indexes (ro_old s) - X) + card X + card (B - indexes (ro_old s))
      = card ((indexes (ro_old s) - X) \<union> X \<union> (B - indexes (ro_old s)))"
    using card_Un_disjoint[OF _ _ dis(1)] card_Un_disjoint[OF _ _ dis(2)] fin by simp
  also have "\<dots> \<le> slots s"
    unfolding slots_def using X(1) assms(3) by (intro card_mono) auto
  finally show ?thesis
    using old_left(1)[OF assms(1,2)] X(2) by simp
qed

lemma fwd_up: "fwd e s X Y E r \<Longrightarrow> rep \<in> set (ro_old r) \<union> set (ro_fresh r) \<Longrightarrow> \<exists>dep. up (ro_world r) dep (r_container rep)"
  by (drule fwdD) blast

lemma fwd_snapshot:
  assumes "rolling_start e s" "fwd e s X Y E r" "enough s X Y" "card (live_ids cs) \<le> slots s + 1"
    and "\<And>rep. rep \<in> set (ro_old r) \<union> set (ro_fresh r) \<Longrightarrow> \<exists>c \<in> set cs. c_id c = r_container rep \<and> c_running c"
    and "set ds \<subseteq> set (drains (ro_world r))"
  shows "snapshot_ok (slots s + 1) (desired s) (d_id (ro_d s)) (set (verified (ro_world r))) cs ds (override (ro_world r))"
proof (cases "ro_prev s = None \<and> X = {}")
  case True
  then show ?thesis
    using fwdD[OF assms(2)] assms(4) by (simp add: snapshot_ok_def)
next
  case False
  then have ov: "override (ro_world r) = Some \<lparr>o_members = ro_serving r, o_desired = desired s\<rparr>"
    and members: "fst ` set (ro_serving r) = set (ro_old r) \<union> set (ro_fresh r)"
    using fwdD[OF assms(2)] by auto
  have "in_service cs ds \<lparr>o_members = ro_serving r, o_desired = desired s\<rparr> = cids (ro_old r) \<union> cids (ro_fresh r)"
    using assms(5,6) fwd_up[OF assms(2)] by (auto simp: in_service_def members cids_def up_def)
  then have "desired s \<le> card (in_service cs ds \<lparr>o_members = ro_serving r, o_desired = desired s\<rparr>)"
    using serving_count[OF assms(1,2)] assms(3) False by (auto simp: enough_def)
  moreover have "r_container rep \<in> set (verified (ro_world r))"
    if "rep \<in> set (ro_old r) \<union> set (ro_fresh r)" "r_deployment rep = d_id (ro_d s)" for rep
    using that fwdD[OF assms(2)] rolling_startD(7)[OF assms(1)] old_left(5)[OF assms(1,2)] by (auto simp: cids_def)
  ultimately show ?thesis
    using assms(4) unfolding snapshot_ok_def ov by (auto simp flip: members)
qed

subsection \<open>Quiet steps and building steps keep the invariant\<close>

lemma fwd_live:
  "fwd e s X Y E r \<Longrightarrow> live_ids (containers (ro_world r)) \<subseteq> cids (ro_old r) \<union> cids (ro_fresh r) \<union> set (drains (ro_world r)) \<union> E"
  by (drule fwdD) (elim conjE, assumption)

lemma fwd_ids:
  "fwd e s X Y E r \<Longrightarrow> cids (ro_fresh r) \<subseteq> ids_from e (calls (ro_world s)) - ids_from e (calls (ro_world r))"
  by (drule fwdD) (elim conjE, assumption)

lemma fwd_frame: "fwd e s X Y E r \<Longrightarrow> \<not> ro_recreate r \<and> ro_adopted r = [] \<and> ro_in_service r = [] \<and> ro_prev r = ro_prev s \<and>
    d_id (ro_d r) = d_id (ro_d s) \<and> d_spec (ro_d r) = d_spec (ro_d s) \<and> ro_old r = filter (\<lambda>rep. r_index rep \<notin> Y) (ro_old s)"
  by (simp add: fwd_def Let_def)

lemma fwd_fresh_up: "fwd e s X Y E r \<Longrightarrow>
    \<forall>rep \<in> set (ro_fresh r). r_deployment rep = d_id (ro_d s) \<and> up (ro_world r) (d_id (ro_d s)) (r_container rep)"
  by (drule fwdD) (elim conjE, assumption)

lemma fwd_old_up: "fwd e s X Y E r \<Longrightarrow> \<forall>rep \<in> set (ro_old r). up (ro_world r) (r_deployment rep) (r_container rep)"
  by (drule fwdD) (elim conjE, assumption)

lemma fwd_drains: "fwd e s X Y E r \<Longrightarrow> set (drains (ro_world r)) \<subseteq> set (drains (ro_world s)) \<union> cids (ro_old s)"
  by (drule fwdD) (elim conjE, assumption)

lemma fwd_mono: "fwd e s X Y E r \<Longrightarrow> calls (ro_world s) \<le> calls (ro_world r) \<and> cids (ro_fresh r) \<subseteq> set (verified (ro_world r))"
  by (drule fwdD) (elim conjE, intro conjI; assumption)

lemma fwd_rotation: "fwd e s X Y E r \<Longrightarrow> indexes (ro_fresh r) = X \<and> fst ` set (ro_serving r) = set (ro_old r) \<union> set (ro_fresh r)"
  by (drule fwdD) (elim conjE, intro conjI; assumption)

lemma fwd_seen: "fwd e s X Y E r \<Longrightarrow> seen_ok (slots s + 1) (desired s) (d_id (ro_d s)) (ro_world r)"
  by (drule fwdD) (elim conjE, assumption)

lemma fwd_quiet:
  assumes "rolling_start e s" "fwd e s X Y E r" "enough s X Y" "quiet e (ro_world r) w'"
    and "d_id d = d_id (ro_d r)" "d_spec d = d_spec (ro_d r)"
  shows "fwd e s X Y E (r\<lparr>ro_world := w', ro_d := d\<rparr>)"
proof -
  note F = fwdD[OF assms(2)]
  have "snapshot_ok (slots s + 1) (desired s) (d_id (ro_d s)) (set (verified (ro_world r))) cs ds (override (ro_world r))"
    if "among (ro_world r) cs" "set ds \<subseteq> set (drains (ro_world r))" for cs ds
  proof (rule fwd_snapshot[OF assms(1-3) _ _ that(2)])
    have "live_ids cs \<subseteq> live_ids (containers (ro_world r))"
      using among_apart[OF that(1), of "{}"] by (auto simp: apart_from_def)
    then show "card (live_ids cs) \<le> slots s + 1"
      using F card_mono[OF finite_live] by (meson order_trans)
  qed (use fwd_up[OF assms(2)] among_up[OF _ that(1)] in blast)
  then have seen: "seen_ok (slots s + 1) (desired s) (d_id (ro_d s)) w'"
    using seen_ok_quiet[OF assms(4)] F by simp
  have live: "live_ids (containers w') \<subseteq> live_ids (containers (ro_world r))"
    using quiet_live[OF assms(4)] .
  have drained: "live_ids (containers w') \<inter> set (drains (ro_world r)) \<subseteq> set (drains w')"
    using assms(4) rolling_startD(4)[OF assms(1)] by (auto simp: quiet_def ids_def live_ids_def)
  have q: "override w' = override (ro_world r)" "calls (ro_world r) \<le> calls w'" "set (drains w') \<subseteq> set (drains (ro_world r))"
      "set (verified (ro_world r)) \<subseteq> set (verified w')"
    using assms(4) by (auto simp: quiet_def)
  have "card (live_ids (containers w')) \<le> slots s + 1"
    using F card_mono[OF finite_live live] by linarith
  moreover have "live_ids (containers w') \<subseteq> cids (ro_old r) \<union> cids (ro_fresh r) \<union> set (drains w') \<union> E"
    using fwd_live[OF assms(2)] live drained by blast
  moreover have "cids (ro_fresh r) \<subseteq> ids_from e (calls (ro_world s)) - ids_from e (calls w')"
    using fwd_ids[OF assms(2)] ids_from_mono[OF q(2)] by blast
  moreover have "up w' dep i" if "up (ro_world r) dep i" for dep i
    using up_upward[OF quiet_upward[OF assms(4)] that] .
  ultimately show ?thesis
    using F q seen assms(5,6) unfolding fwd_def Let_def by auto
qed

text \<open>\<open>k\<close> containers are created while nothing drains and there is room for them.\<close>

lemma fwd_building:
  assumes "rolling_start e s" "fwd e s X Y E0 r" "enough s X Y" "building e (ids_from e (calls (ro_world r))) k (ro_world r) w'"
    and "card (live_ids (containers (ro_world r))) + k \<le> slots s + 1" "drains (ro_world r) = []"
    and "live_ids (containers w') \<subseteq> live_ids (containers (ro_world r)) \<union> E" "E0 \<subseteq> E"
  shows "fwd e s X Y E (r\<lparr>ro_world := w'\<rparr>)"
proof -
  note F = fwdD[OF assms(2)]
  let ?F = "ids_from e (calls (ro_world r))"
  have out: "i \<notin> ?F" if "i \<in> cids (ro_old r) \<union> cids (ro_fresh r)" for i
    using that old_fresh_disjoint[OF assms(1,2)] by blast
  have bound: "card (live_ids cs) \<le> slots s + 1" if ap: "apart_from ?F k (ro_world r) cs" for cs
  proof -
    obtain S where S: "finite S" "card S \<le> k" "live_ids cs \<subseteq> live_ids (containers (ro_world r)) \<union> S"
      using ap by (auto simp: apart_from_def)
    then have "card (live_ids cs) \<le> card (live_ids (containers (ro_world r))) + card S"
      using card_mono[of "live_ids (containers (ro_world r)) \<union> S"] card_Un_le[of "live_ids (containers (ro_world r))" S]
      by (meson finite_Un finite_live order_trans)
    then show ?thesis
      using S(2) assms(5) by linarith
  qed
  have "snapshot_ok (slots s + 1) (desired s) (d_id (ro_d s)) (set (verified (ro_world r))) cs ds (override (ro_world r))"
    if "apart_from ?F k (ro_world r) cs" "set ds \<subseteq> set (drains (ro_world r))" for cs ds
  proof (rule fwd_snapshot[OF assms(1-3) bound[OF that(1)] _ that(2)])
    fix rep
    assume "rep \<in> set (ro_old r) \<union> set (ro_fresh r)"
    then obtain dep where "up (ro_world r) dep (r_container rep)" "r_container rep \<notin> ?F"
      using fwd_up[OF assms(2)] out unfolding cids_def by blast
    then show "\<exists>c \<in> set cs. c_id c = r_container rep \<and> c_running c"
      using apart_up that(1) by blast
  qed
  then have seen: "seen_ok (slots s + 1) (desired s) (d_id (ro_d s)) w'"
    using seen_ok_building[OF assms(4)] F by simp
  have q: "override w' = override (ro_world r)" "calls (ro_world r) \<le> calls w'" "drains w' = []"
      "set (verified (ro_world r)) \<subseteq> set (verified w')" "apart_from ?F k (ro_world r) (containers w')"
    using assms(4,6) by (auto simp: building_def)
  have keep: "up w' dep i" if i: "up (ro_world r) dep i" "i \<in> cids (ro_old r) \<union> cids (ro_fresh r)" for dep i
  proof -
    obtain c where c: "c \<in> set (containers (ro_world r))" "c_id c = i" "c_deployment c = dep" "c_running c"
      using i(1) by (auto simp: up_def)
    then obtain c' where "c' \<in> set (containers w')" "core c = core c'"
      using q(5) out[OF i(2)] assms(6) by (auto simp: apart_from_def)
    then show ?thesis
      using c core_eqD[of c c'] q(3) by (auto simp: up_def)
  qed
  have new: "cids (ro_fresh r) \<subseteq> ids_from e (calls (ro_world s)) - ids_from e (calls w')"
    using fwd_ids[OF assms(2)] ids_from_mono[OF q(2)] by blast
  have ups: "\<forall>rep \<in> set (ro_fresh r). r_deployment rep = d_id (ro_d s) \<and> up w' (d_id (ro_d s)) (r_container rep)"
      "\<forall>rep \<in> set (ro_old r). up w' (r_deployment rep) (r_container rep)"
    using keep fwd_fresh_up[OF assms(2)] fwd_old_up[OF assms(2)] by (auto simp: cids_def)
  have live: "live_ids (containers w') \<subseteq> cids (ro_old r) \<union> cids (ro_fresh r) \<union> set (drains w') \<union> E"
    using assms(6-8) fwd_live[OF assms(2)] by (simp add: q(3)) blast
  have le: "calls (ro_world s) \<le> calls w'" "cids (ro_fresh r) \<subseteq> set (verified w')"
    using fwd_mono[OF assms(2)] q(2,4) by auto
  note card = bound[OF q(5)]
  show ?thesis
    using assms(2) unfolding fwd_def Let_def
    by (elim conjE, intro conjI; (insert new ups live le card seen q(1,3), simp cong: if_cong; fail)?)
qed

text \<open>Steps of the rollout that only wait, sync or write: everything but the status stays.\<close>

definition calm_step :: "env \<Rightarrow> rollout \<Rightarrow> rollout \<Rightarrow> bool" where
  "calm_step e r r' \<longleftrightarrow> quiet e (ro_world r) (ro_world r') \<and>
     r' = r\<lparr>ro_world := ro_world r', ro_d := ro_d r'\<rparr> \<and>
     d_id (ro_d r') = d_id (ro_d r) \<and> d_spec (ro_d r') = d_spec (ro_d r)"

interpretation calm_law: preorder_law "calm_step e" for e
proof
  fix s t u
  show "calm_step e s s"
    by (simp add: calm_step_def quiet_refl)
  assume st: "calm_step e s t" "calm_step e t u"
  then have "u = s\<lparr>ro_world := ro_world u, ro_d := ro_d u\<rparr>"
    by (cases s; cases t; cases u) (simp add: calm_step_def)
  then show "calm_step e s u"
    using st quiet_trans by (auto simp: calm_step_def)
qed

lemma calm_on_world: "keeps (quiet e) m \<Longrightarrow> keeps (calm_step e) (on_world m)"
  unfolding keeps_def calm_step_def on_world_def by (auto split: prod.splits) (metis snd_conv)

lemma calm_transit: "to \<notin> {StatusActive, StatusSuperseded} \<Longrightarrow> keeps (calm_step e) (transit e to msg)"
proof -
  assume to: "to \<notin> {StatusActive, StatusSuperseded}"
  have step: "calm_step e r r'" if "transit e to msg r = (x, r')" for r r' x
  proof -
    obtain y w where y: "transitionWithError e (ro_d r) to msg (ro_world r) = (y, w)"
      by fastforce
    have "quiet e (ro_world r) w"
      using keeps_result[OF quiet_law.keeps_transition[OF to] y] .
    moreover have "d = (ro_d r)\<lparr>d_status := to\<rparr>" if "y = Inr d" for d
      using y that by (auto simp: transitionWithError_def andThen_def done_with_def fail_with_def split: if_splits prod.splits sum.splits)
    ultimately show ?thesis
      using that y
      by (cases y) (auto simp: transit_def with_state_def andThen_def on_world_def modify_def done_with_def calm_step_def)
  qed
  show ?thesis
    unfolding keeps_def using step by (metis surj_pair snd_conv)
qed

lemma calm_reach: "to \<notin> {StatusActive, StatusSuperseded} \<Longrightarrow> keeps (calm_step e) (reach e to)"
  unfolding reach_def by (auto intro!: keeps_with_state calm_transit calm_law.keeps_done)

lemma calm_sync: "keeps (calm_step e) (SyncRoutes e)"
  unfolding SyncRoutes_def by (intro keeps_with_state calm_on_world quiet_law.keeps_sync)

lemma fwd_calm:
  "rolling_start e s \<Longrightarrow> fwd e s X Y E r \<Longrightarrow> enough s X Y \<Longrightarrow> calm_step e r r' \<Longrightarrow> fwd e s X Y E r'"
  using fwd_quiet[of e s X Y E r "ro_world r'" "ro_d r'"] unfolding calm_step_def by metis

lemma intact_calm: "calm_step e r r' \<Longrightarrow> intact s r \<Longrightarrow> intact s r'"
proof -
  assume a: "calm_step e r r'" "intact s r"
  then have "ro_retired r' = ro_retired r"
    by (cases r; cases r') (simp add: calm_step_def)
  then show ?thesis
    using a up_upward[OF quiet_upward] by (auto simp: calm_step_def intact_def)
qed


subsection \<open>A batch comes up\<close>

lemma ids_from_new: "inj (new_id e) \<Longrightarrow> n < m \<Longrightarrow> new_id e n \<notin> ids_from e m"
  by (auto simp: ids_from_def inj_eq)

lemma createReplicas_distinct:
  assumes "createReplicas e d is w = ((created, er), w')" "inj (new_id e)"
  shows "distinct (map r_container created) \<and> calls w \<le> calls w' \<and>
    cids created \<subseteq> ids_from e (calls w) - ids_from e (calls w')"
  using assms(1)
proof (induction "is" arbitrary: w created)
  case Nil
  then show ?case by (auto simp: cids_def)
next
  case (Cons i "is")
  have mono: "calls w' \<ge> calls w"
    using createReplicas_building[OF Cons.prems order_refl] by (simp add: building_def)
  show ?case
  proof (cases "created = []")
    case True
    then show ?thesis using mono by (simp add: cids_def)
  next
    case False
    then obtain c w1 rep w2 created' where x: "CreateContainer e (d_id d) i w = (Inr c, w1)"
        "store_write e (AddReplica rep) w1 = (Inr (), w2)" "rep = \<lparr>r_deployment = d_id d, r_index = i, r_container = c, r_restarts = 0\<rparr>"
        "createReplicas e d is w2 = ((created', er), w')" "created = rep # created'"
      using Cons.prems by (auto simp: Let_def split: prod.splits sum.splits)
    have le: "calls w < calls w1" "calls w1 \<le> calls w2"
      using calls_create[OF x(1)] keeps_result[OF quiet_law.keeps_store_write x(2)] quiet_law.calm_added
      by (auto simp: quiet_def)
    note IH = Cons.IH[OF x(4)]
    have c: "c = new_id e (calls w)" "c \<notin> ids_from e (calls w2)" "c \<notin> ids_from e (calls w')" "c \<in> ids_from e (calls w)"
      using create_id[OF x(1)] ids_from_new[OF assms(2)] le IH by (auto simp: ids_from_def[of e "calls w"])
    moreover have "ids_from e (calls w2) \<subseteq> ids_from e (calls w)"
      using le by (intro ids_from_mono) simp
    ultimately show ?thesis
      using IH mono unfolding x(5) by (auto simp: cids_def x(3))
  qed
qed

lemma ensureReplicas_distinct:
  assumes "ensureReplicas e d is w = ((created, er), w')" "inj (new_id e)"
  shows "distinct (map r_container created) \<and> cids created \<subseteq> ids_from e (calls w) - ids_from e (calls w')"
proof -
  obtain created1 er1 w1 where c: "createReplicas e d is w = ((created1, er1), w1)"
    by (metis prod.exhaust)
  note D = createReplicas_distinct[OF c assms(2)]
  have "created = created1 \<and> calls w1 \<le> calls w'"
  proof (cases er1)
    case None
    then obtain y where "each (\<lambda>rep. StartContainer e (r_container rep)) created1 w1 = (y, w')" "created = created1"
      using assms(1) c by (auto simp: ensureReplicas_def split: prod.splits sum.splits)
    then show ?thesis
      using start_all[of e created1 w1 y w' UNIV] by (auto simp: building_def)
  qed (use assms(1) c in \<open>auto simp: ensureReplicas_def\<close>)
  then show ?thesis
    using D ids_from_mono[of "calls w1" "calls w'" e] by blast
qed

text \<open>A rollout that was not resumed has adopted nothing: \<open>bring\<close> is \<open>ensureReplicas\<close>.\<close>

lemma bring_fresh:
  assumes "ro_adopted r = []" "bring e is r = (x, r')"
  obtains created er w where "ensureReplicas e (ro_d r) is (ro_world r) = ((created, er), w)"
    "r' = r\<lparr>ro_world := w, ro_fresh := ro_fresh r @ created\<rparr>"
    "case er of Some y \<Rightarrow> x = Inl y | None \<Rightarrow> x = Inr (sort_key r_index created)"
proof -
  have none: "List.map_filter (\<lambda>i. at_index i (ro_adopted r)) is = []"
    by (simp add: assms(1) at_index_def map_filter_def)
  have all: "filter (\<lambda>i. at_index i (ro_adopted r) = None) is = is"
    by (simp add: assms(1) at_index_def)
  obtain created er w where c: "ensureReplicas e (ro_d r) is (ro_world r) = ((created, er), w)"
    by (metis prod.exhaust)
  show ?thesis
  proof (rule that[OF c])
    show "r' = r\<lparr>ro_world := w, ro_fresh := ro_fresh r @ created\<rparr>"
      "case er of Some y \<Rightarrow> x = Inl y | None \<Rightarrow> x = Inr (sort_key r_index created)"
      using assms(2) c all unfolding bring_def with_state_def Let_def none
      by (auto simp: andThen_def done_with_def engine_do_def modify_def fail_with_def split: option.splits)
  qed
qed

text \<open>
  A batch that may come next: distinct slots that are not in service yet, and either a single one or
  none that replaces an old replica.
\<close>

definition next_batch :: "rollout \<Rightarrow> nat set \<Rightarrow> nat list \<Rightarrow> bool" where
  "next_batch s X b \<longleftrightarrow> b \<noteq> [] \<and> distinct b \<and> set b \<subseteq> {1..spec_replicas s} \<and> set b \<inter> X = {} \<and>
     (length b = 1 \<or> set b \<inter> indexes (ro_old s) = {})"

lemma room_for_batch:
  assumes "rolling_start e s" "fwd e s X X {} r" "next_batch s X b" "drains (ro_world r) = []"
  shows "card (live_ids (containers (ro_world r))) + length b \<le> slots s + 1"
proof -
  have "live_ids (containers (ro_world r)) \<subseteq> cids (ro_old r) \<union> cids (ro_fresh r)"
    using fwd_live[OF assms(2)] assms(4) by simp
  then have "card (live_ids (containers (ro_world r))) \<le> card (cids (ro_old r) \<union> cids (ro_fresh r))"
    by (intro card_mono) auto
  also have "\<dots> \<le> card (cids (ro_old r)) + card (cids (ro_fresh r))"
    by (rule card_Un_le)
  also have "\<dots> \<le> length (ro_old r) + length (ro_fresh r)"
    unfolding cids_def by (intro add_mono) (metis card_length list.set_map length_map)+
  finally have live: "card (live_ids (containers (ro_world r))) \<le> length (ro_old r) + length (ro_fresh r)" .
  have b: "distinct b" "set b \<subseteq> {1..spec_replicas s}" "set b \<inter> X = {}" "length b = 1 \<or> set b \<inter> indexes (ro_old s) = {}"
    using assms(3) by (auto simp: next_batch_def)
  note c = slots_count[OF assms(1,2) b(2,3)]
  show ?thesis
  proof (cases "set b \<inter> indexes (ro_old s) = {}")
    case True
    then have "card (set b - indexes (ro_old s)) = length b"
      using b(1) by (metis Diff_triv distinct_card)
    then show ?thesis using live c by linarith
  next
    case False
    then show ?thesis using live c b(4) by linarith
  qed
qed


subsection \<open>The switch\<close>

definition retire_all :: "env \<Rightarrow> Replica list \<Rightarrow> world \<Rightarrow> world" where
  "retire_all e outs w = fold (\<lambda>rep w. snd (retireInBackground e (r_container rep) w)) outs w"

lemma each_retire:
  assumes "\<not> ro_recreate r"
  shows "each (retire_old e) outs r = (Inr (), r\<lparr>ro_old := filter (\<lambda>rep. r_index rep \<notin> indexes outs) (ro_old r),
     ro_world := retire_all e outs (ro_world r)\<rparr>)"
  using assms
proof (induction outs arbitrary: r)
  case Nil
  then show ?case by (simp add: done_with_def indexes_def retire_all_def)
next
  case (Cons rep outs)
  let ?r = "r\<lparr>ro_old := del_index (r_index rep) (ro_old r),
              ro_world := snd (retireInBackground e (r_container rep) (ro_world r))\<rparr>"
  have one: "retire_old e rep r = (Inr (), ?r)"
    using Cons.prems by (auto simp: retire_old_def with_state_def andThen_def modify_def done_with_def engine_do_def split: prod.splits)
  have same: "filter (\<lambda>rep. r_index rep \<notin> indexes outs) (del_index (r_index rep) (ro_old r))
      = filter (\<lambda>rep'. r_index rep' \<notin> indexes (rep # outs)) (ro_old r)"
    by (simp add: del_index_def indexes_def conj_commute)
  show ?case
    using Cons.IH[of ?r] Cons.prems same by (simp add: andThen_def one retire_all_def)
qed

text \<open>The drains after a round of retirements: all of them, or none if the agent is shutting down.\<close>

lemma retire_drains:
  "\<exists>ds. retire_all e outs w = w\<lparr>drains := ds\<rparr> \<and>
    set ds = (if shutting_down e (calls w) then set (drains w) else set (drains w) \<union> cids outs)"
proof (induction outs arbitrary: w)
  case Nil
  then show ?case by (auto simp: cids_def retire_all_def intro: exI[of _ "drains w"])
next
  case (Cons rep outs)
  show ?case
    using Cons[of "snd (retireInBackground e (r_container rep) w)"]
    by (auto simp: retireInBackground_def cids_def retire_all_def split: if_splits)
qed

lemma at_index_Some: "distinct (map r_index reps) \<Longrightarrow> at_index i reps = Some rep \<longleftrightarrow> rep \<in> set reps \<and> r_index rep = i"
  unfolding at_index_def by (rule find_Some_iff_distinct)

lemma at_index_None: "at_index i reps = None \<longleftrightarrow> i \<notin> indexes reps"
  by (auto simp: at_index_def find_None_iff' indexes_def)

lemma set_map_filter': "set (List.map_filter f xs) = {y. \<exists>x \<in> set xs. f x = Some y}"
  by (induction xs) (auto simp: map_filter_simps split: option.splits)

lemma outgoing_set:
  assumes "distinct (map r_index (ro_old r))"
  shows "set (outgoing_for ready r) = {rep \<in> set (ro_old r). ready = [] \<or> r_index rep \<in> indexes ready}"
  using at_index_Some[OF assms] by (auto simp: outgoing_for_def sortedReplicas_def set_map_filter' indexes_def)


text \<open>\<open>ready\<close> are replicas of the new version that are up and verified and not yet in service.\<close>

definition newcomers :: "env \<Rightarrow> rollout \<Rightarrow> nat set \<Rightarrow> Replica list \<Rightarrow> Replica list \<Rightarrow> world \<Rightarrow> bool" where
  "newcomers e s X before reps w \<longleftrightarrow>
     distinct (map r_index reps) \<and> distinct (map r_container reps) \<and> indexes reps \<inter> X = {} \<and>
     indexes reps \<subseteq> {1..spec_replicas s} \<and> cids reps \<subseteq> ids_from e (calls (ro_world s)) - ids_from e (calls w) \<and>
     cids reps \<inter> cids before = {} \<and>
     (\<forall>rep \<in> set reps. r_deployment rep = d_id (ro_d s) \<and> up w (d_id (ro_d s)) (r_container rep)) \<and>
     cids reps \<subseteq> set (verified w)"

lemma index_container:
  assumes "rolling_start e s" "fwd e s X Y E r" "rep \<in> set (ro_old r)" "rep' \<in> set (ro_old r)"
  shows "r_container rep = r_container rep' \<longleftrightarrow> rep = rep'" "r_index rep = r_index rep' \<longleftrightarrow> rep = rep'"
  using old_left(3,4)[OF assms(1,2)] assms(3,4) by (auto simp: distinct_map inj_on_def)

text \<open>The members of the rotation after the switch.\<close>

lemma serving_after_set:
  assumes "rolling_start e s" "fwd e s X Y E (r\<lparr>ro_fresh := before\<rparr>)" "set ready = set reps"
    and out: "set (outgoing_for ready r) = {rep \<in> set (ro_old r). r_index rep \<in> Z}"
  shows "fst ` set (serving_after ready r) = set (filter (\<lambda>rep. r_index rep \<notin> Y \<union> Z) (ro_old s)) \<union> set (before @ reps)"
proof -
  let ?out = "outgoing_for ready r"
  have serving: "fst ` set (ro_serving r) = set (ro_old r) \<union> set before"
    and old: "ro_old r = filter (\<lambda>rep. r_index rep \<notin> Y) (ro_old s)"
    using fwdD[OF assms(2)] by simp_all
  have o: "r_container rep \<in> r_container ` set ?out \<longleftrightarrow> r_index rep \<in> Z" if "rep \<in> set (ro_old r)" for rep
    using that index_container[OF assms(1,2)] unfolding out by (auto simp: image_iff)
  have f: "r_container rep \<notin> r_container ` set ?out" if "rep \<in> set before" for rep
    using that old_fresh_disjoint(1)[OF assms(1,2)] unfolding out by (auto simp: cids_def)
  have "fst ` set (serving_after ready r)
      = {rep \<in> fst ` set (ro_serving r). r_container rep \<notin> r_container ` set ?out} \<union> set ready"
    by (auto simp: serving_after_def Let_def image_iff) force+
  also have "\<dots> = {rep \<in> set (ro_old r). r_index rep \<notin> Z} \<union> set before \<union> set reps"
    using o f unfolding serving assms(3) by blast
  finally show ?thesis
    unfolding old by auto
qed

text \<open>Routed to the newcomers, with the outgoing replicas out of rotation and still running.\<close>

lemma fwd_routed:
  assumes "rolling_start e s" "fwd e s X Y (cids reps) (r\<lparr>ro_fresh := before\<rparr>)" "ro_fresh r = before @ reps"
    and new: "newcomers e s X before reps (ro_world r)" "set ready = set reps"
    and out: "set (outgoing_for ready r) = {rep \<in> set (ro_old r). r_index rep \<in> Z}"
    and Z: "(X \<union> indexes reps) \<inter> indexes (ro_old s) \<subseteq> Y \<union> Z" and some: "\<not> (ro_prev s = None \<and> X \<union> indexes reps = {})"
  shows "fwd e s (X \<union> indexes reps) (Y \<union> Z) (cids (outgoing_for ready r))
    (r\<lparr>ro_serving := serving_after ready r, ro_old := filter (\<lambda>rep. r_index rep \<notin> Y \<union> Z) (ro_old s),
       ro_world := (ro_world r)\<lparr>override := Some \<lparr>o_members = serving_after ready r, o_desired = desired s\<rparr>\<rparr>\<rparr>)"
proof -
  note F = fwdD[OF assms(2), simplified]
  note N = new(1)[unfolded newcomers_def]
  let ?old = "filter (\<lambda>rep. r_index rep \<notin> Y \<union> Z) (ro_old s)"
  have old: "ro_old r = filter (\<lambda>rep. r_index rep \<notin> Y) (ro_old s)"
    using F by simp
  have live: "live_ids (containers (ro_world r)) \<subseteq> cids ?old \<union> cids (before @ reps) \<union> set (drains (ro_world r)) \<union> cids (outgoing_for ready r)"
  proof -
    have "cids (ro_old r) \<subseteq> cids ?old \<union> cids (outgoing_for ready r)"
      unfolding cids_def out by (auto simp: old)
    moreover have "cids (before @ reps) = cids before \<union> cids reps"
      by (simp add: cids_def image_Un)
    ultimately show ?thesis
      using fwd_live[OF assms(2), simplified] by blast
  qed
  have d: "distinct (map r_index (before @ reps))" "distinct (map r_container (before @ reps))"
    using F N by (auto simp: indexes_def cids_def)
  show ?thesis
    using F N live d Z some serving_after_set[OF assms(1,2) new(2) out]
    unfolding fwd_def Let_def
    by (simp add: assms(3) up_def indexes_def cids_def image_Un seen_ok_def) auto
qed


text \<open>The outgoing replicas are handed to their drains.\<close>

lemma fwd_retired:
  assumes "rolling_start e s" "fwd e s X Y (cids outs) (r\<lparr>ro_old := filter (\<lambda>rep. r_index rep \<notin> Y) (ro_old s)\<rparr>)"
    and "set outs \<subseteq> set (ro_old s)" "indexes outs \<subseteq> Y" "\<not> shutting_down e (calls (ro_world r))"
    and "filter (\<lambda>rep. r_index rep \<notin> indexes outs) (ro_old r) = filter (\<lambda>rep. r_index rep \<notin> Y) (ro_old s)"
  shows "fwd e s X Y {} (r\<lparr>ro_retired := True, ro_old := filter (\<lambda>rep. r_index rep \<notin> indexes outs) (ro_old r),
     ro_world := retire_all e outs (ro_world r)\<rparr>)"
proof -
  note F = fwdD[OF assms(2), simplified]
  obtain ds where ds: "retire_all e outs (ro_world r) = (ro_world r)\<lparr>drains := ds\<rparr>" "set ds = set (drains (ro_world r)) \<union> cids outs"
    using retire_drains[of e outs "ro_world r"] assms(5) by auto
  have out: "cids outs \<subseteq> cids (ro_old s)"
    using assms(3) by (auto simp: cids_def)
  have fresh: "r_container rep \<notin> cids outs" if "rep \<in> set (ro_fresh r)" for rep
  proof -
    have "r_container rep \<in> ids_from e (calls (ro_world s))"
      using that fwd_ids[OF assms(2)] by (auto simp: cids_def)
    then show ?thesis
      using out old_fresh_disjoint(2)[OF assms(1,2)] by blast
  qed
  have old: "r_container rep \<notin> cids outs" if "rep \<in> set (ro_old s)" "r_index rep \<notin> Y" for rep
    using that assms(3,4) rolling_startD(2)[OF assms(1)] by (auto simp: cids_def indexes_def distinct_map inj_on_def)
  have up': "up ((ro_world r)\<lparr>drains := ds\<rparr>) dep i" if "up (ro_world r) dep i" "i \<notin> cids outs" for dep i
    using that by (auto simp: up_def ds(2))
  have live: "live_ids (containers (ro_world r)) \<subseteq> cids (filter (\<lambda>rep. r_index rep \<notin> Y) (ro_old s)) \<union> cids (ro_fresh r) \<union> set ds"
    using fwd_live[OF assms(2), simplified] ds(2) by blast
  have drains: "set ds \<subseteq> set (drains (ro_world s)) \<union> cids (ro_old s)"
    using fwd_drains[OF assms(2)] out ds(2) by auto
  have up_fresh: "\<forall>rep \<in> set (ro_fresh r). r_deployment rep = d_id (ro_d s) \<and>
      up ((ro_world r)\<lparr>drains := ds\<rparr>) (d_id (ro_d s)) (r_container rep)"
    using fwd_fresh_up[OF assms(2)] up' fresh by simp
  have up_old: "\<forall>rep \<in> set (filter (\<lambda>rep. r_index rep \<notin> Y) (ro_old s)). up ((ro_world r)\<lparr>drains := ds\<rparr>) (r_deployment rep) (r_container rep)"
    using fwd_old_up[OF assms(2)] up' old by simp
  have seen: "seen_ok (slots s + 1) (desired s) (d_id (ro_d s)) ((ro_world r)\<lparr>drains := ds\<rparr>)"
    using fwd_seen[OF assms(2)] by (simp add: seen_ok_def)
  show ?thesis
    using assms(2) unfolding fwd_def Let_def assms(6) ds(1)
    by (elim conjE, intro conjI; (insert live drains up_fresh up_old seen, simp cong: if_cong; fail)?)
qed

lemma fwd_retire_none:
  "fwd e s X Y {} r \<Longrightarrow> filter (\<lambda>rep. r_index rep \<notin> Y) (ro_old s) = filter (\<lambda>rep. r_index rep \<notin> Y') (ro_old s) \<Longrightarrow>
   X \<inter> indexes (ro_old s) \<subseteq> Y' \<Longrightarrow> fwd e s X Y' {} r"
  unfolding fwd_def Let_def by (elim conjE, intro conjI; (assumption | simp))

lemma stopped_from_fwd:
  assumes "fwd e s X Y E (r\<lparr>ro_old := old', ro_fresh := fr\<rparr>)" "cids (ro_fresh r) \<subseteq> ids_from e (calls (ro_world s))" "intact s r"
  shows "stopped_ok e s r"
  using fwdD[OF assms(1)] assms(2,3) by (simp add: stopped_ok_def)

lemma andThen_modify: "andThen (modify f) k r = k () (f r)"
  by (simp add: andThen_def modify_def done_with_def)

lemma andThen_route: "andThen (with_state (\<lambda>r. route_to (g r))) k r =
    k () (r\<lparr>ro_world := (ro_world r)\<lparr>override := Some \<lparr>o_members = g r, o_desired = desired r\<rparr>\<rparr>\<rparr>)"
  by (simp add: andThen_def with_state_def route_to_def update_world_def routeVia_def done_with_def)

lemma swap_ok:
  assumes start: "rolling_start e s" and F: "fwd e s X Y (cids reps) (r\<lparr>ro_fresh := before\<rparr>)" and fresh: "ro_fresh r = before @ reps"
    and new: "newcomers e s X before reps (ro_world r)" "set ready = set reps"
    and out: "set (outgoing_for ready r) = {rep \<in> set (ro_old r). r_index rep \<in> Z}"
    and Z: "(X \<union> indexes reps) \<inter> indexes (ro_old s) \<subseteq> Y \<union> Z"
    and enough: "enough s X Y" "enough s (X \<union> indexes reps) (Y \<union> Z)"
    and intact: "intact s r" and swap: "swap e ready r = (x, r')"
  shows "case x of Inl er \<Rightarrow> stopped_ok e s r' | Inr _ \<Rightarrow> fwd e s (X \<union> indexes reps) (Y \<union> Z) {} r' \<and> intact s r'"
proof (cases "ready = [] \<and> outgoing_for ready r = []")
  case True
  then have "x = Inr ()" "r' = r" and reps: "reps = []"
    using swap new(2) by (auto simp: swap_def with_state_def Let_def done_with_def)
  moreover have "filter (\<lambda>rep. r_index rep \<notin> Y) (ro_old s) = filter (\<lambda>rep. r_index rep \<notin> Y \<union> Z) (ro_old s)"
    using True out fwdD[OF F] by (auto intro!: filter_cong)
  moreover have "r\<lparr>ro_fresh := before\<rparr> = r"
    using fresh reps by (cases r) simp
  ultimately show ?thesis
    using fwd_retire_none[of e s X Y r "Y \<union> Z"] F Z intact by (simp add: reps indexes_def cids_def)
next
  case False
  let ?out = "outgoing_for ready r" and ?X = "X \<union> indexes reps" and ?Y = "Y \<union> Z"
  let ?old = "filter (\<lambda>rep. r_index rep \<notin> Y \<union> Z) (ro_old s)"
  note FD = fwdD[OF F, simplified]
  have outs: "set ?out \<subseteq> set (ro_old s)" "indexes ?out \<subseteq> ?Y"
    using FD unfolding indexes_def out by auto
  have prev: "ro_prev s \<noteq> None" if "?out \<noteq> []"
    using start outs(1) that by (auto simp: rolling_start_def split: option.splits)
  have some: "\<not> (ro_prev s = None \<and> ?X = {})"
    using False prev new(2) by (auto simp: indexes_def)
  define r2 where "r2 = r\<lparr>ro_serving := serving_after ready r,
     ro_world := (ro_world r)\<lparr>override := Some \<lparr>o_members = serving_after ready r, o_desired = desired s\<rparr>\<rparr>\<rparr>"
  define cut :: "rollout \<Rightarrow> rollout" where "cut = (\<lambda>r. r\<lparr>ro_old := ?old\<rparr>)"
  have F2: "fwd e s ?X ?Y (cids ?out) (cut r2)"
    using fwd_routed[OF start F fresh new out Z some] unfolding r2_def cut_def by (cases r) simp
  have desired: "desired r = desired s"
    using fwd_frame[OF F] by (simp add: desired_def split: option.split)
  have rest: "andThen (SyncRoutes e) (\<lambda>_.
      andThen (if ready \<noteq> [] \<and> ?out \<noteq> [] \<and> \<not> ro_recreate r then on_world (pause e) else done_with ()) (\<lambda>_.
      andThen (if ?out = [] then done_with () else andThen (modify (\<lambda>r. r\<lparr>ro_retired := True\<rparr>)) (\<lambda>_.
         if ro_prev r = None then fail_with NilDereference else each (retire_old e) ?out)) (\<lambda>_.
      on_world (ctx_err e)))) r2 = (x, r')"
  proof -
    have "desired (r\<lparr>ro_serving := serving_after ready r\<rparr>) = desired s"
      using desired by (simp add: desired_def cong: option.case_cong)
    then have d: "desired (r\<lparr>ro_serving := serving_after ready r\<rparr>) = desired s" .
    have "swap e ready r = andThen (modify (\<lambda>r. r\<lparr>ro_serving := serving_after ready r\<rparr>)) (\<lambda>_.
        andThen (with_state (\<lambda>r. route_to (ro_serving r))) (\<lambda>_. andThen (SyncRoutes e) (\<lambda>_.
        andThen (if ready \<noteq> [] \<and> ?out \<noteq> [] \<and> \<not> ro_recreate r then on_world (pause e) else done_with ()) (\<lambda>_.
        andThen (if ?out = [] then done_with () else andThen (modify (\<lambda>r. r\<lparr>ro_retired := True\<rparr>)) (\<lambda>_.
           if ro_prev r = None then fail_with NilDereference else each (retire_old e) ?out)) (\<lambda>_.
        on_world (ctx_err e)))))) r"
      unfolding swap_def Let_def by (subst with_state_def) (simp only: False if_False)
    then show ?thesis
      using swap by (subst (asm) andThen_modify, subst (asm) andThen_route) (simp add: r2_def d)
  qed
  have step: "fwd e s ?X ?Y (cids ?out) (cut r4) \<and> intact s r4 \<and> ro_fresh r4 = before @ reps \<and> ro_old r4 = ro_old r3 \<and> ro_prev r4 = ro_prev r3"
    if "fwd e s ?X ?Y (cids ?out) (cut r3)" "intact s r3" "calm_step e r3 r4" "ro_fresh r3 = before @ reps" for r3 r4
  proof -
    have c: "calm_step e (cut r3) (cut r4)"
      using that(3) unfolding calm_step_def cut_def by (cases r3; cases r4) simp
    show ?thesis
      using fwd_calm[OF start that(1) enough(2) c] intact_calm[OF that(3,2)] that(3,4)
      unfolding calm_step_def by (cases r3; cases r4) simp
  qed
  have I2: "intact s r2"
    using intact by (simp add: intact_def r2_def up_def)
  have ids: "cids (before @ reps) \<subseteq> ids_from e (calls (ro_world s))"
    using FD new(1) by (auto simp: newcomers_def cids_def)
  have stop: "stopped_ok e s r3" if "fwd e s ?X ?Y (cids ?out) (cut r3)" "intact s r3" "ro_fresh r3 = before @ reps" for r3
    using stopped_from_fwd[where X = ?X and Y = ?Y and E = "cids ?out" and r = r3 and old' = ?old and fr = "before @ reps"] that ids
    unfolding cut_def by (cases r3) simp
  have same2: "ro_fresh r2 = before @ reps" "ro_old r2 = ro_old r"
    using fresh by (simp_all add: r2_def)
  have go: "case x of Inl er \<Rightarrow> stopped_ok e s r' | Inr _ \<Rightarrow> fwd e s ?X ?Y {} r' \<and> intact s r'"
    if r4: "fwd e s ?X ?Y (cids ?out) (cut r4)" "intact s r4" "ro_fresh r4 = before @ reps" "ro_old r4 = ro_old r"
      and run: "andThen (if ?out = [] then done_with () else andThen (modify (\<lambda>r. r\<lparr>ro_retired := True\<rparr>)) (\<lambda>_.
         if ro_prev r = None then fail_with NilDereference else each (retire_old e) ?out)) (\<lambda>_. on_world (ctx_err e)) r4 = (x, r')" for r4
  proof (cases "?out = []")
    case True
    then have "cut r4 = r4"
      using r4(4) fwd_frame[OF F] out unfolding cut_def by (cases r4) (auto simp: filter_empty_conv intro!: filter_cong)
    then show ?thesis
      using run r4 stop[OF r4(1-3)] True
      by (auto simp: andThen_def done_with_def on_world_def ctx_err_def fail_with_def cids_def split: if_splits)
  next
    case False
    let ?r5 = "r4\<lparr>ro_retired := True, ro_old := filter (\<lambda>rep. r_index rep \<notin> indexes ?out) (ro_old r4),
      ro_world := retire_all e ?out (ro_world r4)\<rparr>"
    have "\<not> ro_recreate (r4\<lparr>ro_retired := True\<rparr>)"
      using fwd_frame[OF r4(1)] by (simp add: cut_def)
    then have "each (retire_old e) ?out (r4\<lparr>ro_retired := True\<rparr>) = (Inr (), ?r5)"
      using each_retire[of "r4\<lparr>ro_retired := True\<rparr>" e ?out] by simp
    then have ctx: "on_world (ctx_err e) ?r5 = (x, r')"
      using run False prev fwd_frame[OF F] by (auto simp: andThen_def modify_def done_with_def)
    have eq: "filter (\<lambda>rep. r_index rep \<notin> indexes ?out) (ro_old r4) = ?old"
    proof -
      have old: "ro_old r = filter (\<lambda>rep. r_index rep \<notin> Y) (ro_old s)"
        using fwd_frame[OF F] by simp
      have "r_index rep \<in> indexes ?out \<longleftrightarrow> r_index rep \<in> Z" if "rep \<in> set (ro_old r)" for rep
        using that unfolding indexes_def out by (auto simp: image_iff)
      then have "filter (\<lambda>rep. r_index rep \<notin> indexes ?out) (ro_old r) = filter (\<lambda>rep. r_index rep \<notin> Z) (ro_old r)"
        by (intro filter_cong) simp_all
      then show ?thesis
        unfolding r4(4) by (simp add: old conj_commute)
    qed
    obtain ds where ds: "retire_all e ?out (ro_world r4) = (ro_world r4)\<lparr>drains := ds\<rparr>"
      using retire_drains by blast
    show ?thesis
    proof (cases "cancelled e (calls (ro_world r4))")
      case True
      then have "x = Inl (Refusal ''context canceled'')" "r' = ?r5"
        using ctx by (auto simp: on_world_def ctx_err_def fail_with_def ds)
      then show ?thesis
        using stop[OF r4(1-3)] by (simp add: stopped_ok_def intact_def seen_ok_def ds)
    next
      case live: False
      then have "x = Inr ()" "r' = ?r5"
        using ctx by (auto simp: on_world_def ctx_err_def done_with_def ds)
      moreover have "fwd e s ?X ?Y {} ?r5"
        using fwd_retired[OF start r4(1)[unfolded cut_def] outs _ eq] rolling_startD(8)[OF start] live by blast
      ultimately show ?thesis by (simp add: intact_def)
    qed
  qed
  obtain y3 r3 where s3: "SyncRoutes e r2 = (y3, r3)"
    by fastforce
  note S3 = step[OF F2 I2 keeps_result[OF calm_sync s3] same2(1)]
  show ?thesis
  proof (cases y3)
    case (Inl er)
    then show ?thesis
      using rest s3 S3 stop[of r3] by (auto simp: andThen_def)
  next
    case (Inr u3)
    obtain y4 r4 where s4: "(if ready \<noteq> [] \<and> ?out \<noteq> [] \<and> \<not> ro_recreate r then on_world (pause e) else done_with ()) r3 = (y4, r4)"
      by fastforce
    have "keeps (calm_step e) (if ready \<noteq> [] \<and> ?out \<noteq> [] \<and> \<not> ro_recreate r then on_world (pause e) else done_with ())"
      by (simp add: calm_on_world quiet_law.keeps_ctx_err calm_law.keeps_done)
    from keepsD[OF this, of r3] have c4: "calm_step e r3 r4"
      unfolding s4 by simp
    have S4: "fwd e s ?X ?Y (cids ?out) (cut r4) \<and> intact s r4 \<and> ro_fresh r4 = before @ reps \<and> ro_old r4 = ro_old r"
      using step[OF _ _ c4] S3 same2 by simp
    show ?thesis
    proof (cases y4)
      case (Inl er)
      then show ?thesis
        using rest s3 Inr s4 S4 stop[of r4] by (auto simp: andThen_def)
    next
      case inr4: (Inr u4)
      show ?thesis
        using go[of r4] S4 rest s3 Inr s4 inr4 unfolding andThen_def[of "SyncRoutes e"]
          andThen_def[of "if ready \<noteq> [] \<and> ?out \<noteq> [] \<and> \<not> ro_recreate r then on_world (pause e) else done_with ()"]
        by auto
    qed
  qed
qed


subsection \<open>One batch\<close>

lemma building_up: "building e F k w w' \<Longrightarrow> up w dep i \<Longrightarrow> i \<notin> F \<Longrightarrow> up w' dep i"
proof -
  assume a: "building e F k w w'" "up w dep i" "i \<notin> F"
  obtain c where c: "c \<in> set (containers w)" "c_id c = i" "c_deployment c = dep" "c_running c" "i \<notin> set (drains w)"
    using a(2) by (auto simp: up_def)
  then obtain c' where "c' \<in> set (containers w')" "core c = core c'"
    using a(1,3) by (auto simp: building_def apart_from_def)
  then show ?thesis
    using c core_eqD[of c c'] a(1) by (auto simp: up_def building_def)
qed

lemma awaitDrains_done: "awaitDrains e w = (Inr u, w') \<Longrightarrow> drains w' = []"
  by (auto simp: awaitDrains_def Let_def done_with_def fail_with_def split: if_splits)

lemma awaitReady_verified: "awaitReady e a reps w = (Inr u, w') \<Longrightarrow> cids reps \<subseteq> set (verified w')"
  by (auto simp: awaitReady_def note_verified_def andThen_def done_with_def cids_def split: if_splits prod.splits sum.splits)

lemma calm_frame: "calm_step e r r' \<Longrightarrow> ro_old r' = ro_old r \<and> ro_fresh r' = ro_fresh r \<and> ro_serving r' = ro_serving r \<and>
    ro_adopted r' = ro_adopted r \<and> ro_retired r' = ro_retired r"
  by (cases r; cases r') (simp add: calm_step_def)

text \<open>The batch exists and runs, but is not in service yet.\<close>

definition brought :: "env \<Rightarrow> rollout \<Rightarrow> nat set \<Rightarrow> nat list \<Rightarrow> Replica list \<Rightarrow> Replica list \<Rightarrow> rollout \<Rightarrow> bool" where
  "brought e s X b before created r \<longleftrightarrow> fwd e s X X (cids created) (r\<lparr>ro_fresh := before\<rparr>) \<and> ro_fresh r = before @ created \<and>
     map r_index created = b \<and> distinct (map r_container created) \<and>
     cids created \<subseteq> ids_from e (calls (ro_world s)) - ids_from e (calls (ro_world r)) \<and> cids created \<inter> cids before = {} \<and>
     (\<forall>rep \<in> set created. r_deployment rep = d_id (ro_d s) \<and> up (ro_world r) (d_id (ro_d s)) (r_container rep)) \<and>
     intact s r"

lemma bring_ok:
  assumes "rolling_start e s" "fwd e s X X {} r" "enough s X X" "intact s r" "next_batch s X b"
    and "drains (ro_world r) = []" "bring e b r = (x, r')"
  shows "case x of Inl er \<Rightarrow> stopped_ok e s r'
    | Inr started \<Rightarrow> \<exists>created. set started = set created \<and> brought e s X b (ro_fresh r) created r'"
proof -
  let ?F = "ids_from e (calls (ro_world r))"
  have adopted: "ro_adopted r = []"
    using fwd_frame[OF assms(2)] by simp
  from adopted assms(7) obtain created er w where c: "ensureReplicas e (ro_d r) b (ro_world r) = ((created, er), w)"
    and r': "r' = r\<lparr>ro_world := w, ro_fresh := ro_fresh r @ created\<rparr>"
    and x: "case er of Some y \<Rightarrow> x = Inl y | None \<Rightarrow> x = Inr (sort_key r_index created)"
    by (rule bring_fresh)
  note B = ensureReplicas_building[OF c order_refl]
  note D = ensureReplicas_distinct[OF c rolling_startD(3)[OF assms(1)]]
  note J = old_fresh_disjoint[OF assms(1,2)]
  have ids: "cids created \<subseteq> ids_from e (calls (ro_world s)) - ids_from e (calls w)" "cids created \<inter> cids (ro_fresh r) = {}"
    using D J(3,4) by blast+
  have intact': "intact s (r\<lparr>ro_world := w, ro_fresh := fr\<rparr>)" for fr
  proof -
    have "r_container rep \<notin> ?F" if "rep \<in> set (ro_old s)" for rep
      using that J(2,4) by (auto simp: cids_def)
    then show ?thesis
      using assms(4) building_up[of e ?F "length b" "ro_world r" w] B(1) by (auto simp: intact_def)
  qed
  have fwd': "fwd e s X X E (r\<lparr>ro_world := w\<rparr>)" if "live_ids (containers w) \<subseteq> live_ids (containers (ro_world r)) \<union> E" for E
    using fwd_building[OF assms(1-3) _ room_for_batch[OF assms(1,2,5,6)] assms(6) that] B(1) by blast
  show ?thesis
  proof (cases er)
    case (Some y)
    have F: "fwd e s X X (live_ids (containers w)) (r\<lparr>ro_world := w\<rparr>)"
      by (rule fwd') blast
    have "stopped_ok e s r'"
    proof (rule stopped_from_fwd)
      show "fwd e s X X (live_ids (containers w)) (r'\<lparr>ro_old := ro_old r, ro_fresh := ro_fresh r\<rparr>)"
        using F unfolding r' by (cases r) simp
      show "cids (ro_fresh r') \<subseteq> ids_from e (calls (ro_world s))"
        using ids fwd_ids[OF assms(2)] by (auto simp: r' cids_def)
    qed (use intact' in \<open>simp add: r'\<close>)
    then show ?thesis using x Some by simp
  next
    case None
    have F: "fwd e s X X (cids created) (r'\<lparr>ro_fresh := ro_fresh r\<rparr>)"
      using fwd'[of "cids created"] B(2)[OF None] unfolding r' by (cases r) (simp add: cids_def)
    have "\<forall>rep \<in> set created. r_deployment rep = d_id (ro_d s) \<and> up w (d_id (ro_d s)) (r_container rep)"
      using B(1) B(3)[OF None] assms(6) fwd_frame[OF assms(2)] by auto
    then have "brought e s X b (ro_fresh r) created r'"
      using F B(2)[OF None] D ids intact' unfolding brought_def by (simp add: r')
    then show ?thesis
      using x None by (auto intro!: exI[of _ created])
  qed
qed

lemma brought_calm:
  assumes "rolling_start e s" "brought e s X b before created r" "enough s X X" "calm_step e r r'"
  shows "brought e s X b before created r'"
proof -
  have c: "calm_step e (r\<lparr>ro_fresh := before\<rparr>) (r'\<lparr>ro_fresh := before\<rparr>)"
    using assms(4) unfolding calm_step_def by (cases r; cases r') simp
  have q: "quiet e (ro_world r) (ro_world r')" "calls (ro_world r) \<le> calls (ro_world r')"
    using assms(4) by (auto simp: calm_step_def quiet_def)
  show ?thesis
    using assms(2) fwd_calm[OF assms(1) _ assms(3) c] intact_calm[OF assms(4)] calm_frame[OF assms(4)]
      up_upward[OF quiet_upward[OF q(1)]] ids_from_mono[OF q(2), of e] unfolding brought_def by auto
qed

lemma brought_stopped: "brought e s X b before created r \<Longrightarrow> stopped_ok e s r"
proof -
  assume a: "brought e s X b before created r"
  then have F: "fwd e s X X (cids created) (r\<lparr>ro_fresh := before\<rparr>)"
    by (simp add: brought_def)
  then have "fwd e s X X (cids created) (r\<lparr>ro_old := ro_old r, ro_fresh := before\<rparr>)"
    by (cases r) simp
  moreover have "cids (ro_fresh r) \<subseteq> ids_from e (calls (ro_world s))"
    using a fwd_ids[OF F] by (auto simp: brought_def cids_def)
  ultimately show ?thesis
    using a stopped_from_fwd unfolding brought_def by blast
qed


lemma fwd_stopped: "fwd e s X Y E r \<Longrightarrow> intact s r \<Longrightarrow> stopped_ok e s r"
  using fwd_frame[of e s X Y E r] fwd_ids[of e s X Y E r] fwd_seen[of e s X Y E r] unfolding stopped_ok_def by blast

lemma run_batch_ok:
  assumes start: "rolling_start e s" and F: "fwd e s X X {} r" and en: "enough s X X" "enough s (X \<union> set b) (X \<union> set b)"
    and I: "intact s r" and b: "next_batch s X b" and run: "run_batch e (f, b) r = (x, r')"
  shows "case x of Inl er \<Rightarrow> stopped_ok e s r' | Inr _ \<Rightarrow> fwd e s (X \<union> set b) (X \<union> set b) {} r' \<and> intact s r'"
proof -
  have run: "andThen (on_world (awaitDrains e)) (\<lambda>_. andThen (bring e b) (\<lambda>started.
     andThen (if f then reach e StatusHealthChecking else done_with ()) (\<lambda>_.
     andThen (with_state (\<lambda>r. on_world (awaitReady e (d_spec (ro_d r)) started))) (\<lambda>_. swap e started)))) r = (x, r')"
    using run by (simp add: run_batch_def)
  from run show ?thesis
  proof (cases rule: andThen_cases)
    case (fail er)
    have "calm_step e r r'"
      by (rule keeps_result[OF calm_on_world[OF quiet_law.keeps_awaitDrains] fail(1)])
    then show ?thesis
      using fail(2) fwd_stopped[OF fwd_calm[OF start F en(1)] intact_calm[OF _ I]] by simp
  next
    case (ok u1 r1)
    have c1: "calm_step e r r1"
      by (rule keeps_result[OF calm_on_world[OF quiet_law.keeps_awaitDrains] ok(1)])
    have F1: "fwd e s X X {} r1" "intact s r1"
      using fwd_calm[OF start F en(1) c1] intact_calm[OF c1 I] by simp_all
    have dr: "drains (ro_world r1) = []"
      using ok(1) awaitDrains_done by (auto simp: on_world_def split: prod.splits)
    from ok(2) show ?thesis
    proof (cases rule: andThen_cases)
      case (fail er)
      then show ?thesis
        using bring_ok[OF start F1(1) en(1) F1(2) b dr fail(1)] by simp
    next
      case (ok started r2)
      obtain created where cr: "set started = set created" "brought e s X b (ro_fresh r1) created r2"
        using bring_ok[OF start F1(1) en(1) F1(2) b dr ok(1)] by auto
      have calm3: "keeps (calm_step e) (if f then reach e StatusHealthChecking else done_with ())"
        by (simp add: calm_reach calm_law.keeps_done)
      from ok(2) show ?thesis
      proof (cases rule: andThen_cases)
        case (fail er)
        then show ?thesis
          using brought_stopped[OF brought_calm[OF start cr(2) en(1) keeps_result[OF calm3 fail(1)]]] by simp
      next
        case (ok u3 r3)
        have b3: "brought e s X b (ro_fresh r1) created r3"
          by (rule brought_calm[OF start cr(2) en(1) keeps_result[OF calm3 ok(1)]])
        have calm4: "keeps (calm_step e) (with_state (\<lambda>r. on_world (awaitReady e (d_spec (ro_d r)) started)))"
          by (intro keeps_with_state calm_on_world quiet_law.keeps_awaitReady)
        from ok(2) show ?thesis
        proof (cases rule: andThen_cases)
          case (fail er)
          then show ?thesis
            using brought_stopped[OF brought_calm[OF start b3 en(1) keeps_result[OF calm4 fail(1)]]] by simp
        next
          case (ok u4 r4)
          have b4: "brought e s X b (ro_fresh r1) created r4"
            by (rule brought_calm[OF start b3 en(1) keeps_result[OF calm4 ok(1)]])
          have v: "cids created \<subseteq> set (verified (ro_world r4))"
          proof -
            have "cids started \<subseteq> set (verified (ro_world r4))"
              using ok(1) by (auto simp: with_state_def on_world_def split: prod.splits dest: subsetD[OF awaitReady_verified])
            then show ?thesis using cr(1) by (simp add: cids_def)
          qed
          have ix: "indexes created = set b" "distinct (map r_index created)"
            using b4 b by (auto simp: brought_def next_batch_def indexes_def)
          have new: "newcomers e s X (ro_fresh r1) created (ro_world r4)"
            using b4 b v ix unfolding brought_def newcomers_def next_batch_def by auto
          have F4: "fwd e s X X (cids created) (r4\<lparr>ro_fresh := ro_fresh r1\<rparr>)"
            using b4 by (simp add: brought_def)
          have "distinct (map r_index (ro_old r4))"
            using old_left(3)[OF start F4] by simp
          moreover have "started \<noteq> []" "indexes started = set b"
            using cr(1) ix b by (auto simp: indexes_def next_batch_def)
          ultimately have out: "set (outgoing_for started r4) = {rep \<in> set (ro_old r4). r_index rep \<in> set b}"
            using outgoing_set by simp
          have "case x of Inl er \<Rightarrow> stopped_ok e s r' | Inr _ \<Rightarrow> fwd e s (X \<union> indexes created) (X \<union> set b) {} r' \<and> intact s r'"
            by (rule swap_ok[OF start F4 _ new cr(1) out _ en(1) _ _ ok(2)]) (use b4 ix en(2) in \<open>auto simp: brought_def\<close>)
          then show ?thesis unfolding ix(1) .
        qed
      qed
    qed
  qed
qed


subsection \<open>All batches\<close>

fun batches_from :: "rollout \<Rightarrow> nat set \<Rightarrow> nat list list \<Rightarrow> bool" where
  "batches_from s X [] \<longleftrightarrow> True"
| "batches_from s X (b # bs) \<longleftrightarrow> next_batch s X b \<and> enough s (X \<union> set b) (X \<union> set b) \<and> batches_from s (X \<union> set b) bs"

lemma each_batches:
  assumes "rolling_start e s" "fwd e s X X {} r" "enough s X X" "intact s r" "batches_from s X bs"
    and "length fs = length bs" "each (run_batch e) (zip fs bs) r = (x, r')"
  shows "case x of Inl er \<Rightarrow> stopped_ok e s r' | Inr _ \<Rightarrow> fwd e s (X \<union> set (concat bs)) (X \<union> set (concat bs)) {} r' \<and> intact s r'"
  using assms
proof (induction bs arbitrary: X r fs)
  case Nil
  then show ?case by (auto simp: done_with_def)
next
  case (Cons b bs)
  then obtain f fs' where fs: "fs = f # fs'" "length fs' = length bs"
    by (cases fs) auto
  obtain y r1 where y: "run_batch e (f, b) r = (y, r1)"
    by fastforce
  have one: "case y of Inl er \<Rightarrow> stopped_ok e s r1 | Inr _ \<Rightarrow> fwd e s (X \<union> set b) (X \<union> set b) {} r1 \<and> intact s r1"
    using run_batch_ok[OF Cons.prems(1-3) _ Cons.prems(4) _ y] Cons.prems(5) by simp
  show ?case
  proof (cases y)
    case (Inl er)
    then show ?thesis
      using one Cons.prems(7) y fs by (auto simp: andThen_def)
  next
    case (Inr u)
    have "each (run_batch e) (zip fs' bs) r1 = (x, r')"
      using Cons.prems(7) y fs Inr by (simp add: andThen_def)
    moreover have "X \<union> set b \<union> set (concat bs) = X \<union> set (concat (b # bs))"
      by auto
    ultimately show ?thesis
      using Cons.IH[OF Cons.prems(1), of "X \<union> set b" r1 fs'] one Inr Cons.prems(5) fs(2) by (cases x) simp_all
  qed
qed

lemma enough_replacing:
  assumes "rolling_start e s" "finite X" "ro_prev s \<noteq> None"
  shows "enough s X X"
proof -
  obtain p where p: "ro_prev s = Some p" "length (ro_old s) = a_replicas (d_spec p)"
    using assms(1,3) by (auto simp: rolling_start_def)
  have "card (indexes (ro_old s)) \<le> card (indexes (ro_old s) - X) + card X"
    using card_Un_le[of "indexes (ro_old s) - X" X] card_mono[of "(indexes (ro_old s) - X) \<union> X" "indexes (ro_old s)"] assms(2)
    by (auto intro: order_trans)
  then show ?thesis
    using card_indexes[OF rolling_startD(1)[OF assms(1)]] p by (simp add: enough_def desired_def)
qed

lemma enough_all: "enough s {1..spec_replicas s} Y"
  by (auto simp: enough_def desired_def spec_replicas_def split: option.splits)

lemma batches_from_singles:
  assumes "rolling_start e s" "finite X" "set is \<subseteq> {1..spec_replicas s}" "distinct is" "set is \<inter> X = {}" "ro_prev s \<noteq> None"
    and "batches_from s (X \<union> set is) rest"
  shows "batches_from s X (map (\<lambda>i. [i]) is @ rest)"
  using assms
proof (induction "is" arbitrary: X)
  case (Cons i "is")
  have "next_batch s X [i]" "enough s (X \<union> {i}) (X \<union> {i})"
    using Cons.prems enough_replacing[OF Cons.prems(1), of "X \<union> {i}"] by (auto simp: next_batch_def)
  moreover have "batches_from s (X \<union> {i}) (map (\<lambda>i. [i]) is @ rest)"
    using Cons.prems by (intro Cons.IH) auto
  ultimately show ?case by simp
qed simp

lemma batches_valid:
  assumes "rolling_start e s"
  shows "batches_from s {} (batches s)" "set (concat (batches s)) = {1..spec_replicas s}"
proof -
  let ?n = "spec_replicas s"
  define repl where "repl = filter (\<lambda>i. i \<in> indexes (ro_old s)) [1..<?n + 1]"
  define addl where "addl = filter (\<lambda>i. i \<notin> indexes (ro_old s)) [1..<?n + 1]"
  have b: "batches s = map (\<lambda>i. [i]) repl @ (if addl = [] then [] else [addl])"
    using assms unfolding batches_def Let_def rolling_start_def repl_def addl_def spec_replicas_def
    by (simp add: at_index_None)
  have u: "set repl \<union> set addl = {1..?n}"
    by (auto simp: repl_def addl_def)
  then show "set (concat (batches s)) = {1..?n}"
    unfolding b by auto
  have rest: "batches_from s (set repl) (if addl = [] then [] else [addl])"
  proof (cases "addl = []")
    case False
    then have "next_batch s (set repl) addl"
      by (auto simp: next_batch_def repl_def addl_def)
    then show ?thesis
      using False enough_all[of s] u by simp
  qed simp
  show "batches_from s {} (batches s)"
  proof (cases "ro_prev s = None")
    case True
    then have "repl = []"
      using assms by (auto simp: repl_def rolling_start_def indexes_def filter_empty_conv)
    then show ?thesis
      using rest unfolding b by simp
  next
    case False
    then show ?thesis
      unfolding b using assms rest by (intro batches_from_singles) (auto simp: repl_def)
  qed
qed

lemma replace_all_ok:
  assumes "rolling_start e s" "replace_all e s = (x, r')"
  shows "case x of Inl er \<Rightarrow> stopped_ok e s r' | Inr _ \<Rightarrow> \<exists>Y. fwd e s {1..spec_replicas s} Y {} r' \<and> ro_old r' = [] \<and> intact s r'"
proof -
  have room: "make_room e s = (Inr (), s)" and none: "ro_in_service s = []"
    using assms(1) by (auto simp: make_room_def with_state_def rolling_start_def done_with_def)
  have rest: "andThen (with_state (\<lambda>r. each (run_batch e) (mark_first (batches r)))) (\<lambda>_. swap e []) s = (x, r')"
    using assms(2) room none by (auto simp: replace_all_def andThen_def[of "make_room e"] andThen_def[of "with_state _"] with_state_def done_with_def)
  have len: "batches s \<noteq> [] \<Longrightarrow> length (True # replicate (length (batches s) - 1) False) = length (batches s)"
    by (cases "batches s") auto
  have all: "case y of Inl er \<Rightarrow> stopped_ok e s r1 | Inr _ \<Rightarrow> fwd e s {1..spec_replicas s} {1..spec_replicas s} {} r1 \<and> intact s r1"
    if "each (run_batch e) (mark_first (batches s)) s = (y, r1)" for y r1
  proof (cases "batches s = []")
    case True
    then have "{1..spec_replicas s} = {}"
      using batches_valid(2)[OF assms(1)] by simp
    then show ?thesis
      using that True fwd_start[OF assms(1)] by (auto simp: mark_first_def done_with_def)
  next
    case False
    have "case y of Inl er \<Rightarrow> stopped_ok e s r1
      | Inr _ \<Rightarrow> fwd e s ({} \<union> set (concat (batches s))) ({} \<union> set (concat (batches s))) {} r1 \<and> intact s r1"
      using fwd_start[OF assms(1)] that
      by (intro each_batches[OF assms(1) _ _ _ batches_valid(1)[OF assms(1)] len[OF False]]) (simp_all add: mark_first_def)
    then show ?thesis
      unfolding batches_valid(2)[OF assms(1)] Un_empty_left .
  qed
  from rest show ?thesis
  proof (cases rule: andThen_cases)
    case (fail er)
    then show ?thesis using all by (simp add: with_state_def)
  next
    case (ok u r1)
    have F1: "fwd e s {1..spec_replicas s} {1..spec_replicas s} {} r1" "intact s r1"
      using all[of "Inr u" r1] ok(1) by (simp_all add: with_state_def)
    have same: "r1\<lparr>ro_fresh := ro_fresh r1\<rparr> = r1"
      by (cases r1) simp
    have out: "set (outgoing_for [] r1) = {rep \<in> set (ro_old r1). r_index rep \<in> UNIV}"
      using outgoing_set[OF old_left(3)[OF assms(1) F1(1)]] by simp
    have "case x of Inl er \<Rightarrow> stopped_ok e s r'
      | Inr _ \<Rightarrow> fwd e s ({1..spec_replicas s} \<union> indexes []) ({1..spec_replicas s} \<union> UNIV) {} r' \<and> intact s r'"
      by (rule swap_ok[where before = "ro_fresh r1" and reps = "[]", OF assms(1) _ _ _ _ out _ _ _ F1(2) ok(2)])
        (use F1 enough_all in \<open>simp_all add: same newcomers_def cids_def indexes_def\<close>)
    moreover have "ro_old r' = []" if "fwd e s {1..spec_replicas s} UNIV {} r'"
      using fwd_frame[OF that] by simp
    ultimately show ?thesis
      by (auto simp: indexes_def split: sum.splits)
  qed
qed


subsection \<open>A failure before anything was retired\<close>

lemma building_remove_one:
  assumes "i \<in> F"
  shows "building e F 0 w (snd (removeContainer e i w))"
proof -
  obtain z w1 where z: "RemoveContainer e i w = (z, w1)"
    by fastforce
  have "building e F 0 w w1"
    using building_removal[OF assms, of e w] z by simp
  moreover have "building e F 0 w1 (snd (store_write e (MarkReplicaRemoved i) w1))"
    by (intro quiet_building keepsD[OF quiet_law.keeps_store_write] quiet_law.calm_removed)
  ultimately show ?thesis
    using building_trans[of e F 0 w w1 0] z by (cases z) (auto simp: removeContainer_def andThen_def)
qed

lemma removeAll_building:
  assumes "cids reps \<subseteq> F" "removeAll e reps r = (x, r')"
  shows "building e F 0 (ro_world r) (ro_world r')"
  using assms
proof (induction reps arbitrary: r)
  case Nil
  then show ?case by (simp add: removeAll_def done_with_def building_refl)
next
  case (Cons rep reps)
  let ?r1 = "r\<lparr>ro_world := snd (removeContainer e (r_container rep) (ro_world r))\<rparr>"
  have "removeAll e reps ?r1 = (x, r')"
  proof -
    obtain z w1 where "removeContainer e (r_container rep) (ro_world r) = (z, w1)"
      by fastforce
    then show ?thesis
      using Cons.prems(2) by (cases z) (simp_all add: removeAll_def andThen_def attempt_def on_world_def done_with_def)
  qed
  moreover have "building e F 0 (ro_world r) (ro_world ?r1)"
    using building_remove_one Cons.prems(1) by (simp add: cids_def)
  ultimately show ?case
    using Cons.IH[of ?r1] Cons.prems(1) building_trans[of e F 0 "ro_world r" _ 0 "ro_world r'"] by (auto simp: cids_def)
qed

lemma discard_keeps_up:
  assumes "cids reps \<subseteq> F" "i \<notin> F" "up (ro_world r) dep i" "discard e reps r = (x, r')"
  shows "up (ro_world r') dep i \<and> override (ro_world r') = None"
proof -
  let ?r1 = "r\<lparr>ro_world := clearRouteOverride (ro_world r)\<rparr>"
  obtain y r2 where y: "SyncRoutes e ?r1 = (y, r2)"
    by fastforce
  have "discard e reps r = removeAll e reps r2"
    using y by (cases y) (simp_all add: discard_def andThen_def update_world_def done_with_def attempt_def)
  then have b: "building e F 0 (ro_world r2) (ro_world r')"
    using removeAll_building[OF assms(1)] assms(4) by metis
  have q: "quiet e (ro_world ?r1) (ro_world r2)"
    using keeps_result[OF calm_sync y] by (simp add: calm_step_def)
  have "up (ro_world ?r1) dep i" "override (ro_world ?r1) = None"
    using assms(3) by (simp_all add: up_def clearRouteOverride_def)
  then show ?thesis
    using up_upward[OF quiet_upward[OF q]] building_up[OF b _ assms(2)] q b by (auto simp: quiet_def building_def)
qed

lemma abort_early:
  assumes "rolling_start e s" "stopped_ok e s r" "\<not> ro_retired r" "abort e cause r = (x, r')" "rep \<in> set (ro_old s)"
  shows "up (ro_world r') (r_deployment rep) (r_container rep) \<and> override (ro_world r') = None"
proof -
  let ?r1 = "r\<lparr>ro_failure := err_text cause\<rparr>"
  obtain y r2 where y: "transit e StatusFailed (err_text cause) ?r1 = (y, r2)"
    by fastforce
  have c: "calm_step e ?r1 r2"
    by (rule keeps_result[OF calm_transit y]) simp
  have same: "\<not> ro_retired r2" "\<not> ro_recreate r2" "ro_fresh r2 = ro_fresh r"
    using c assms(2,3) by (cases r; cases r2; simp add: calm_step_def stopped_ok_def)+
  then have "discard e (ro_fresh r) r2 = (x, r')"
    using assms(4) y by (cases y) (auto simp: abort_def andThen_def modify_def done_with_def attempt_def with_state_def)
  moreover have "r_container rep \<notin> ids_from e (calls (ro_world s))" "cids (ro_fresh r) \<subseteq> ids_from e (calls (ro_world s))"
    using rolling_startD(5)[OF assms(1)] assms(2,5) by (auto simp: cids_def stopped_ok_def)
  moreover have "up (ro_world r) (r_deployment rep) (r_container rep)"
    using assms(2,3,5) by (auto simp: stopped_ok_def intact_def)
  then have "up (ro_world r2) (r_deployment rep) (r_container rep)"
    using up_upward[OF quiet_upward] c by (fastforce simp: calm_step_def)
  ultimately show ?thesis
    by (intro discard_keeps_up)
qed

section \<open>Properties\<close>

text \<open>A server on which two replicas of the first version run and a second version is rolled out.\<close>

definition demo_replica :: "nat \<Rightarrow> string \<Rightarrow> Replica" where
  "demo_replica i c = \<lparr>r_deployment = 1, r_index = i, r_container = c, r_restarts = 0\<rparr>"

definition demo_container :: "nat \<Rightarrow> string \<Rightarrow> container" where
  "demo_container i c = \<lparr>c_id = c, c_deployment = 1, c_replica = i, c_running = True, c_job = False, c_named = True\<rparr>"

definition demo_old :: "Replica list" where
  "demo_old = [demo_replica 1 ''a'', demo_replica 2 ''b'']"

definition demo_next :: db where
  "demo_next = demo_transit 2 StatusBuilding StatusStarting (demo_transit 2 StatusPending StatusBuilding (demo_create demo_db))"

definition demo_rollout :: rollout where
  "demo_rollout = (newRollout (newest demo_next)
     \<lparr>database = demo_next, containers = [demo_container 1 ''a'', demo_container 2 ''b''], drains = [],
      override = Some \<lparr>o_members = map (\<lambda>rep. (rep, 8080)) demo_old, o_desired = 2\<rparr>, unsettled_ends = [], calls = 0,
      verified = [], seen = []\<rparr>)
     \<lparr>ro_prev := Some (newest demo_db), ro_old := demo_old, ro_serving := map (\<lambda>rep. (rep, 8080)) demo_old\<rparr>"

definition demo_env :: env where
  "demo_env = kind_env\<lparr>new_id := (\<lambda>n. replicate n CHR ''c'')\<rparr>"

lemma demo_rollout_start:
  assumes "new_id e = (\<lambda>n. replicate n CHR ''c'')" "drain_end_of e = (\<lambda>_ _. Removed)" "shutting_down e = (\<lambda>_. False)"
  shows "rolling_start e demo_rollout"
proof -
  have old: "ro_old demo_rollout = demo_old" "ro_serving demo_rollout = map (\<lambda>rep. (rep, 8080)) demo_old"
      "containers (ro_world demo_rollout) = [demo_container 1 ''a'', demo_container 2 ''b'']" "drains (ro_world demo_rollout) = []"
      "calls (ro_world demo_rollout) = 0" "seen (ro_world demo_rollout) = []" "ro_prev demo_rollout = Some (newest demo_db)"
    by (simp_all add: demo_rollout_def newRollout_def)
  have eval: "d_id (ro_d demo_rollout) = 2" "a_replicas (d_spec (newest demo_db)) = 2" "desired demo_rollout = 2"
      "a_strategy (d_spec (ro_d demo_rollout)) = StrategyRolling" "spec_replicas demo_rollout = 2"
      "\<not> ro_recreate demo_rollout" "\<not> ro_retired demo_rollout" "ro_adopted demo_rollout = []"
      "ro_in_service demo_rollout = []" "ro_fresh demo_rollout = []"
    by code_simp+
  have live: "live_ids (containers (ro_world demo_rollout)) = {''a'', ''b''}"
    by (simp add: live_ids_set old demo_container_def)
  have slots: "slots demo_rollout = 2"
  proof -
    have "indexes (ro_old demo_rollout) \<union> {1..spec_replicas demo_rollout} = {1, 2}"
      by (auto simp: indexes_def old demo_old_def demo_replica_def eval)
    then show ?thesis by (simp add: slots_def)
  qed
  have new: "inj (new_id e)" "ids_from e 0 \<inter> {''a'', ''b''} = {}"
    by (auto simp: assms(1) inj_on_def ids_from_def Cons_replicate_eq)
  have cids: "cids (ro_old demo_rollout) = {''a'', ''b''}"
    by (simp add: cids_def old demo_old_def demo_replica_def)
  have "up (ro_world demo_rollout) (r_deployment rep) (r_container rep) \<and> r_deployment rep \<noteq> 2" if "rep \<in> set demo_old" for rep
    using that by (auto simp: up_def old demo_old_def demo_replica_def demo_container_def)
  moreover have "override (ro_world demo_rollout) = Some \<lparr>o_members = ro_serving demo_rollout, o_desired = 2\<rparr>"
    by (simp add: demo_rollout_def newRollout_def)
  ultimately show ?thesis
    unfolding rolling_start_def using new
    by (simp add: eval slots old assms drains_remove_def demo_old_def demo_replica_def live_ids_set cids_def demo_container_def)
qed



lemma demo_env_start: "rolling_start demo_env demo_rollout"
  by (rule demo_rollout_start) (simp_all add: demo_env_def kind_env_def)


text \<open>What the run of this deployment showed, when everything is answered.\<close>

abbreviation demo_run :: rollout where
  "demo_run \<equiv> snd (replace_all demo_env demo_rollout)"


text \<open>
  C2: While a rolling deployment replaces the replicas of a running application, at every moment at
  least min(old, new) replicas are in the routing override, the list the proxy is configured from, with
  their containers running and none of them draining: serving capacity does not drop, whatever is refused
  or fails on the way. \<open>rolling_start\<close> is where this begins: the old version complete, running and in the
  override, and, as for C3, every drain ending with its container removed.
\<close>

theorem rolling_floor:
  assumes "rolling_start e r" "replace_all e r = (x, r')" "(cs, ds, Some ov) \<in> set (seen (ro_world r'))"
  shows "desired r \<le> card (in_service cs ds ov)"
proof -
  have "seen_ok (slots r + 1) (desired r) (d_id (ro_d r)) (ro_world r')"
    using replace_all_ok[OF assms(1,2)] fwd_seen by (auto simp: stopped_ok_def split: sum.splits)
  then show ?thesis
    using assms(3) by (auto simp: seen_ok_def snapshot_ok_def)
qed

theorem rolling_floor_witness:
  "2 \<le> card (in_service (fst (last (seen (ro_world demo_run)))) (fst (snd (last (seen (ro_world demo_run))))) (the (snd (snd (last (seen (ro_world demo_run)))))))"
proof -
  have "desired demo_rollout = 2" "seen (ro_world demo_run) \<noteq> []" "snd (snd (last (seen (ro_world demo_run)))) \<noteq> None"
    by code_simp+
  then have "(fst (last (seen (ro_world demo_run))), fst (snd (last (seen (ro_world demo_run)))), Some (the (snd (snd (last (seen (ro_world demo_run))))))) \<in> set (seen (ro_world demo_run))"
    by simp
  from rolling_floor [OF demo_env_start surjective_pairing this] \<open>desired demo_rollout = 2\<close> show ?thesis
    by simp
qed

text \<open>
  C4: A replica of the new version is in rotation only after it has been verified: healthy if the
  specification has a health check, otherwise running through the stabilization window.
\<close>

theorem only_verified_serve:
  assumes "rolling_start e r" "replace_all e r = (x, r')" "(cs, ds, Some ov) \<in> set (seen (ro_world r'))"
    and "(rep, port) \<in> set (o_members ov)" "r_deployment rep = d_id (ro_d r)"
  shows "r_container rep \<in> set (verified (ro_world r'))"
proof -
  have "seen_ok (slots r + 1) (desired r) (d_id (ro_d r)) (ro_world r')"
    using replace_all_ok[OF assms(1,2)] fwd_seen by (auto simp: stopped_ok_def split: sum.splits)
  moreover have "rep \<in> fst ` set (o_members ov)"
    using assms(4) by force
  ultimately show ?thesis
    using assms(3,5) by (fastforce simp: seen_ok_def snapshot_ok_def)
qed

theorem only_verified_serve_witness:
  "r_container (fst (hd (o_members (the (snd (snd (last (seen (ro_world demo_run))))))))) \<in> set (verified (ro_world demo_run))"
proof -
  let ?last = "last (seen (ro_world demo_run))"
  let ?m = "hd (o_members (the (snd (snd ?last))))"
  have "seen (ro_world demo_run) \<noteq> []" "snd (snd ?last) \<noteq> None" "o_members (the (snd (snd ?last))) \<noteq> []" "r_deployment (fst ?m) = 2"
      "d_id (ro_d demo_rollout) = 2"
    by code_simp+
  then have "(fst ?last, fst (snd ?last), Some (the (snd (snd ?last)))) \<in> set (seen (ro_world demo_run))"
      "(fst ?m, snd ?m) \<in> set (o_members (the (snd (snd ?last))))" "r_deployment (fst ?m) = d_id (ro_d demo_rollout)"
    by simp_all
  then show ?thesis
    by (rule only_verified_serve [OF demo_env_start surjective_pairing])
qed

text \<open>
  C5: When the replacing has gone through, no replica of the old version is left in the rollout, and
  the rotation consists of exactly the replicas 1 to n of the new version, each verified, running and
  not draining.
\<close>

theorem rolling_completes:
  assumes "rolling_start e r" "replace_all e r = (Inr u, r')"
  shows "ro_old r' = [] \<and> indexes (ro_fresh r') = {1..a_replicas (d_spec (ro_d r))} \<and>
    fst ` set (ro_serving r') = set (ro_fresh r') \<and>
    (\<forall>rep \<in> set (ro_fresh r'). up (ro_world r') (d_id (ro_d r)) (r_container rep) \<and> r_container rep \<in> set (verified (ro_world r')))"
proof -
  obtain Y where Y: "fwd e r {1..spec_replicas r} Y {} r'" "ro_old r' = []"
    using replace_all_ok[OF assms] by auto
  then show ?thesis
    using fwd_rotation[OF Y(1)] fwd_fresh_up[OF Y(1)] fwd_mono[OF Y(1)] by (auto simp: cids_def spec_replicas_def)
qed


theorem rolling_completes_witness: "ro_old demo_run = [] \<and> indexes (ro_fresh demo_run) = {1..2}"
proof -
  have "isl (fst (replace_all demo_env demo_rollout)) = False" "a_replicas (d_spec (ro_d demo_rollout)) = 2"
    by code_simp+
  then obtain u r' where r': "replace_all demo_env demo_rollout = (Inr u, r')" "a_replicas (d_spec (ro_d demo_rollout)) = 2"
    by (metis prod.collapse sum.collapse(2))
  show ?thesis
    using rolling_completes [OF demo_env_start r'(1)] r' by simp
qed

text \<open>
  C6: A rolling deployment that fails before anything was retired leaves the old version as it was:
  every one of its replicas still runs and drains nowhere, whatever is refused while the failed
  deployment is discarded, and the routing override is gone, so that the database decides again.
\<close>

theorem early_failure_leaves_old_version:
  assumes "rolling_start e r" "replace_all e r = (Inl er, r1)" "\<not> ro_retired r1" "abort e cause r1 = (y, r2)"
    and "rep \<in> set (ro_old r)"
  shows "up (ro_world r2) (r_deployment rep) (r_container rep) \<and> override (ro_world r2) = None"
  using replace_all_ok[OF assms(1,2)] abort_early[OF assms(1) _ assms(3-5)] by simp

definition demo_refusing :: env where
  "demo_refusing = demo_env\<lparr>answer_of := (\<lambda>_. Refused)\<rparr>"

theorem early_failure_leaves_old_version_witness:
  "up (ro_world (snd (abort demo_refusing refusal (snd (replace_all demo_refusing demo_rollout))))) 1 ''a''"
proof -
  have start: "rolling_start demo_refusing demo_rollout"
    by (rule demo_rollout_start) (simp_all add: demo_refusing_def demo_env_def kind_env_def)
  have "isl (fst (replace_all demo_refusing demo_rollout)) = True" "\<not> ro_retired (snd (replace_all demo_refusing demo_rollout))"
    by code_simp+
  then obtain er r1 where r1: "replace_all demo_refusing demo_rollout = (Inl er, r1)" "\<not> ro_retired r1"
    by (metis prod.collapse sum.collapse(1))
  have rep: "demo_replica 1 ''a'' \<in> set (ro_old demo_rollout)"
    by (simp add: demo_rollout_def demo_old_def)
  show ?thesis
    using early_failure_leaves_old_version [OF start r1 surjective_pairing rep] r1(1) by (simp add: demo_replica_def)
qed


end
