(* ===== verification/Rollback_Limits.thy ===== *)
theory Rollback_Limits
  imports Rollout
begin

text \<open>
  Two runs that show what a rollback does not promise
  (\<^verbatim>\<open>rollBack\<close> and \<^verbatim>\<open>rollBackRecreate\<close> of \<^verbatim>\<open>src/agent/internal/deploy/rollout.go\<close>). The bounds that
  \<open>Rolling\<close> proves hold while a deployment replaces replicas; a rollback restores all retired
  replicas at once, next to the new ones that still serve, and under the recreate strategy it goes
  on when the new version could not be removed.
\<close>

text \<open>
  Two replicas of the first version run, and a second version of two replicas has replaced one of
  them when the switch of the second one is refused. The rollback has four containers at
  a time: \<open>2N\<close>, not \<open>N + 1\<close>.
\<close>

lemma rollback_doubles_containers:
  "4 \<in> set (map (\<lambda>(cs, _). length cs) (seen (launch (refusing (\<lambda>n. n = 43)) [] (deploy_next demo_spec demo_world))))"
  by code_simp

text \<open>A first version deployed under the recreate strategy, one replica.\<close>

definition recreate_spec :: App where
  "recreate_spec = demo_spec\<lparr>a_strategy := StrategyRecreate, a_replicas := 1\<rparr>"

definition recreate_world :: world where
  "recreate_world = launch kind_env [] (deploy_next recreate_spec (empty_world empty_db))"

definition versions_running :: "container list \<Rightarrow> int list" where
  "versions_running cs = map c_deployment (filter c_running cs)"

text \<open>
  The proxy refuses the switch to the second version, and Docker refuses to stop and to remove its
  container. The deployment ends as rolled back, and both versions run over the same volumes.
\<close>

lemma recreate_rollback_runs_both:
  "(let w = launch (refusing (\<lambda>n. n = 30 \<or> 32 < n \<and> n < 36)) [] (deploy_next recreate_spec recreate_world)
    in (versions_running (containers w), map d_status (deployments (database w)))) = ([1, 2], [StatusActive, StatusRolledBack])"
  by code_simp

end
