(* ===== verification/Locks.thy ===== *)
theory Locks
  imports Go_Prelude
begin

text \<open>
  The engine's lock per application and its count of operations
  (\<^verbatim>\<open>src/agent/internal/deploy/engine.go\<close>): \<open>lock\<close>, \<open>tryLock\<close>, \<open>release\<close>, \<open>opDone\<close>, \<open>Wait\<close>,
  \<open>Shutdown\<close>, and the half of \<open>retireInBackground\<close> that counts a drain as an operation. Every one of
  them runs under the engine's mutex, so each is a step of its own; \<open>lock_step\<close> interleaves the steps of
  any number of goroutines.

  A channel is the number it was made with; it is only ever closed, never sent on. \<open>sync.Cond\<close>
  is the set of goroutines asleep on it: \<open>Broadcast\<close> wakes all of them, each then tests its condition
  again.
\<close>

section \<open>The engine's side\<close>

datatype lock_error = ErrBusy | ErrShuttingDown

record appLock =
  al_bySupervisor :: bool
  al_released :: nat

record engine =
  e_closed :: bool
  e_locks :: "string \<rightharpoonup> appLock"
  e_ops :: int
  e_made :: nat
  e_signalled :: "nat list"

definition new_engine :: engine where
  "new_engine = \<lparr>e_closed = False, e_locks = Map.empty, e_ops = 0, e_made = 0, e_signalled = []\<rparr>"

datatype lock_result = Acquired | WaitFor nat | LockError lock_error

definition tryLock :: "string \<Rightarrow> bool \<Rightarrow> engine \<Rightarrow> lock_result \<times> engine" where
  "tryLock app bySupervisor e =
     (if e_closed e then (LockError ErrShuttingDown, e)
      else case e_locks e app of
             Some held \<Rightarrow>
               if al_bySupervisor held \<and> \<not> bySupervisor then (WaitFor (al_released held), e)
               else (LockError ErrBusy, e)
           | None \<Rightarrow>
               (Acquired,
                e\<lparr>e_locks := (e_locks e)(app \<mapsto> \<lparr>al_bySupervisor = bySupervisor, al_released = e_made e\<rparr>),
                  e_made := e_made e + 1, e_ops := e_ops e + 1\<rparr>))"

definition release :: "string \<Rightarrow> engine \<Rightarrow> engine" where
  "release app e =
     (case e_locks e app of
        Some held \<Rightarrow> e\<lparr>e_signalled := al_released held # e_signalled e, e_locks := (e_locks e)(app := None)\<rparr>
      | None \<Rightarrow> e)"

text \<open>The second result: whether those who wait for the engine to be idle are woken.\<close>

definition opDone :: "engine \<Rightarrow> engine \<times> bool" where
  "opDone e = (e\<lparr>e_ops := e_ops e - 1\<rparr>, e_ops e - 1 = 0)"

text \<open>What \<open>retireInBackground\<close> does before it starts its goroutine; None when the engine is closed.\<close>

definition count_drain :: "engine \<Rightarrow> engine option" where
  "count_drain e = (if e_closed e then None else Some (e\<lparr>e_ops := e_ops e + 1\<rparr>))"

definition close_engine :: "engine \<Rightarrow> engine" where
  "close_engine e = e\<lparr>e_closed := True\<rparr>"

section \<open>The goroutines\<close>

text \<open>
  Where a goroutine stands: idle; in the loop of \<open>lock\<close>, waiting for a channel; in an operation with
  the lock of an application held; in an operation that has released it, or in a drain, which never had
  one; in \<open>Wait\<close>, about to test \<open>ops\<close> or asleep; past \<open>Wait\<close>.
\<close>

datatype proc = Idle | Waiting string nat | Holding string bool | Finishing | Testing | Asleep | Waited

fun busy :: "proc \<Rightarrow> bool" where
  "busy (Holding app s) = True"
| "busy Finishing = True"
| "busy p = False"

fun holds :: "string \<Rightarrow> proc \<Rightarrow> bool" where
  "holds app (Holding app' s) = (app = app')"
| "holds app p = False"

fun after_try :: "string \<Rightarrow> bool \<Rightarrow> lock_result \<Rightarrow> proc" where
  "after_try app s Acquired = Holding app s"
| "after_try app s (WaitFor c) = (if s then Idle else Waiting app c)"
| "after_try app s (LockError er) = Idle"

definition awake :: "proc \<Rightarrow> proc" where
  "awake p = (if p = Asleep then Testing else p)"

definition broadcast :: "bool \<Rightarrow> proc list \<Rightarrow> proc list" where
  "broadcast b ps = (if b then map awake ps else ps)"

text \<open>
  One step of one goroutine. \<open>lock\<close> (a user's operation) waits while the supervisor holds the
  application, the supervisor itself never waits; a wait ends with the release, the deadline or the
  caller's context. \<open>unlock\<close> is a release and then an \<open>opDone\<close>; \<open>launch\<close> does the two
  with the deployment's end written in between.
\<close>

inductive lock_step :: "engine \<times> proc list \<Rightarrow> engine \<times> proc list \<Rightarrow> bool" where
  take: "i < length ps \<Longrightarrow> ps ! i = Idle \<Longrightarrow> tryLock app s e = (res, e') \<Longrightarrow>
    lock_step (e, ps) (e', ps[i := after_try app s res])"
| wake: "i < length ps \<Longrightarrow> ps ! i = Waiting app c \<Longrightarrow> c \<in> set (e_signalled e) \<Longrightarrow> tryLock app False e = (res, e') \<Longrightarrow>
    lock_step (e, ps) (e', ps[i := after_try app False res])"
| give_up: "i < length ps \<Longrightarrow> ps ! i = Waiting app c \<Longrightarrow> lock_step (e, ps) (e, ps[i := Idle])"
| release: "i < length ps \<Longrightarrow> ps ! i = Holding app s \<Longrightarrow> lock_step (e, ps) (release app e, ps[i := Finishing])"
| op_done: "i < length ps \<Longrightarrow> ps ! i = Finishing \<Longrightarrow> opDone e = (e', b) \<Longrightarrow>
    lock_step (e, ps) (e', broadcast b (ps[i := Idle]))"
| drain: "i < length ps \<Longrightarrow> ps ! i = Idle \<Longrightarrow> count_drain e = Some e' \<Longrightarrow> lock_step (e, ps) (e', ps[i := Finishing])"
| close: "lock_step (e, ps) (close_engine e, ps)"
| wait: "i < length ps \<Longrightarrow> ps ! i = Idle \<Longrightarrow> lock_step (e, ps) (e, ps[i := Testing])"
| test: "i < length ps \<Longrightarrow> ps ! i = Testing \<Longrightarrow>
    lock_step (e, ps) (e, ps[i := (if e_ops e > 0 then Asleep else Waited)])"
| return: "i < length ps \<Longrightarrow> ps ! i = Waited \<Longrightarrow> lock_step (e, ps) (e, ps[i := Idle])"

text \<open>An agent that has just started, with \<open>n\<close> goroutines that may come.\<close>

definition lock_start :: "nat \<Rightarrow> engine \<times> proc list" where
  "lock_start n = (new_engine, replicate n Idle)"

section \<open>The invariant\<close>

definition many :: "('a \<Rightarrow> bool) \<Rightarrow> 'a list \<Rightarrow> nat" where
  "many P xs = length (filter P xs)"

lemma many_update:
  "i < length xs \<Longrightarrow> many P (xs[i := y]) + (if P (xs ! i) then 1 else 0) = many P xs + (if P y then 1 else 0)"
proof (induction xs arbitrary: i)
  case (Cons x xs)
  then show ?case
    by (cases i) (auto simp: many_def)
qed simp

lemma many_map: "(\<And>x. P (f x) = P x) \<Longrightarrow> many P (map f xs) = many P xs"
  by (simp add: many_def filter_map comp_def)

lemma many_0_iff: "many P xs = 0 \<longleftrightarrow> (\<forall>i < length xs. \<not> P (xs ! i))"
  by (auto simp: many_def filter_empty_conv all_set_conv_all_nth)

lemma many_1_unique:
  assumes "many P xs \<le> 1" "i < length xs" "j < length xs" "P (xs ! i)" "P (xs ! j)"
  shows "i = j"
proof (rule ccontr)
  assume "i \<noteq> j"
  then have "{i, j} \<subseteq> {k. k < length xs \<and> P (xs ! k)}" "card {i, j} = 2"
    using assms by auto
  then have "2 \<le> card {k. k < length xs \<and> P (xs ! k)}"
    by (metis card_mono finite_Collect_conjI finite_Collect_less_nat)
  then show False
    using assms(1) by (simp add: many_def length_filter_conv_card)
qed

lemma awake_simps [simp]: "busy (awake p) = busy p" "holds app (awake p) = holds app p" "awake p \<noteq> Asleep"
    "awake p = Waiting app c \<longleftrightarrow> p = Waiting app c" "awake p = Holding app s \<longleftrightarrow> p = Holding app s"
  by (cases p; simp add: awake_def)+

text \<open>
  The table of locks says who holds what; \<open>ops\<close> counts those in an operation; whoever waits for a
  channel will see it closed; nobody sleeps while the engine is idle.
\<close>

definition held_ok :: "engine \<Rightarrow> proc list \<Rightarrow> bool" where
  "held_ok e ps \<longleftrightarrow>
     (\<forall>app. many (holds app) ps = (if e_locks e app = None then 0 else 1)) \<and>
     (\<forall>i < length ps. \<forall>app s. ps ! i = Holding app s \<longrightarrow> map_option al_bySupervisor (e_locks e app) = Some s)"

definition count_ok :: "engine \<Rightarrow> proc list \<Rightarrow> bool" where
  "count_ok e ps \<longleftrightarrow> e_ops e = int (many busy ps)"

definition will_close :: "engine \<Rightarrow> string \<Rightarrow> nat \<Rightarrow> bool" where
  "will_close e app c \<longleftrightarrow>
     c \<in> set (e_signalled e) \<or> e_locks e app = Some \<lparr>al_bySupervisor = True, al_released = c\<rparr>"

definition wait_ok :: "engine \<Rightarrow> proc list \<Rightarrow> bool" where
  "wait_ok e ps \<longleftrightarrow> (\<forall>i < length ps. \<forall>app c. ps ! i = Waiting app c \<longrightarrow> will_close e app c)"

definition sleep_ok :: "engine \<Rightarrow> proc list \<Rightarrow> bool" where
  "sleep_ok e ps \<longleftrightarrow> (\<forall>i < length ps. ps ! i = Asleep \<longrightarrow> e_ops e > 0)"


lemma tryLock_cases [consumes 1, case_names closed waits refused acquired]:
  assumes "tryLock app s e = (res, e')"
  obtains "e_closed e" "res = LockError ErrShuttingDown" "e' = e"
  | l where "e_locks e app = Some l" "al_bySupervisor l" "\<not> s" "res = WaitFor (al_released l)" "e' = e"
  | "e_locks e app \<noteq> None" "res = LockError ErrBusy" "e' = e"
  | "\<not> e_closed e" "e_locks e app = None" "res = Acquired"
    "e' = e\<lparr>e_locks := (e_locks e)(app \<mapsto> \<lparr>al_bySupervisor = s, al_released = e_made e\<rparr>), e_made := e_made e + 1, e_ops := e_ops e + 1\<rparr>"
proof (cases "e_closed e")
  case True
  show ?thesis
    by (rule that(1)) (use assms True in \<open>auto simp: tryLock_def\<close>)
next
  case open': False
  show ?thesis
  proof (cases "e_locks e app")
    case None
    show ?thesis
      by (rule that(4)) (use assms open' None in \<open>auto simp: tryLock_def\<close>)
  next
    case (Some l)
    show ?thesis
    proof (cases "al_bySupervisor l \<and> \<not> s")
      case True
      show ?thesis
        by (rule that(2)[of l]) (use assms open' Some True in \<open>auto simp: tryLock_def\<close>)
    next
      case False
      show ?thesis
        by (rule that(3)) (use assms open' Some False in \<open>auto simp: tryLock_def\<close>)
    qed
  qed
qed

lemma many_holds_update:
  "i < length ps \<Longrightarrow> \<not> holds app (ps ! i) \<Longrightarrow> \<not> holds app p \<Longrightarrow> many (holds app) (ps[i := p]) = many (holds app) ps"
  using many_update[of i ps "holds app" p] by simp

lemma held_ok_neutral:
  assumes "held_ok e ps" "i < length ps" "\<And>app. \<not> holds app (ps ! i)" "\<And>app. \<not> holds app p" "e_locks e' = e_locks e"
  shows "held_ok e' (ps[i := p])"
proof -
  have "ps[i := p] ! j = Holding app s \<longrightarrow> ps ! j = Holding app s" if "j < length ps" for j app s
    using assms(4)[of app] that by (cases "i = j") auto
  then show ?thesis
    using assms by (auto simp: held_ok_def many_holds_update)
qed

lemma held_ok_take:
  assumes "held_ok e ps" "i < length ps" "\<And>app. \<not> holds app (ps ! i)" "tryLock app s e = (res, e')"
  shows "held_ok e' (ps[i := after_try app s res])"
  using assms(4)
proof (cases rule: tryLock_cases)
  case acquired
  have "many (holds app') (ps[i := Holding app s]) = (if e_locks e' app' = None then 0 else 1)" for app'
    using many_update[OF assms(2), of "holds app'" "Holding app s"] assms(1,3) acquired by (auto simp: held_ok_def)
  moreover have "map_option al_bySupervisor (e_locks e' app') = Some s'"
    if "j < length ps" "ps[i := Holding app s] ! j = Holding app' s'" for j app' s'
  proof (cases "i = j")
    case False
    then have j: "ps ! j = Holding app' s'"
      using that by simp
    then have "app' \<noteq> app"
      using assms(1) acquired(2) that(1) by (force simp: held_ok_def)
    then show ?thesis
      using j assms(1) acquired that(1) by (auto simp: held_ok_def)
  qed (use that assms(2) acquired in auto)
  ultimately show ?thesis
    using acquired by (simp add: held_ok_def)
qed (use assms in \<open>auto intro!: held_ok_neutral\<close>)

lemma held_ok_release:
  assumes "held_ok e ps" "i < length ps" "ps ! i = Holding app s"
  shows "held_ok (release app e) (ps[i := Finishing])"
proof -
  have "map_option al_bySupervisor (e_locks e app) = Some s"
    using assms unfolding held_ok_def by blast
  then obtain l where l: "e_locks e app = Some l"
    by auto
  have one: "many (holds app) ps = 1"
    using assms(1) l by (simp add: held_ok_def)
  have "many (holds app') (ps[i := Finishing]) = (if e_locks (release app e) app' = None then 0 else 1)" for app'
    using many_update[OF assms(2), of "holds app'" Finishing] assms l by (auto simp: held_ok_def release_def)
  moreover have "map_option al_bySupervisor (e_locks (release app e) app') = Some s'"
    if "j < length ps" "ps[i := Finishing] ! j = Holding app' s'" for j app' s'
  proof -
    have j: "j \<noteq> i" "ps ! j = Holding app' s'"
      using that assms(2) by (cases "i = j"; simp)+
    then have "app' \<noteq> app"
      using many_1_unique[of "holds app" ps i j] one assms(2,3) that(1) by auto
    then show ?thesis
      using j assms(1) l that(1) by (auto simp: held_ok_def release_def)
  qed
  ultimately show ?thesis
    by (simp add: held_ok_def)
qed

lemma held_ok_broadcast: "held_ok e ps \<Longrightarrow> held_ok e (broadcast b ps)"
  by (auto simp: held_ok_def broadcast_def many_map)

lemma held_ok_close: "held_ok (close_engine e) ps = held_ok e ps"
  by (simp add: held_ok_def close_engine_def)

lemma held_ok_step:
  assumes "lock_step (e, ps) (e', ps')" "held_ok e ps"
  shows "held_ok e' ps'"
  using assms(1)
proof (cases rule: lock_step.cases)
  case op_done
  then show ?thesis
    using assms(2) by (auto intro!: held_ok_broadcast held_ok_neutral simp: opDone_def)
qed (use assms(2) in \<open>auto intro!: held_ok_take held_ok_release held_ok_neutral simp: count_drain_def held_ok_close
    split: if_splits\<close>)


lemma update_nthD: "xs[i := x] ! j = y \<Longrightarrow> x = y \<or> xs ! j = y"
  by (cases "i < length xs"; cases "i = j") (auto simp: list_update_beyond)

lemma count_ok_update:
  assumes "count_ok e ps" "i < length ps"
    and "e_ops e' = e_ops e + (if busy p then 1 else 0) - (if busy (ps ! i) then 1 else 0)"
  shows "count_ok e' (ps[i := p])"
  using many_update[OF assms(2), of busy p] assms(1,3) by (auto simp: count_ok_def split: if_splits)

lemma count_ok_take:
  assumes "count_ok e ps" "i < length ps" "\<not> busy (ps ! i)" "tryLock app s e = (res, e')"
  shows "count_ok e' (ps[i := after_try app s res])"
  using assms(4) by (cases rule: tryLock_cases) (use assms(1-3) in \<open>auto intro!: count_ok_update\<close>)

lemma release_ops [simp]: "e_ops (release app e) = e_ops e" "e_closed (release app e) = e_closed e"
  by (simp_all add: release_def split: option.split)

lemma count_ok_broadcast: "count_ok e (broadcast b ps) = count_ok e ps"
  by (simp add: count_ok_def broadcast_def many_map)

lemma count_ok_close: "count_ok (close_engine e) ps = count_ok e ps"
  by (simp add: count_ok_def close_engine_def)

lemma count_ok_step:
  assumes "lock_step (e, ps) (e', ps')" "count_ok e ps"
  shows "count_ok e' ps'"
  using assms(1)
proof (cases rule: lock_step.cases)
  case take
  then show ?thesis
    using assms(2) count_ok_take by simp
next
  case wake
  then show ?thesis
    using assms(2) count_ok_take by simp
qed (use assms(2) in \<open>auto intro!: count_ok_update simp: count_drain_def count_ok_close count_ok_broadcast opDone_def
    split: if_splits\<close>)

lemma wait_ok_update:
  assumes "wait_ok e ps" "\<And>app c. p = Waiting app c \<Longrightarrow> will_close e' app c" "\<And>app c. will_close e app c \<Longrightarrow> will_close e' app c"
  shows "wait_ok e' (ps[i := p])"
  using assms unfolding wait_ok_def by (metis length_list_update update_nthD)

lemma wait_ok_take:
  assumes "wait_ok e ps" "tryLock app s e = (res, e')"
  shows "wait_ok e' (ps[i := after_try app s res])"
  using assms(2)
proof (cases rule: tryLock_cases)
  case (waits l)
  then have "will_close e app (al_released l)"
    by (cases l) (auto simp: will_close_def)
  then show ?thesis
    using waits assms(1) by (intro wait_ok_update) auto
next
  case acquired
  then show ?thesis
    using assms(1) by (intro wait_ok_update) (auto simp: will_close_def)
qed (use assms(1) in \<open>auto intro!: wait_ok_update\<close>)

lemma wait_ok_release: "wait_ok e ps \<Longrightarrow> wait_ok (release app e) (ps[i := Finishing])"
  by (erule wait_ok_update) (auto simp: will_close_def release_def split: option.splits)

lemma wait_ok_broadcast: "wait_ok e ps \<Longrightarrow> wait_ok e (broadcast b ps)"
  by (auto simp: wait_ok_def broadcast_def)

lemma wait_ok_step:
  assumes "lock_step (e, ps) (e', ps')" "wait_ok e ps"
  shows "wait_ok e' ps'"
  using assms(1)
proof (cases rule: lock_step.cases)
  case close
  then show ?thesis
    using assms(2) by (auto simp: wait_ok_def will_close_def close_engine_def)
next
  case op_done
  then show ?thesis
    using assms(2) by (auto intro!: wait_ok_broadcast wait_ok_update simp: opDone_def will_close_def)
qed (use assms(2) in \<open>auto intro!: wait_ok_take wait_ok_release wait_ok_update simp: count_drain_def will_close_def
    split: if_splits\<close>)

lemma sleep_ok_update:
  assumes "sleep_ok e ps" "p = Asleep \<Longrightarrow> e_ops e' > 0" "e_ops e \<le> e_ops e'"
  shows "sleep_ok e' (ps[i := p])"
  using assms unfolding sleep_ok_def by (metis length_list_update order_less_le_trans update_nthD)

lemma after_try_not_Asleep [simp]: "after_try app s res \<noteq> Asleep"
  by (cases "(app, s, res)" rule: after_try.cases) auto

lemma tryLock_ops: "tryLock app s e = (res, e') \<Longrightarrow> e_ops e \<le> e_ops e'"
  by (erule tryLock_cases) auto

lemma sleep_ok_step:
  assumes "lock_step (e, ps) (e', ps')" "sleep_ok e ps" "count_ok e ps"
  shows "sleep_ok e' ps'"
  using assms(1)
proof (cases rule: lock_step.cases)
  case (op_done i b)
  then have "many busy ps \<noteq> 0"
    by (auto simp: many_0_iff)
  then have "0 < e_ops e"
    using assms(3) by (simp add: count_ok_def)
  then show ?thesis
    using op_done assms(2) by (auto simp: sleep_ok_def broadcast_def opDone_def nth_list_update)
next
  case close
  then show ?thesis
    using assms(2) by (auto simp: sleep_ok_def close_engine_def)
qed (use assms(2) in \<open>auto intro!: sleep_ok_update dest: tryLock_ops simp: count_drain_def split: if_splits\<close>)


definition lock_inv :: "engine \<times> proc list \<Rightarrow> bool" where
  "lock_inv = (\<lambda>(e, ps). held_ok e ps \<and> count_ok e ps \<and> wait_ok e ps \<and> sleep_ok e ps)"

lemma lock_inv_start: "lock_inv (lock_start n)"
  by (simp add: lock_inv_def lock_start_def held_ok_def count_ok_def wait_ok_def sleep_ok_def new_engine_def many_def)

lemma lock_inv_step: "lock_step s t \<Longrightarrow> lock_inv s \<Longrightarrow> lock_inv t"
  by (cases s; cases t) (auto simp: lock_inv_def dest: held_ok_step count_ok_step wait_ok_step sleep_ok_step)

lemma lock_inv_reachable: "lock_step\<^sup>*\<^sup>* (lock_start n) s \<Longrightarrow> lock_inv s"
  by (induction rule: rtranclp_induct) (auto intro: lock_inv_start lock_inv_step)

section \<open>Properties\<close>

text \<open>A run of three goroutines: the supervisor takes an application, a user's operation waits for it.\<close>

definition demo_locked :: "engine \<times> proc list" where
  "demo_locked = (snd (tryLock ''api'' True new_engine), [Holding ''api'' True, Waiting ''api'' 0, Idle])"

lemma demo_locked_reachable: "lock_step\<^sup>*\<^sup>* (lock_start 3) demo_locked"
proof -
  let ?e = "snd (tryLock ''api'' True new_engine)"
  have "lock_step (new_engine, [Idle, Idle, Idle]) (?e, [Idle, Idle, Idle][0 := Holding ''api'' True])"
    using lock_step.take[of 0 "[Idle, Idle, Idle]" "''api''" True new_engine Acquired ?e]
    by (simp add: tryLock_def new_engine_def)
  moreover have "lock_step (?e, [Holding ''api'' True, Idle, Idle]) (?e, [Holding ''api'' True, Idle, Idle][1 := Waiting ''api'' 0])"
    using lock_step.take[of 1 "[Holding ''api'' True, Idle, Idle]" "''api''" False ?e "WaitFor 0" ?e]
    by (simp add: tryLock_def new_engine_def)
  ultimately show ?thesis
    by (simp add: lock_start_def demo_locked_def numeral_3_eq_3)
qed

text \<open>
  C14: Operations on one application never interleave: in every interleaving of deployments, stops,
  deletes and supervisor ticks at most one goroutine holds the application.
\<close>

theorem one_holder_per_application:
  assumes "lock_step\<^sup>*\<^sup>* (lock_start n) (e, ps)" "i < length ps" "j < length ps" "ps ! i = Holding app s" "ps ! j = Holding app t"
  shows "i = j"
proof (rule many_1_unique)
  show "many (holds app) ps \<le> 1"
    using lock_inv_reachable[OF assms(1)] by (simp add: lock_inv_def held_ok_def)
qed (use assms in auto)

theorem one_holder_per_application_witness: "(0::nat) = 0 \<and> snd demo_locked ! 0 = Holding ''api'' True"
  using one_holder_per_application [OF demo_locked_reachable [unfolded demo_locked_def], of 0 0 "''api''" True True]
  by (simp add: demo_locked_def)

text \<open>
  A run of the engine: one step of some goroutine after the other, or none for a while. \<open>lets_go\<close>: whoever holds
  an application does not hold it forever, which is what the deadlines of operations and of the supervisor's calls give.
\<close>

definition lock_run :: "nat \<Rightarrow> (nat \<Rightarrow> engine \<times> proc list) \<Rightarrow> bool" where
  "lock_run n \<sigma> \<longleftrightarrow> \<sigma> 0 = lock_start n \<and> (\<forall>k. lock_step (\<sigma> k) (\<sigma> (Suc k)) \<or> \<sigma> (Suc k) = \<sigma> k)"

definition lets_go :: "(nat \<Rightarrow> engine \<times> proc list) \<Rightarrow> bool" where
  "lets_go \<sigma> \<longleftrightarrow> (\<forall>k j app s. j < length (snd (\<sigma> k)) \<and> snd (\<sigma> k) ! j = Holding app s \<longrightarrow>
     (\<exists>m \<ge> k. snd (\<sigma> m) ! j \<noteq> Holding app s))"

lemma run_reaches: "lock_run n \<sigma> \<Longrightarrow> lock_step\<^sup>*\<^sup>* (lock_start n) (\<sigma> k)"
proof (induction k)
  case (Suc k)
  then show ?case
    by (metis lock_run_def rtranclp.rtrancl_into_rtrancl)
qed (simp add: lock_run_def)

lemma step_length: "lock_step (e, ps) (e', ps') \<Longrightarrow> length ps' = length ps"
  by (erule lock_step.cases) (auto simp: broadcast_def)

lemma run_length: "lock_run n \<sigma> \<Longrightarrow> length (snd (\<sigma> k)) = n"
proof (induction k)
  case (Suc k)
  have "length (snd (\<sigma> (Suc k))) = length (snd (\<sigma> k))"
    using Suc.prems step_length[of "fst (\<sigma> k)" "snd (\<sigma> k)" "fst (\<sigma> (Suc k))" "snd (\<sigma> (Suc k))"]
    unfolding lock_run_def by (metis prod.collapse)
  then show ?case using Suc by simp
qed (simp add: lock_run_def lock_start_def)

text \<open>The only step that takes an application from its holder is the release.\<close>

lemma leaves_by_release:
  assumes "lock_step (e, ps) (e', ps')" "j < length ps" "ps ! j = Holding app s" "ps' ! j \<noteq> Holding app s"
  shows "e' = release app e"
  using assms(1)
proof (cases rule: lock_step.cases)
  case (release i app' s')
  then show ?thesis using assms(2-4) by (cases "i = j") auto
next
  case (op_done i b)
  then show ?thesis using assms(2-4) by (cases "i = j") (auto simp: broadcast_def split: if_splits)
qed (use assms(2-4) in \<open>auto simp: nth_list_update split: if_splits\<close>)

lemma will_close_step:
  assumes "lock_step (e, ps) (e', ps')" "will_close e app c"
  shows "will_close e' app c"
  using assms(1)
proof (cases rule: lock_step.cases)
  case take
  from take(4) show ?thesis
    by (cases rule: tryLock_cases) (use assms(2) in \<open>auto simp: will_close_def\<close>)
next
  case wake
  from wake(5) show ?thesis
    by (cases rule: tryLock_cases) (use assms(2) in \<open>auto simp: will_close_def\<close>)
qed (use assms(2) in \<open>auto simp: will_close_def release_def opDone_def count_drain_def close_engine_def split: option.splits if_splits\<close>)

lemma will_close_run: "lock_run n \<sigma> \<Longrightarrow> will_close (fst (\<sigma> k)) app c \<Longrightarrow> k \<le> m \<Longrightarrow> will_close (fst (\<sigma> m)) app c"
proof (induction m)
  case (Suc m)
  show ?case
  proof (cases "k = Suc m")
    case False
    then have "will_close (fst (\<sigma> m)) app c" using Suc by simp
    moreover have "lock_step (\<sigma> m) (\<sigma> (Suc m)) \<or> \<sigma> (Suc m) = \<sigma> m" using Suc.prems(1) by (simp add: lock_run_def)
    ultimately show ?thesis
      using will_close_step[of "fst (\<sigma> m)" "snd (\<sigma> m)" "fst (\<sigma> (Suc m))" "snd (\<sigma> (Suc m))"] by auto
  qed (use Suc.prems in simp)
qed simp

lemma holder_of_lock:
  assumes "held_ok e ps" "e_locks e app = Some \<lparr>al_bySupervisor = True, al_released = c\<rparr>"
  shows "\<exists>j < length ps. ps ! j = Holding app True"
proof -
  have "many (holds app) ps \<noteq> 0"
    using assms by (simp add: held_ok_def)
  then obtain j where j: "j < length ps" "holds app (ps ! j)"
    by (auto simp: many_0_iff)
  then obtain s where s: "ps ! j = Holding app s"
    by (cases "ps ! j") auto
  then have "s = True"
    using assms j(1) by (auto simp: held_ok_def)
  with j s show ?thesis by auto
qed

text \<open>
  C15: Nobody waits forever for a wake-up that is gone. In every run in which nobody holds an application forever,
  whoever waits for an application will see its channel closed; and whoever sleeps in \<open>Wait\<close> does so only while some
  goroutine is in an operation.
\<close>

theorem no_lost_wake_up:
  assumes "lock_run n \<sigma>" "lets_go \<sigma>" "i < n"
  shows "(\<forall>app c. snd (\<sigma> k) ! i = Waiting app c \<longrightarrow> (\<exists>m \<ge> k. c \<in> set (e_signalled (fst (\<sigma> m))))) \<and>
    (snd (\<sigma> k) ! i = Asleep \<longrightarrow> (\<exists>j < n. busy (snd (\<sigma> k) ! j)))"
proof -
  have inv: "held_ok (fst (\<sigma> m)) (snd (\<sigma> m))" "count_ok (fst (\<sigma> m)) (snd (\<sigma> m))" "wait_ok (fst (\<sigma> m)) (snd (\<sigma> m))"
      "sleep_ok (fst (\<sigma> m)) (snd (\<sigma> m))" for m
    using lock_inv_reachable[OF run_reaches[OF assms(1)], of m] by (simp_all add: lock_inv_def split_beta)
  note len = run_length[OF assms(1)]
  have "\<exists>m \<ge> k. c \<in> set (e_signalled (fst (\<sigma> m)))" if w: "snd (\<sigma> k) ! i = Waiting app c" for app c
  proof (rule ccontr)
    assume never: "\<not> (\<exists>m \<ge> k. c \<in> set (e_signalled (fst (\<sigma> m))))"
    have "will_close (fst (\<sigma> k)) app c"
      using inv(3)[of k] w assms(3) len[of k] by (auto simp: wait_ok_def)
    then have locked: "e_locks (fst (\<sigma> m)) app = Some \<lparr>al_bySupervisor = True, al_released = c\<rparr>" if "k \<le> m" for m
      using will_close_run[OF assms(1) _ that] never that by (auto simp: will_close_def)
    obtain j where j: "j < n" "snd (\<sigma> k) ! j = Holding app True"
      using holder_of_lock[OF inv(1) locked[OF order_refl]] len by auto
    then obtain m where "m \<ge> k" "snd (\<sigma> m) ! j \<noteq> Holding app True"
      using assms(2) len[of k] unfolding lets_go_def by metis
    then obtain l where l: "k \<le> l" "snd (\<sigma> l) ! j = Holding app True" "snd (\<sigma> (Suc l)) ! j \<noteq> Holding app True"
      using j(2) by (induction m rule: dec_induct) auto
    then have "lock_step (\<sigma> l) (\<sigma> (Suc l))"
      using assms(1) by (metis lock_run_def)
    then have "fst (\<sigma> (Suc l)) = release app (fst (\<sigma> l))"
      using leaves_by_release[of "fst (\<sigma> l)" "snd (\<sigma> l)" "fst (\<sigma> (Suc l))" "snd (\<sigma> (Suc l))" j app True] l j(1) len by simp
    then have "e_locks (fst (\<sigma> (Suc l))) app = None"
      using locked[OF l(1)] by (simp add: release_def)
    then show False using locked[of "Suc l"] l(1) by simp
  qed
  moreover have "\<exists>j < n. busy (snd (\<sigma> k) ! j)" if "snd (\<sigma> k) ! i = Asleep"
  proof -
    have "e_ops (fst (\<sigma> k)) > 0"
      using inv(4)[of k] that assms(3) len[of k] by (simp add: sleep_ok_def)
    then have "many busy (snd (\<sigma> k)) \<noteq> 0"
      using inv(2)[of k] by (simp add: count_ok_def)
    then show ?thesis using len by (auto simp: many_0_iff)
  qed
  ultimately show ?thesis by blast
qed

text \<open>The run of before, in which the supervisor then lets go.\<close>

definition demo_run :: "nat \<Rightarrow> engine \<times> proc list" where
  "demo_run k = (let e = snd (tryLock ''api'' True new_engine) in
     if k = 0 then lock_start 3 else if k = 1 then (e, [Holding ''api'' True, Idle, Idle]) else if k = 2 then demo_locked
     else (release ''api'' e, [Finishing, Waiting ''api'' 0, Idle]))"

lemma demo_run_ok: "lock_run 3 demo_run" "lets_go demo_run"
proof -
  let ?e = "snd (tryLock ''api'' True new_engine)"
  have first: "lock_step (new_engine, [Idle, Idle, Idle]) (?e, [Idle, Idle, Idle][0 := Holding ''api'' True])"
    using lock_step.take[of 0 "[Idle, Idle, Idle]" "''api''" True new_engine Acquired ?e]
    by (simp add: tryLock_def new_engine_def)
  have second: "lock_step (?e, [Holding ''api'' True, Idle, Idle]) (?e, [Holding ''api'' True, Idle, Idle][1 := Waiting ''api'' 0])"
    using lock_step.take[of 1 "[Holding ''api'' True, Idle, Idle]" "''api''" False ?e "WaitFor 0" ?e]
    by (simp add: tryLock_def new_engine_def)
  have third: "lock_step (?e, [Holding ''api'' True, Waiting ''api'' 0, Idle])
      (release ''api'' ?e, [Holding ''api'' True, Waiting ''api'' 0, Idle][0 := Finishing])"
    by (rule lock_step.release) simp_all
  have "lock_step (demo_run k) (demo_run (Suc k)) \<or> demo_run (Suc k) = demo_run k" for k
    using first second third by (auto simp: demo_run_def lock_start_def demo_locked_def numeral_3_eq_3 Let_def)
  then show "lock_run 3 demo_run"
    by (simp add: lock_run_def demo_run_def Let_def)
  show "lets_go demo_run"
    unfolding lets_go_def
  proof (intro allI impI)
    fix k j app s
    assume "j < length (snd (demo_run k)) \<and> snd (demo_run k) ! j = Holding app s"
    then have "j < 3" by (auto simp: demo_run_def lock_start_def demo_locked_def Let_def split: if_splits)
    then have "snd (demo_run (k + 3)) ! j \<noteq> Holding app s"
      by (auto simp: demo_run_def Let_def less_Suc_eq numeral_3_eq_3)
    then show "\<exists>m \<ge> k. snd (demo_run m) ! j \<noteq> Holding app s" by (meson le_add1)
  qed
qed

theorem no_lost_wake_up_witness: "\<exists>m \<ge> 2. 0 \<in> set (e_signalled (fst (demo_run m)))"
proof -
  have "snd (demo_run 2) ! 1 = Waiting ''api'' 0"
    by (simp add: demo_run_def demo_locked_def Let_def)
  then show ?thesis
    using no_lost_wake_up [OF demo_run_ok, of 1 2] by simp
qed

lemma calm_update: "many busy ps = 0 \<Longrightarrow> \<not> busy p \<Longrightarrow> many busy (ps[i := p]) = 0"
  unfolding many_0_iff by (metis length_list_update update_nthD)

lemma calm_not_busy: "many busy ps = 0 \<Longrightarrow> i < length ps \<Longrightarrow> \<not> busy (ps ! i)"
  by (simp add: many_0_iff)

lemma closed_step:
  assumes "lock_step (e, ps) (e', ps')" "e_closed e" "many busy ps = 0"
  shows "e_closed e' \<and> many busy ps' = 0"
  using assms(1)
proof (cases rule: lock_step.cases)
  case (release i app s)
  then show ?thesis
    using calm_not_busy[OF assms(3), of i] by simp
next
  case (op_done i b)
  then show ?thesis
    using calm_not_busy[OF assms(3), of i] by simp
qed (use assms in \<open>auto simp: tryLock_def count_drain_def close_engine_def calm_update\<close>)

text \<open>
  C16: Once the engine is closed and its count of operations has come down to zero, which is what
  \<open>Shutdown\<close> waits for, no operation ever runs again: nobody takes an application, no drain starts.
\<close>

theorem shutdown_is_final:
  assumes "lock_step\<^sup>*\<^sup>* (lock_start n) (e, ps)" "e_closed e" "e_ops e = 0" "lock_step\<^sup>*\<^sup>* (e, ps) (e', ps')"
  shows "e_closed e' \<and> (\<forall>i < length ps'. \<not> busy (ps' ! i))"
proof -
  have "many busy ps = 0"
    using lock_inv_reachable[OF assms(1)] assms(3) by (simp add: lock_inv_def count_ok_def)
  with assms(4,2) have "e_closed e' \<and> many busy ps' = 0"
    by (induction rule: rtranclp_induct2) (auto dest: closed_step)
  then show ?thesis by (simp add: many_0_iff)
qed

theorem shutdown_is_final_witness: "busy ([Idle, Testing] ! 1) = False"
proof -
  have closed: "lock_step\<^sup>*\<^sup>* (lock_start 2) (close_engine new_engine, [Idle, Idle])"
    using lock_step.close[of new_engine "[Idle, Idle]"] by (simp add: lock_start_def numeral_2_eq_2)
  have "lock_step (close_engine new_engine, [Idle, Idle]) (close_engine new_engine, [Idle, Idle][1 := Testing])"
    by (rule lock_step.wait) simp_all
  then show ?thesis
    using shutdown_is_final [OF closed, of "close_engine new_engine" "[Idle, Testing]"]
    by (auto simp: close_engine_def new_engine_def)
qed

end
