(* ===== verification/Rate_Limit.thy ===== *)
theory Rate_Limit
  imports Go_Prelude "HOL-Library.Sublist"
begin

text \<open>
  The limit on failed authentications (\<^verbatim>\<open>src/agent/internal/api/ratelimit.go\<close>): per client address
  the times of the failures within the last minute, and until when the address is refused. The clock is a
  parameter of every call; Go's map is a map, its iteration in \<open>prune\<close> looks at every entry on its
  own. The mutex makes every call one step.
\<close>

section \<open>Definitions\<close>

definition failedAuthLimit :: nat where "failedAuthLimit = 20"
definition failedAuthWindow :: duration where "failedAuthWindow = minute"
definition rateLimitFor :: duration where "rateLimitFor = minute"
definition limiterPruneEvery :: duration where "limiterPruneEvery = minute"

record clientFailures =
  cf_failures :: "go_time list"
  cf_blockedUntil :: go_time

record rateLimiter =
  rl_clients :: "string \<rightharpoonup> clientFailures"
  rl_pruned :: go_time

definition newRateLimiter :: rateLimiter where
  "newRateLimiter = \<lparr>rl_clients = Map.empty, rl_pruned = zero_time\<rparr>"

definition new_client :: clientFailures where
  "new_client = \<lparr>cf_failures = [], cf_blockedUntil = zero_time\<rparr>"

definition recent :: "go_time \<Rightarrow> clientFailures \<Rightarrow> go_time list" where
  "recent now c = dropWhile (\<lambda>t. \<not> t > now - failedAuthWindow) (cf_failures c)"

definition prune :: "go_time \<Rightarrow> rateLimiter \<Rightarrow> rateLimiter" where
  "prune now l =
     (if time_sub now (rl_pruned l) < limiterPruneEvery then l
      else l\<lparr>rl_pruned := now,
             rl_clients := (\<lambda>addr. case rl_clients l addr of
                None \<Rightarrow> None
              | Some c \<Rightarrow> if recent now c = [] \<and> \<not> now < cf_blockedUntil c then None else Some c)\<rparr>)"

text \<open>How much longer the address is refused; None if it is not.\<close>

definition limited :: "string \<Rightarrow> go_time \<Rightarrow> rateLimiter \<Rightarrow> duration option \<times> rateLimiter" where
  "limited addr now l =
     (let l = prune now l
      in case rl_clients l addr of
           None \<Rightarrow> (None, l)
         | Some c \<Rightarrow> if \<not> now < cf_blockedUntil c then (None, l) else (Some (time_sub (cf_blockedUntil c) now), l))"

definition note_failure :: "go_time \<Rightarrow> clientFailures \<Rightarrow> clientFailures" where
  "note_failure now c =
     (let failures = recent now c @ [now]
      in if failedAuthLimit \<le> length failures then \<lparr>cf_failures = [], cf_blockedUntil = now + rateLimitFor\<rparr>
         else c\<lparr>cf_failures := failures\<rparr>)"

definition failed :: "string \<Rightarrow> go_time \<Rightarrow> rateLimiter \<Rightarrow> rateLimiter" where
  "failed addr now l =
     (let c = (case rl_clients l addr of Some c \<Rightarrow> c | None \<Rightarrow> new_client)
      in l\<lparr>rl_clients := (rl_clients l)(addr \<mapsto> note_failure now c)\<rparr>)"

section \<open>What an address has done\<close>

text \<open>The calls of the limiter, in order, with the time of each.\<close>

datatype event = Asked string | Failed string

fun step :: "go_time \<times> event \<Rightarrow> rateLimiter \<Rightarrow> rateLimiter" where
  "step (now, Asked addr) l = snd (limited addr now l)"
| "step (now, Failed addr) l = failed addr now l"

definition after_events :: "(go_time \<times> event) list \<Rightarrow> rateLimiter" where
  "after_events evs = fold step evs newRateLimiter"

text \<open>
  The specification keeps everything: for one address, nothing is ever forgotten but what is out
  of the window, and no other address matters.
\<close>

fun spec_step :: "string \<Rightarrow> go_time \<times> event \<Rightarrow> clientFailures \<Rightarrow> clientFailures" where
  "spec_step addr (now, Failed a) c = (if a = addr then note_failure now c else c)"
| "spec_step addr (now, Asked a) c = c"

definition spec_client :: "string \<Rightarrow> (go_time \<times> event) list \<Rightarrow> clientFailures" where
  "spec_client addr evs = fold (spec_step addr) evs new_client"

definition spec_limited :: "string \<Rightarrow> go_time \<Rightarrow> (go_time \<times> event) list \<Rightarrow> duration option" where
  "spec_limited addr now evs =
     (let until = cf_blockedUntil (spec_client addr evs)
      in if now < until then Some (time_sub until now) else None)"

definition in_order :: "(go_time \<times> event) list \<Rightarrow> go_time \<Rightarrow> bool" where
  "in_order evs now \<longleftrightarrow> sorted (map fst evs @ [now]) \<and> (\<forall>t \<in> set (map fst evs). zero_time \<le> t) \<and> zero_time \<le> now"

section \<open>Pruning is invisible\<close>

text \<open>Two records of an address that no call at \<open>now\<close> or later can tell apart.\<close>

definition alike :: "go_time \<Rightarrow> clientFailures \<Rightarrow> clientFailures \<Rightarrow> bool" where
  "alike now c d \<longleftrightarrow> recent now c = recent now d \<and> max now (cf_blockedUntil c) = max now (cf_blockedUntil d)"

definition client :: "rateLimiter \<Rightarrow> string \<Rightarrow> clientFailures" where
  "client l addr = (case rl_clients l addr of Some c \<Rightarrow> c | None \<Rightarrow> new_client)"

lemma recent_later:
  assumes "now \<le> later"
  shows "recent later c = dropWhile (\<lambda>t. \<not> t > later - failedAuthWindow) (recent now c)"
proof -
  have "dropWhile (\<lambda>t. \<not> t > b) xs = dropWhile (\<lambda>t. \<not> t > b) (dropWhile (\<lambda>t. \<not> t > a) xs)" if "a \<le> b" for a b :: int and xs
    using that by (induction xs) auto
  from this[of "now - failedAuthWindow" "later - failedAuthWindow"] assms show ?thesis
    by (simp add: recent_def)
qed

lemma alike_later: "alike now c d \<Longrightarrow> now \<le> later \<Longrightarrow> alike later c d"
  using recent_later[of now later c] recent_later[of now later d] by (auto simp: alike_def)

lemma alike_refl [simp]: "alike now c c"
  by (simp add: alike_def)

lemma alike_note_failure: "alike now c d \<Longrightarrow> alike now (note_failure now c) (note_failure now d)"
  by (auto simp: alike_def note_failure_def Let_def recent_def)

lemma alike_forgotten:
  "recent now c = [] \<Longrightarrow> \<not> now < cf_blockedUntil c \<Longrightarrow> zero_time \<le> now \<Longrightarrow> alike now new_client c"
  unfolding alike_def by (simp add: new_client_def zero_time_def) (simp add: recent_def)

lemma alike_trans: "alike now a b \<Longrightarrow> alike now b c \<Longrightarrow> alike now a c"
  by (simp add: alike_def)

lemma client_prune: "zero_time \<le> now \<Longrightarrow> alike now (client (prune now l) addr) (client l addr)"
  by (auto simp: client_def prune_def alike_forgotten split: option.split)

lemma client_failed: "client (failed addr now l) a = (if a = addr then note_failure now (client l addr) else client l a)"
  by (auto simp: client_def failed_def)

lemma client_limited: "snd (limited addr now l) = prune now l"
  by (auto simp: limited_def Let_def split: option.split)

lemma step_alike:
  assumes "alike now (client l addr) c" "zero_time \<le> now"
  shows "alike now (client (step (now, ev) l) addr) (spec_step addr (now, ev) c)"
  using assms client_prune[of now l addr]
  by (cases ev) (auto simp: client_limited client_failed alike_note_failure intro: alike_trans)

lemma after_events_alike:
  assumes "in_order evs now"
  shows "alike now (client (after_events evs) addr) (spec_client addr evs)"
  using assms
proof (induction evs arbitrary: now rule: rev_induct)
  case Nil
  then show ?case
    by (simp add: after_events_def spec_client_def client_def newRateLimiter_def)
next
  case (snoc ev evs)
  obtain t e where ev: "ev = (t, e)"
    by (cases ev)
  have t: "in_order evs t" "zero_time \<le> t" "t \<le> now"
    using snoc.prems ev by (auto simp: in_order_def sorted_append)
  have "alike t (client (after_events (evs @ [ev])) addr) (spec_client addr (evs @ [ev]))"
    using step_alike[OF snoc.IH[OF t(1)] t(2)] ev by (simp add: after_events_def spec_client_def)
  then show ?case
    using t(3) by (rule alike_later)
qed

lemma limited_alike:
  assumes "alike now (client l addr) c" "zero_time \<le> now"
  shows "fst (limited addr now l) = (if now < cf_blockedUntil c then Some (time_sub (cf_blockedUntil c) now) else None)"
proof -
  have "alike now (client (prune now l) addr) c"
    using client_prune[OF assms(2)] assms(1) by (rule alike_trans)
  then have "max now (cf_blockedUntil (client (prune now l) addr)) = max now (cf_blockedUntil c)"
    by (simp add: alike_def)
  then have "now < cf_blockedUntil (client (prune now l) addr) \<longleftrightarrow> now < cf_blockedUntil c"
    "now < cf_blockedUntil c \<Longrightarrow> cf_blockedUntil (client (prune now l) addr) = cf_blockedUntil c"
    by linarith+
  then show ?thesis
    using assms(2) by (auto simp: limited_def Let_def client_def new_client_def zero_time_def split: option.splits)
qed


section \<open>Who is refused\<close>

text \<open>The times at which an address failed.\<close>

fun failure_time :: "string \<Rightarrow> go_time \<times> event \<Rightarrow> go_time option" where
  "failure_time addr (t, Failed a) = (if a = addr then Some t else None)"
| "failure_time addr (t, Asked a) = None"

definition failure_times :: "string \<Rightarrow> (go_time \<times> event) list \<Rightarrow> go_time list" where
  "failure_times addr evs = List.map_filter (failure_time addr) evs"

definition failures_within :: "string \<Rightarrow> duration \<Rightarrow> go_time \<Rightarrow> (go_time \<times> event) list \<Rightarrow> nat" where
  "failures_within addr d now evs = length (filter (\<lambda>t. now - d < t \<and> t \<le> now) (failure_times addr evs))"

text \<open>
  What the record of an address is worth at \<open>now\<close>: its failures are the last ones, what is no longer
  among them is out of the window or was paid for by a block, and a block has its twenty failures.
\<close>

definition record_ok :: "go_time list \<Rightarrow> go_time \<Rightarrow> clientFailures \<Rightarrow> bool" where
  "record_ok ts now c \<longleftrightarrow>
     (\<exists>old. ts = old @ cf_failures c \<and> (\<forall>u \<in> set old. u \<le> max now (cf_blockedUntil c) - minute)) \<and>
     length (cf_failures c) < failedAuthLimit \<and>
     sorted ts \<and> (\<forall>u \<in> set ts. u \<le> now) \<and>
     (cf_blockedUntil c = zero_time \<or>
      cf_blockedUntil c \<le> now + minute \<and>
      failedAuthLimit \<le> length (filter (\<lambda>u. cf_blockedUntil c - 2 * minute < u \<and> u \<le> cf_blockedUntil c - minute) ts))"

lemmas limiter_constants = failedAuthLimit_def failedAuthWindow_def rateLimitFor_def minute_def zero_time_def

lemma record_ok_later: "record_ok ts now c \<Longrightarrow> now \<le> later \<Longrightarrow> record_ok ts later c"
  unfolding record_ok_def by (elim conjE exE, intro conjI exI) (auto, force+)

lemma recent_split:
  "\<exists>dropped. cf_failures c = dropped @ recent now c \<and> (\<forall>u \<in> set dropped. u \<le> now - minute)"
proof -
  have "cf_failures c = takeWhile (\<lambda>t. \<not> t > now - failedAuthWindow) (cf_failures c) @ recent now c"
    by (simp add: recent_def)
  moreover have "u \<le> now - minute" if "u \<in> set (takeWhile (\<lambda>t. \<not> t > now - failedAuthWindow) (cf_failures c))" for u
    using set_takeWhileD[OF that] by (simp add: failedAuthWindow_def)
  ultimately show ?thesis
    by blast
qed

lemma recent_in_window:
  assumes "sorted (cf_failures c)" "u \<in> set (recent now c)"
  shows "now - minute < u"
proof -
  let ?P = "\<lambda>t. \<not> t > now - failedAuthWindow"
  have s: "sorted (recent now c)"
    using assms(1) unfolding recent_def by (rule sorted_dropWhile)
  have "recent now c \<noteq> []"
    using assms(2) by auto
  then have "hd (recent now c) > now - failedAuthWindow"
    using hd_dropWhile[of ?P "cf_failures c"] by (simp add: recent_def)
  moreover have "hd (recent now c) \<le> u"
    using s assms(2) by (cases "recent now c") auto
  ultimately show ?thesis
    by (simp add: failedAuthWindow_def)
qed


lemma record_ok_failure:
  assumes ok: "record_ok ts earlier c" and now: "earlier \<le> now"
  shows "record_ok (ts @ [now]) now (note_failure now c)"
proof -
  obtain old where old: "ts = old @ cf_failures c" "\<forall>u \<in> set old. u \<le> max now (cf_blockedUntil c) - minute"
    using record_ok_later[OF ok now] unfolding record_ok_def by blast
  obtain dropped where dropped: "cf_failures c = dropped @ recent now c" "\<forall>u \<in> set dropped. u \<le> now - minute"
    using recent_split by blast
  have ts: "sorted ts" "\<forall>u \<in> set ts. u \<le> now" and block: "cf_blockedUntil c = zero_time \<or>
      cf_blockedUntil c \<le> now + minute \<and>
      failedAuthLimit \<le> length (filter (\<lambda>u. cf_blockedUntil c - 2 * minute < u \<and> u \<le> cf_blockedUntil c - minute) ts)"
    using record_ok_later[OF ok now] by (auto simp: record_ok_def)
  have sorted: "sorted (ts @ [now])"
    using ts by (simp add: sorted_append)
  show ?thesis
  proof (cases "failedAuthLimit \<le> length (recent now c @ [now])")
    case True
    then have c': "note_failure now c = \<lparr>cf_failures = [], cf_blockedUntil = now + minute\<rparr>"
      by (simp add: note_failure_def rateLimitFor_def)
    have "sorted (cf_failures c)"
      using ts(1) old(1) by (simp add: sorted_append)
    then have "now - minute < u \<and> u \<le> now" if "u \<in> set (recent now c @ [now])" for u
      using recent_in_window[of c u now] that ts(2) old(1) dropped(1) by (auto simp: minute_def)
    then have "filter (\<lambda>u. now - minute < u \<and> u \<le> now) (recent now c @ [now]) = recent now c @ [now]"
      by (simp only: filter_id_conv) blast
    then have "failedAuthLimit \<le> length (filter (\<lambda>u. now - minute < u \<and> u \<le> now) (ts @ [now]))"
      using True old(1) dropped(1) by simp
    then show ?thesis
      using sorted ts(2) unfolding c' by (simp add: record_ok_def failedAuthLimit_def minute_def)
  next
    case False
    then have c': "note_failure now c = c\<lparr>cf_failures := recent now c @ [now]\<rparr>"
      by (simp add: note_failure_def)
    have "ts @ [now] = (old @ dropped) @ cf_failures (note_failure now c)"
      using old(1) dropped(1) c' by simp
    moreover have "\<forall>u \<in> set (old @ dropped). u \<le> max now (cf_blockedUntil c) - minute"
      using old(2) dropped(2) by auto
    moreover have "cf_blockedUntil c = zero_time \<or> cf_blockedUntil c \<le> now + minute \<and>
      failedAuthLimit \<le> length (filter (\<lambda>u. cf_blockedUntil c - 2 * minute < u \<and> u \<le> cf_blockedUntil c - minute) (ts @ [now]))"
      using block by auto
    ultimately show ?thesis
      using False sorted ts(2) c' unfolding record_ok_def by (intro conjI exI[of _ "old @ dropped"]) auto
  qed
qed

lemma failure_times_snoc:
  "failure_times addr (evs @ [(t, e)]) = failure_times addr evs @ (if e = Failed addr then [t] else [])"
  by (cases e) (auto simp: failure_times_def map_filter_def)

lemma spec_client_ok:
  assumes "in_order evs now"
  shows "record_ok (failure_times addr evs) now (spec_client addr evs)"
  using assms
proof (induction evs arbitrary: now rule: rev_induct)
  case Nil
  then show ?case
    by (simp add: spec_client_def failure_times_def map_filter_def record_ok_def new_client_def failedAuthLimit_def)
next
  case (snoc ev evs)
  obtain t e where ev: "ev = (t, e)"
    by (cases ev)
  have t: "in_order evs t" "t \<le> now"
    using snoc.prems ev by (auto simp: in_order_def sorted_append)
  have "record_ok (failure_times addr (evs @ [ev])) t (spec_client addr (evs @ [ev]))"
    using snoc.IH[OF t(1)] record_ok_failure[OF snoc.IH[OF t(1)] order_refl] ev
    by (cases e) (auto simp: failure_times_snoc spec_client_def)
  then show ?case
    using t(2) by (rule record_ok_later)
qed

lemma limiter_refines_spec_eq:
  "in_order evs now \<Longrightarrow> fst (limited addr now (after_events evs)) = spec_limited addr now evs"
  using limited_alike[OF after_events_alike, of evs now addr] by (simp add: spec_limited_def Let_def in_order_def)

section \<open>Properties\<close>

text \<open>
  C17: Forgetting addresses changes no answer: whatever calls came before, the limiter answers as one
  that keeps the failures of that address alone and never prunes. The hypothesis is that the clock
  does not run backwards.
\<close>

theorem limiter_refines_spec:
  assumes "in_order evs now"
  shows "fst (limited addr now (after_events evs)) = spec_limited addr now evs"
  using assms by (rule limiter_refines_spec_eq)

text \<open>Nineteen failures, then one more from the same address.\<close>

definition guesses :: "(go_time \<times> event) list" where
  "guesses = map (\<lambda>i. (7 * minute + int i, Failed ''10.0.0.9'')) [0..<20]"

lemma guesses_in_order: "in_order guesses (7 * minute + 30)"
  by (simp add: guesses_def in_order_def minute_def zero_time_def upt_rec)

theorem limiter_refines_spec_witness:
  "fst (limited ''10.0.0.9'' (7 * minute + 30) (after_events guesses)) = spec_limited ''10.0.0.9'' (7 * minute + 30) guesses"
  using limiter_refines_spec [OF guesses_in_order] by simp

text \<open>
  C18: An address is refused for a cause and not for long: it failed at least twenty times within the two
  minutes before, and the rest of its block is at most a minute.
\<close>

theorem limited_for_cause:
  assumes "in_order evs now" "fst (limited addr now (after_events evs)) = Some d"
  shows "0 < d \<and> d \<le> minute \<and> failedAuthLimit \<le> failures_within addr (2 * minute) now evs"
proof -
  let ?c = "spec_client addr evs"
  let ?until = "cf_blockedUntil ?c"
  have until: "now < ?until" "d = time_sub ?until now"
    using assms limiter_refines_spec_eq by (auto simp: spec_limited_def Let_def split: if_splits)
  then have ok: "?until \<le> now + minute"
    "failedAuthLimit \<le> length (filter (\<lambda>u. ?until - 2 * minute < u \<and> u \<le> ?until - minute) (failure_times addr evs))"
    using spec_client_ok[OF assms(1), of addr] assms(1) by (auto simp: record_ok_def in_order_def zero_time_def)
  have "length (filter (\<lambda>u. ?until - 2 * minute < u \<and> u \<le> ?until - minute) xs) \<le> length (filter (\<lambda>u. now - 2 * minute < u \<and> u \<le> now) xs)" for xs
    using until(1) ok(1) by (induction xs) auto
  from this[of "failure_times addr evs"] ok(2) show ?thesis
    using until ok(1) by (auto simp: failures_within_def time_sub_def minute_def max_int64_def min_int64_def)
qed

theorem limited_for_cause_witness: "20 \<le> failures_within ''10.0.0.9'' (2 * minute) (7 * minute + 30) guesses"
proof -
  have "fst (limited ''10.0.0.9'' (7 * minute + 30) (after_events guesses)) = Some (minute - 11)"
    by code_simp
  from limited_for_cause [OF guesses_in_order this] show ?thesis
    by (simp add: failedAuthLimit_def)
qed

text \<open>
  Guessing does not get past the limit: whoever has failed twenty times within the last minute is
  refused now.
\<close>

theorem guessing_is_limited:
  assumes "in_order evs now" "failedAuthLimit \<le> failures_within addr minute now evs"
  shows "fst (limited addr now (after_events evs)) \<noteq> None"
proof -
  let ?c = "spec_client addr evs"
  obtain old where old: "failure_times addr evs = old @ cf_failures ?c" "\<forall>u \<in> set old. u \<le> max now (cf_blockedUntil ?c) - minute"
    "length (cf_failures ?c) < failedAuthLimit"
    using spec_client_ok[OF assms(1), of addr] unfolding record_ok_def by blast
  have "now < cf_blockedUntil ?c"
  proof (rule ccontr)
    assume "\<not> now < cf_blockedUntil ?c"
    then have "filter (\<lambda>t. now - minute < t \<and> t \<le> now) old = []"
      using old(2) by (force simp: filter_empty_conv)
    then have "failures_within addr minute now evs \<le> length (cf_failures ?c)"
      using old(1) by (simp add: failures_within_def)
    then show False
      using old(3) assms(2) by simp
  qed
  then show ?thesis
    using assms(1) limiter_refines_spec_eq by (simp add: spec_limited_def Let_def)
qed

theorem guessing_is_limited_witness: "fst (limited ''10.0.0.9'' (7 * minute + 30) (after_events guesses)) \<noteq> None"
proof -
  have "failedAuthLimit \<le> failures_within ''10.0.0.9'' minute (7 * minute + 30) guesses"
    by code_simp
  from guessing_is_limited [OF guesses_in_order this] show ?thesis .
qed

end
