(* ===== verification/Versions.thy ===== *)
theory Versions
  imports Go_Strings
begin

text \<open>
  Versions (\<^verbatim>\<open>src/pkg/version/version.go\<close>): \<open>Parse\<close>, which tells a release from a development build,
  and \<open>Compare\<close>, by which the agent and the command line decide whether a release is newer. That \<open>Compare\<close> is an order is proved
  through the interface \<open>comparison\<close>: a three-way comparison on the values that satisfy \<open>ok\<close>, which
  lexicographic comparison of lists hands on.
\<close>

section \<open>Definitions\<close>

record Semver =
  v_major :: int
  v_minor :: int
  v_patch :: int
  v_prerelease :: string

definition is_hex :: "char \<Rightarrow> bool" where
  "is_hex c \<longleftrightarrow> is_digit c \<or> (97 \<le> byte_val c \<and> byte_val c \<le> 102)"

definition describesCommit :: "string \<Rightarrow> bool" where
  "describesCommit prerelease =
     (let (rest, dirty) = cut_suffix prerelease ''dirty''
      in if dirty \<and> rest = [] then True
         else
           let parts = split_on CHR ''-'' (trim_suffix rest ''-'')
           in if length parts < 2 then False
              else
                let count = parts ! (length parts - 2);
                    tail = parts ! (length parts - 1);
                    hash = trim_prefix tail ''g''
                in if count = [] \<or> length hash < 4 \<or> length hash = length tail then False
                   else list_all is_digit count \<and> list_all is_hex hash)"

fun parse_numbers :: "string list \<Rightarrow> int list option" where
  "parse_numbers [] = Some []"
| "parse_numbers (p # ps) =
     (case atoi p of
        None \<Rightarrow> None
      | Some n \<Rightarrow> if n < 0 \<or> p \<noteq> itoa n then None
                 else (case parse_numbers ps of None \<Rightarrow> None | Some ns \<Rightarrow> Some (n # ns)))"

definition Parse :: "string \<Rightarrow> Semver option" where
  "Parse text =
     (let s = fst (cut_at CHR ''+'' (trim_prefix (trim_space text) ''v''));
          (core, pre, dashed) = cut_at CHR ''-'' s
      in if dashed \<and> (pre = [] \<or> describesCommit pre) then None
         else
           let parts = split_on CHR ''.'' core
           in if length parts \<noteq> 3 then None
              else case parse_numbers parts of
                     Some [a, b, c] \<Rightarrow> Some \<lparr>v_major = a, v_minor = b, v_patch = c, v_prerelease = pre\<rparr>
                   | _ \<Rightarrow> None)"

text \<open>\<open>sign\<close> of a difference of two \<open>int\<close>s, which wraps around.\<close>

definition sign :: "int \<Rightarrow> int" where
  "sign n = (if n < 0 then -1 else if n > 0 then 1 else 0)"

text \<open>
  The loop of \<open>comparePrerelease\<close>: the lists lose the same number of identifiers in every
  round, so the difference of the lengths at the end is that of the whole lists.
\<close>

fun compare_ids :: "string list \<Rightarrow> string list \<Rightarrow> int" where
  "compare_ids (a # as) (b # bs) =
     (case (atoi a, atoi b) of
        (Some na, Some nb) \<Rightarrow> if na \<noteq> nb then sign (wrap64 (na - nb)) else compare_ids as bs
      | (Some na, None) \<Rightarrow> -1
      | (None, Some nb) \<Rightarrow> 1
      | (None, None) \<Rightarrow> if string_compare a b \<noteq> 0 then string_compare a b else compare_ids as bs)"
| "compare_ids as bs = sign (int (length as) - int (length bs))"

definition comparePrerelease :: "string \<Rightarrow> string \<Rightarrow> int" where
  "comparePrerelease a b = compare_ids (split_on CHR ''.'' a) (split_on CHR ''.'' b)"

definition compare_semver :: "Semver \<Rightarrow> Semver \<Rightarrow> int" where
  "compare_semver va vb =
     (if wrap64 (v_major va - v_major vb) \<noteq> 0 then sign (wrap64 (v_major va - v_major vb))
      else if wrap64 (v_minor va - v_minor vb) \<noteq> 0 then sign (wrap64 (v_minor va - v_minor vb))
      else if wrap64 (v_patch va - v_patch vb) \<noteq> 0 then sign (wrap64 (v_patch va - v_patch vb))
      else if v_prerelease va = v_prerelease vb then 0
      else if v_prerelease va = [] then 1
      else if v_prerelease vb = [] then -1
      else comparePrerelease (v_prerelease va) (v_prerelease vb))"

definition Compare :: "string \<Rightarrow> string \<Rightarrow> int" where
  "Compare a b =
     (case (Parse a, Parse b) of
        (None, None) \<Rightarrow> 0
      | (None, Some vb) \<Rightarrow> -1
      | (Some va, None) \<Rightarrow> 1
      | (Some va, Some vb) \<Rightarrow> compare_semver va vb)"

section \<open>Comparisons\<close>

locale comparison =
  fixes cmp :: "'a \<Rightarrow> 'a \<Rightarrow> int" and ok :: "'a \<Rightarrow> bool"
  assumes cmp_range: "cmp a b \<in> {-1, 0, 1}"
    and cmp_refl: "ok a \<Longrightarrow> cmp a a = 0"
    and cmp_flip: "ok a \<Longrightarrow> ok b \<Longrightarrow> cmp a b = - cmp b a"
    and cmp_trans: "ok a \<Longrightarrow> ok b \<Longrightarrow> ok c \<Longrightarrow> cmp a b \<le> 0 \<Longrightarrow> cmp b c \<le> 0 \<Longrightarrow> cmp a c \<le> 0"
begin

lemma cmp_same:
  assumes "ok a" "ok b" "ok c" "cmp a b = 0"
  shows "cmp b c = cmp a c"
proof -
  have ba: "cmp b a = 0"
    using cmp_flip[OF assms(2,1)] assms(4) by simp
  have "cmp b c \<le> 0 \<longleftrightarrow> cmp a c \<le> 0"
    using cmp_trans[OF assms(1,2,3)] cmp_trans[OF assms(2,1,3)] assms(4) ba by auto
  moreover have "cmp c b \<le> 0 \<longleftrightarrow> cmp c a \<le> 0"
    using cmp_trans[OF assms(3,2,1)] cmp_trans[OF assms(3,1,2)] assms(4) ba by auto
  moreover have "cmp c b = - cmp b c" "cmp c a = - cmp a c"
    by (rule cmp_flip; use assms in simp)+
  ultimately show ?thesis
    using cmp_range[of b c] cmp_range[of a c] by auto
qed

lemma cmp_less:
  assumes "ok a" "ok b" "ok c" "cmp a b < 0" "cmp b c \<le> 0"
  shows "cmp a c < 0"
proof (rule ccontr)
  assume "\<not> cmp a c < 0"
  then have "cmp a c = 0"
    using cmp_trans[OF assms(1-3)] assms(4,5) by simp
  then have "cmp c b = cmp a b"
    using cmp_same[OF assms(1,3,2)] by simp
  then show False
    using cmp_flip[OF assms(2,3)] assms(4,5) by simp
qed

lemma cmp_less':
  assumes "ok a" "ok b" "ok c" "cmp a b \<le> 0" "cmp b c < 0"
  shows "cmp a c < 0"
  using cmp_less[OF assms(1-3)] cmp_same[OF assms(1-3)] assms(4,5) by fastforce

end

text \<open>The order of two keys where the first decides.\<close>

definition first_of :: "int \<Rightarrow> int \<Rightarrow> int" where
  "first_of x y = (if x \<noteq> 0 then x else y)"

fun lex_compare :: "('a \<Rightarrow> 'a \<Rightarrow> int) \<Rightarrow> 'a list \<Rightarrow> 'a list \<Rightarrow> int" where
  "lex_compare cmp (a # as) (b # bs) = first_of (cmp a b) (lex_compare cmp as bs)"
| "lex_compare cmp as bs = sign (int (length as) - int (length bs))"

lemma comparison_pair:
  assumes "comparison c1 ok1" "comparison c2 ok2" "\<And>x. ok x \<Longrightarrow> ok1 (f x) \<and> ok2 (g x)"
  shows "comparison (\<lambda>x y. first_of (c1 (f x) (f y)) (c2 (g x) (g y))) ok"
proof
  fix a b c
  show "first_of (c1 (f a) (f b)) (c2 (g a) (g b)) \<in> {-1, 0, 1}"
    using comparison.cmp_range[OF assms(1)] comparison.cmp_range[OF assms(2)] by (auto simp: first_of_def)
  show "first_of (c1 (f a) (f a)) (c2 (g a) (g a)) = 0" if "ok a"
    using comparison.cmp_refl[OF assms(1)] comparison.cmp_refl[OF assms(2)] assms(3)[OF that] by (auto simp: first_of_def)
  show "first_of (c1 (f a) (f b)) (c2 (g a) (g b)) = - first_of (c1 (f b) (f a)) (c2 (g b) (g a))" if "ok a" "ok b"
    using comparison.cmp_flip[OF assms(1), of "f a" "f b"] comparison.cmp_flip[OF assms(2), of "g a" "g b"]
      assms(3)[OF that(1)] assms(3)[OF that(2)] by (auto simp: first_of_def)
  show "first_of (c1 (f a) (f c)) (c2 (g a) (g c)) \<le> 0"
    if ok: "ok a" "ok b" "ok c" and le: "first_of (c1 (f a) (f b)) (c2 (g a) (g b)) \<le> 0" "first_of (c1 (f b) (f c)) (c2 (g b) (g c)) \<le> 0"
  proof (cases "c1 (f a) (f b) = 0 \<and> c1 (f b) (f c) = 0")
    case True
    then show ?thesis
      using comparison.cmp_same[OF assms(1), of "f a" "f b" "f c"] comparison.cmp_trans[OF assms(2), of "g a" "g b" "g c"]
        le assms(3)[OF ok(1)] assms(3)[OF ok(2)] assms(3)[OF ok(3)] by (auto simp: first_of_def)
  next
    case False
    then have "c1 (f a) (f b) < 0 \<and> c1 (f b) (f c) \<le> 0 \<or> c1 (f a) (f b) \<le> 0 \<and> c1 (f b) (f c) < 0"
      using le by (auto simp: first_of_def split: if_splits)
    then have "c1 (f a) (f c) < 0"
      using comparison.cmp_less[OF assms(1), of "f a" "f b" "f c"] comparison.cmp_less'[OF assms(1), of "f a" "f b" "f c"]
        assms(3)[OF ok(1)] assms(3)[OF ok(2)] assms(3)[OF ok(3)] by auto
    then show ?thesis
      by (auto simp: first_of_def)
  qed
qed


lemma comparison_cong:
  assumes "comparison c ok" "\<And>a b. c' a b \<in> {-1, 0, 1}" "\<And>a b. ok a \<Longrightarrow> ok b \<Longrightarrow> c' a b = c a b"
  shows "comparison c' ok"
proof
  fix a b d
  show "c' a b \<in> {-1, 0, 1}" by (rule assms(2))
  show "c' a a = 0" if "ok a"
    using comparison.cmp_refl[OF assms(1) that] assms(3)[OF that that] by simp
  show "c' a b = - c' b a" if "ok a" "ok b"
    using comparison.cmp_flip[OF assms(1) that] assms(3)[OF that] assms(3)[OF that(2,1)] by simp
  show "c' a d \<le> 0" if "ok a" "ok b" "ok d" "c' a b \<le> 0" "c' b d \<le> 0"
    using comparison.cmp_trans[OF assms(1) that(1-3)] that(4,5) assms(3)[OF that(1,2)] assms(3)[OF that(2,3)]
      assms(3)[OF that(1,3)] by simp
qed

lemma sign_range: "sign n \<in> {-1, 0, 1}"
  by (simp add: sign_def)

text \<open>What lists of length 0, 1, 2 and so on have between them.\<close>

lemma lex_compare_Nil [simp]:
  "lex_compare cmp [] bs = (if bs = [] then 0 else -1)" "lex_compare cmp as [] = (if as = [] then 0 else 1)"
  by (cases bs; simp add: sign_def) (cases as; simp add: sign_def)

lemma comparison_lex:
  assumes "comparison cmp ok"
  shows "comparison (lex_compare cmp) (list_all ok)"
proof
  note range = comparison.cmp_range[OF assms] and refl = comparison.cmp_refl[OF assms] and flip = comparison.cmp_flip[OF assms]
  show "lex_compare cmp as bs \<in> {-1, 0, 1}" for as bs
    using range by (induction cmp as bs rule: lex_compare.induct) (auto simp: first_of_def sign_def)
  show "list_all ok as \<Longrightarrow> lex_compare cmp as as = 0" for as
    using refl by (induction as) (auto simp: first_of_def sign_def)
  show "list_all ok as \<Longrightarrow> list_all ok bs \<Longrightarrow> lex_compare cmp as bs = - lex_compare cmp bs as" for as bs
  proof (induction as arbitrary: bs)
    case (Cons a as)
    show ?case
    proof (cases bs)
      case (Cons b bs')
      have "cmp a b = - cmp b a" "lex_compare cmp as bs' = - lex_compare cmp bs' as"
        using flip[of a b] Cons local.Cons.IH[of bs'] local.Cons.prems by auto
      then show ?thesis
        using Cons by (simp only: lex_compare.simps first_of_def) simp
    qed (simp add: sign_def)
  qed (auto simp: sign_def split: if_splits)
  show "list_all ok as \<Longrightarrow> list_all ok bs \<Longrightarrow> list_all ok cs \<Longrightarrow> lex_compare cmp as bs \<le> 0 \<Longrightarrow> lex_compare cmp bs cs \<le> 0 \<Longrightarrow>
      lex_compare cmp as cs \<le> 0" for as bs cs
  proof (induction as arbitrary: bs cs)
    case (Cons a as)
    then obtain b bs' where b: "bs = b # bs'"
      by (cases bs) (auto simp: sign_def)
    with Cons.prems(5) obtain c cs' where c: "cs = c # cs'"
      by (cases cs) (auto simp: sign_def)
    have ok: "ok a" "ok b" "ok c"
      using Cons.prems b c by auto
    show ?case
    proof (cases "cmp a b = 0 \<and> cmp b c = 0")
      case True
      then have "cmp a c = 0"
        using comparison.cmp_same[OF assms ok] by simp
      then show ?thesis
        using True Cons b c by (auto simp: first_of_def)
    next
      case False
      then have "cmp a b < 0 \<and> cmp b c \<le> 0 \<or> cmp a b \<le> 0 \<and> cmp b c < 0"
        using Cons.prems(4,5) b c by (auto simp: first_of_def split: if_splits)
      then have "cmp a c < 0"
        using comparison.cmp_less[OF assms ok] comparison.cmp_less'[OF assms ok] by auto
      then show ?thesis
        using b c by (auto simp: first_of_def)
    qed
  qed (simp add: sign_def)
qed

section \<open>Versions are ordered\<close>

subsection \<open>Numbers\<close>

definition natural :: "int \<Rightarrow> bool" where
  "natural n \<longleftrightarrow> 0 \<le> n \<and> n \<le> max_int64"

lemma wrap64_natural: "natural a \<Longrightarrow> natural b \<Longrightarrow> wrap64 (a - b) = a - b"
  by (rule wrap64_id) (simp add: natural_def in_int64_def max_int64_def min_int64_def)

interpretation numbers: comparison "\<lambda>a b. sign (wrap64 (a - b))" natural
proof
  show "natural a \<Longrightarrow> sign (wrap64 (a - a)) = 0" for a
    using wrap64_natural[of a a] by (simp add: sign_def)
qed (auto simp: wrap64_natural sign_def split: if_splits)

subsection \<open>Identifiers of a pre-release\<close>

definition compare_id :: "string \<Rightarrow> string \<Rightarrow> int" where
  "compare_id a b =
     (case (atoi a, atoi b) of
        (Some na, Some nb) \<Rightarrow> if na \<noteq> nb then sign (wrap64 (na - nb)) else 0
      | (Some na, None) \<Rightarrow> -1
      | (None, Some nb) \<Rightarrow> 1
      | (None, None) \<Rightarrow> string_compare a b)"

text \<open>Semantic versioning knows no negative numbers; \<open>Atoi\<close> reads a sign.\<close>

definition plain_id :: "string \<Rightarrow> bool" where
  "plain_id a \<longleftrightarrow> (case atoi a of None \<Rightarrow> True | Some n \<Rightarrow> 0 \<le> n)"

lemma plain_id_natural: "plain_id a \<Longrightarrow> atoi a = Some n \<Longrightarrow> natural n"
  using atoi_in_int64[of a n] by (simp add: plain_id_def natural_def in_int64_def)

lemma string_compare_le_trans: "string_compare a b \<le> 0 \<Longrightarrow> string_compare b c \<le> 0 \<Longrightarrow> string_compare a c \<le> 0"
  by (rule string_compare_trans)

lemma compare_id_plain:
  assumes "plain_id a" "plain_id b"
  shows "compare_id a b =
    (case (atoi a, atoi b) of
       (Some na, Some nb) \<Rightarrow> sign (na - nb) | (Some na, None) \<Rightarrow> -1 | (None, Some nb) \<Rightarrow> 1 | (None, None) \<Rightarrow> string_compare a b)"
  using assms plain_id_natural[of a] plain_id_natural[of b]
  by (auto simp: compare_id_def wrap64_natural sign_def split: option.splits)

interpretation identifiers: comparison compare_id plain_id
proof
  fix a b c
  show "compare_id a b \<in> {-1, 0, 1}"
    using string_compare_range[of a b] sign_range by (auto simp: compare_id_def split: option.splits)
  show "compare_id a a = 0" if "plain_id a"
    by (auto simp: compare_id_def split: option.splits)
  show "compare_id a b = - compare_id b a" if "plain_id a" "plain_id b"
    using string_compare_antisym[of a b] that by (auto simp: compare_id_plain sign_def split: option.splits)
  show "compare_id a c \<le> 0" if "plain_id a" "plain_id b" "plain_id c" "compare_id a b \<le> 0" "compare_id b c \<le> 0"
    using that string_compare_le_trans[of a b c] by (auto simp: compare_id_plain sign_def split: option.splits if_splits)
qed

lemma centred_mod_0:
  fixes m :: int
  assumes "(x + m) mod (2 * m) - m = 0" "\<bar>x\<bar> < 2 * m"
  shows "x = 0"
proof -
  have "m mod (2 * m) = m"
    using assms(2) by simp
  then have "(x + m) mod (2 * m) = m mod (2 * m)"
    using assms(1) by simp
  then have "2 * m dvd (x + m) - m"
    unfolding mod_eq_dvd_iff .
  then have "2 * m dvd x"
    by simp
  then show ?thesis
    using assms(2) zdvd_not_zless[of "\<bar>x\<bar>" "2 * m"] by force
qed

lemma wrap64_diff_0:
  assumes "in_int64 a" "in_int64 b" "wrap64 (a - b) = 0"
  shows "a = b"
proof -
  have "\<bar>a - b\<bar> < 2 * 9223372036854775808"
    using assms(1,2) by (auto simp: in_int64_def min_int64_def max_int64_def)
  then show ?thesis
    using centred_mod_0[of "a - b" "9223372036854775808"] assms(3) by (simp add: wrap64_def)
qed

lemma first_of_compare_id:
  "first_of (compare_id a b) x =
    (case (atoi a, atoi b) of
       (Some na, Some nb) \<Rightarrow> if na \<noteq> nb then sign (wrap64 (na - nb)) else x
     | (Some na, None) \<Rightarrow> -1
     | (None, Some nb) \<Rightarrow> 1
     | (None, None) \<Rightarrow> if string_compare a b \<noteq> 0 then string_compare a b else x)"
proof (cases "atoi a")
  case (Some na)
  show ?thesis
  proof (cases "atoi b")
    case (Some nb)
    then show ?thesis
      using wrap64_diff_0[OF atoi_in_int64[OF \<open>atoi a = Some na\<close>] atoi_in_int64[OF Some]] \<open>atoi a = Some na\<close>
      by (cases "na = nb") (auto simp: first_of_def compare_id_def sign_def)
  qed (simp add: Some first_of_def compare_id_def)
qed (simp add: first_of_def compare_id_def split: option.split)

lemma compare_ids_lex: "compare_ids as bs = lex_compare compare_id as bs"
  by (induction as bs rule: compare_ids.induct) (simp_all add: first_of_compare_id split: option.split)

interpretation prereleases: comparison compare_ids "list_all plain_id"
  unfolding compare_ids_lex[abs_def] by (rule comparison_lex) (rule identifiers.comparison_axioms)


subsection \<open>Whole versions\<close>

definition compare_pre :: "string \<Rightarrow> string \<Rightarrow> int" where
  "compare_pre p q = (if p = q then 0 else if p = [] then 1 else if q = [] then -1 else comparePrerelease p q)"

definition plain_pre :: "string \<Rightarrow> bool" where
  "plain_pre p \<longleftrightarrow> list_all plain_id (split_on CHR ''.'' p)"

interpretation emptiness: comparison "\<lambda>p q. sign ((if p = [] then 1 else 0) - (if q = [] then 1 else 0))" "\<lambda>p. True"
  by unfold_locales (auto simp: sign_def split: if_splits)

lemma compare_pre_plain:
  assumes "plain_pre p" "plain_pre q"
  shows "compare_pre p q = first_of (sign ((if p = [] then 1 else 0) - (if q = [] then 1 else 0)))
    (compare_ids (split_on CHR ''.'' p) (split_on CHR ''.'' q))"
proof (cases "p = q")
  case True
  then show ?thesis
    using prereleases.cmp_refl[of "split_on CHR ''.'' p"] assms by (simp add: compare_pre_def first_of_def sign_def plain_pre_def)
next
  case False
  then show ?thesis
    by (cases "p = []"; cases "q = []") (simp_all add: compare_pre_def comparePrerelease_def first_of_def sign_def)
qed

lemma comparePrerelease_range: "comparePrerelease a b \<in> {-1, 0, 1}"
  unfolding comparePrerelease_def by (rule prereleases.cmp_range)

interpretation pre: comparison compare_pre plain_pre
proof (rule comparison_cong)
  show "comparison (\<lambda>p q. first_of (sign ((if p = [] then 1 else 0) - (if q = [] then 1 else 0)))
      (compare_ids (split_on CHR ''.'' p) (split_on CHR ''.'' q))) plain_pre"
    by (rule comparison_pair[OF emptiness.comparison_axioms prereleases.comparison_axioms, where f = "\<lambda>p. p"])
      (simp add: plain_pre_def)
  show "compare_pre a b \<in> {-1, 0, 1}" for a b
    using comparePrerelease_range[of a b] by (auto simp: compare_pre_def)
qed (rule compare_pre_plain)

definition plain_version :: "Semver \<Rightarrow> bool" where
  "plain_version v \<longleftrightarrow> natural (v_major v) \<and> natural (v_minor v) \<and> natural (v_patch v) \<and> plain_pre (v_prerelease v)"

lemma compare_semver_chain:
  "compare_semver va vb = first_of (sign (wrap64 (v_major va - v_major vb))) (first_of (sign (wrap64 (v_minor va - v_minor vb)))
     (first_of (sign (wrap64 (v_patch va - v_patch vb))) (compare_pre (v_prerelease va) (v_prerelease vb))))"
  by (simp add: compare_semver_def compare_pre_def first_of_def sign_def)

interpretation semver: comparison compare_semver plain_version
proof -
  have patch: "comparison (\<lambda>va vb. first_of (sign (wrap64 (v_patch va - v_patch vb)))
      (compare_pre (v_prerelease va) (v_prerelease vb))) plain_version"
    by (rule comparison_pair[OF numbers.comparison_axioms pre.comparison_axioms]) (simp add: plain_version_def)
  have minor: "comparison (\<lambda>va vb. first_of (sign (wrap64 (v_minor va - v_minor vb)))
      (first_of (sign (wrap64 (v_patch va - v_patch vb))) (compare_pre (v_prerelease va) (v_prerelease vb)))) plain_version"
    by (rule comparison_pair[OF numbers.comparison_axioms patch, where g = "\<lambda>v. v"]) (simp add: plain_version_def)
  have "comparison (\<lambda>va vb. first_of (sign (wrap64 (v_major va - v_major vb))) (first_of (sign (wrap64 (v_minor va - v_minor vb)))
      (first_of (sign (wrap64 (v_patch va - v_patch vb))) (compare_pre (v_prerelease va) (v_prerelease vb))))) plain_version"
    by (rule comparison_pair[OF numbers.comparison_axioms minor, where g = "\<lambda>v. v"]) (simp add: plain_version_def)
  then show "comparison compare_semver plain_version"
    unfolding compare_semver_chain[abs_def] .
qed

text \<open>The texts of plain versions, and all texts that are no versions.\<close>

definition plain_text :: "string \<Rightarrow> bool" where
  "plain_text a \<longleftrightarrow> (case Parse a of None \<Rightarrow> True | Some v \<Rightarrow> plain_pre (v_prerelease v))"

lemma parse_numbers_natural: "parse_numbers ps = Some ns \<Longrightarrow> n \<in> set ns \<Longrightarrow> natural n"
proof (induction ps arbitrary: ns)
  case (Cons p ps)
  then show ?case
    using atoi_in_int64[of p] by (fastforce simp: natural_def in_int64_def split: option.splits if_splits)
qed simp

lemma Parse_natural:
  assumes "Parse a = Some v"
  shows "natural (v_major v) \<and> natural (v_minor v) \<and> natural (v_patch v)"
proof -
  obtain ps x y z where "parse_numbers ps = Some [x, y, z]" "v_major v = x" "v_minor v = y" "v_patch v = z"
    using assms by (auto simp: Parse_def Let_def split: prod.splits if_splits option.splits list.splits)
  then show ?thesis
    using parse_numbers_natural[of ps "[x, y, z]"] by auto
qed

lemma plain_text_version: "plain_text a \<Longrightarrow> Parse a = Some v \<Longrightarrow> plain_version v"
  using Parse_natural[of a v] by (simp add: plain_text_def plain_version_def)

interpretation versions: comparison Compare plain_text
proof
  fix a b c
  show "Compare a b \<in> {-1, 0, 1}"
    using semver.cmp_range by (auto simp: Compare_def split: option.splits)
  show "Compare a a = 0" if "plain_text a"
    using plain_text_version[OF that] semver.cmp_refl by (simp add: Compare_def split: option.splits)
  show "Compare a b = - Compare b a" if "plain_text a" "plain_text b"
  proof (cases "Parse a"; cases "Parse b")
    fix va vb
    assume v: "Parse a = Some va" "Parse b = Some vb"
    then show ?thesis
      using semver.cmp_flip[OF plain_text_version[OF that(1) v(1)] plain_text_version[OF that(2) v(2)]]
      by (simp add: Compare_def)
  qed (simp_all add: Compare_def)
  show "Compare a c \<le> 0" if ok: "plain_text a" "plain_text b" "plain_text c" and le: "Compare a b \<le> 0" "Compare b c \<le> 0"
  proof (cases "Parse a")
    case (Some va)
    then obtain vb where vb: "Parse b = Some vb"
      using le(1) by (auto simp: Compare_def split: option.splits)
    then obtain vc where vc: "Parse c = Some vc"
      using le(2) by (auto simp: Compare_def split: option.splits)
    show ?thesis
      using semver.cmp_trans[of va vb vc] plain_text_version[OF ok(1)] plain_text_version[OF ok(2)] plain_text_version[OF ok(3)]
        Some vb vc le by (simp add: Compare_def)
  qed (simp add: Compare_def split: option.split)
qed


section \<open>Writing a version\<close>

definition render :: "Semver \<Rightarrow> string" where
  "render v = itoa (v_major v) @ ''.'' @ itoa (v_minor v) @ ''.'' @ itoa (v_patch v) @
     (if v_prerelease v = [] then [] else CHR ''-'' # v_prerelease v)"

text \<open>What a release or a pre-release of it is: nothing that \<open>git describe\<close> says of a later commit.\<close>

definition released :: "Semver \<Rightarrow> bool" where
  "released v \<longleftrightarrow> natural (v_major v) \<and> natural (v_minor v) \<and> natural (v_patch v) \<and>
     list_all visible (v_prerelease v) \<and> CHR ''+'' \<notin> set (v_prerelease v) \<and> \<not> describesCommit (v_prerelease v)"

lemma itoa_chars: "0 \<le> n \<Longrightarrow> c \<in> set (itoa n) \<Longrightarrow> is_digit c"
  using itoa_nat_digits[of "nat n"] by (auto simp: itoa_def list_all_iff)

lemma itoa_hd: "0 \<le> n \<Longrightarrow> itoa n \<noteq> [] \<and> is_digit (hd (itoa n))"
  using itoa_chars[of n "hd (itoa n)"] by (simp add: itoa_def)

lemma parse_numbers_itoa: "natural n \<Longrightarrow> parse_numbers (itoa n # ps) = map_option ((#) n) (parse_numbers ps)"
  by (auto simp: natural_def atoi_itoa split: option.split)

lemma no_describe_Nil: "\<not> describesCommit []"
  by code_simp

lemma Parse_core:
  assumes "natural a" "natural b" "natural c" "list_all visible s" "s = itoa a @ ''.'' @ itoa b @ ''.'' @ itoa c @ tail"
    and "CHR ''+'' \<notin> set tail" "tail = (if pre = [] then [] else CHR ''-'' # pre)" "\<not> describesCommit pre"
    and "text = s \<or> text = CHR ''v'' # s"
  shows "Parse text = Some \<lparr>v_major = a, v_minor = b, v_patch = c, v_prerelease = pre\<rparr>"
proof -
  let ?core = "itoa a @ ''.'' @ itoa b @ ''.'' @ itoa c"
  have nat: "0 \<le> a" "0 \<le> b" "0 \<le> c"
    using assms(1-3) by (auto simp: natural_def)
  have digits: "is_digit x" if "x \<in> set (itoa a) \<union> set (itoa b) \<union> set (itoa c)" for x
    using that itoa_chars nat by auto
  have "s \<noteq> []" "hd s \<noteq> CHR ''v''"
    using itoa_hd[OF nat(1)] is_digit_no_sign[of "hd (itoa a)"] assms(5) by auto
  moreover have "visible CHR ''v''"
    by code_simp
  ultimately have "trim_prefix (trim_space text) ''v'' = s"
    using assms(4,9) by (auto simp: trim_space_visible trim_prefix_absent)
  moreover have "CHR ''+'' \<notin> set s"
    using assms(5,6) digits is_digit_no_sign by fastforce
  moreover have "CHR ''-'' \<notin> set ?core"
    using digits is_digit_no_sign by fastforce
  then have "cut_at CHR ''-'' s = (?core, pre, pre \<noteq> [])"
    using cut_at_found[of "CHR ''-''" ?core pre] cut_at_absent[of "CHR ''-''" ?core] assms(5,7) by auto
  moreover have "CHR ''.'' \<notin> set (itoa a)" "CHR ''.'' \<notin> set (itoa b)" "CHR ''.'' \<notin> set (itoa c)"
    using digits is_digit_no_sign by blast+
  then have "split_on CHR ''.'' ?core = [itoa a, itoa b, itoa c]"
    by (simp add: split_on_append split_on_absent)
  moreover have "parse_numbers [itoa a, itoa b, itoa c] = Some [a, b, c]"
    using assms(1-3) by (simp only: parse_numbers_itoa parse_numbers.simps(1)) simp
  ultimately show ?thesis
    using assms(8) no_describe_Nil by (simp add: Parse_def cut_at_absent)
qed


lemma render_visible: "released v \<Longrightarrow> list_all visible (render v)"
proof -
  assume v: "released v"
  have "list_all visible (itoa n)" if "natural n" for n
    using itoa_chars[of n] that is_digit_visible by (auto simp: list_all_iff natural_def)
  moreover have "visible CHR ''.''" "visible CHR ''-''"
    by code_simp+
  ultimately show ?thesis
    using v by (simp add: released_def render_def)
qed

section \<open>Properties\<close>

text \<open>
  C19: A version that is written out reads back as itself, with and without the leading \<open>v\<close> of a tag.
\<close>

theorem Parse_render:
  assumes "released v"
  shows "Parse (render v) = Some v \<and> Parse (CHR ''v'' # render v) = Some v"
proof -
  have "Parse t = Some \<lparr>v_major = v_major v, v_minor = v_minor v, v_patch = v_patch v, v_prerelease = v_prerelease v\<rparr>"
    if "t = render v \<or> t = CHR ''v'' # render v" for t
    using assms that
    by (intro Parse_core[OF _ _ _ render_visible[OF assms] render_def]) (auto simp: released_def)
  then show ?thesis
    by simp
qed

definition demo_rc :: Semver where
  "demo_rc = \<lparr>v_major = 1, v_minor = 12, v_patch = 0, v_prerelease = ''rc.1''\<rparr>"

theorem Parse_render_witness: "Parse ''v1.12.0-rc.1'' = Some demo_rc"
proof -
  have "released demo_rc"
    by code_simp
  moreover have "CHR ''v'' # render demo_rc = ''v1.12.0-rc.1''"
    by code_simp
  ultimately show ?thesis
    using Parse_render [of demo_rc] by simp
qed

text \<open>
  \<open>Compare\<close> orders versions: read from the other side the answer is the opposite one, and it is
  transitive, what is no version included. The hypothesis is that no numeric identifier of a pre-release is
  negative, which semantic versioning excludes and \<open>Atoi\<close> does not.
\<close>

theorem Compare_orders:
  assumes "plain_text a" "plain_text b" "plain_text c"
  shows "Compare a b = - Compare b a \<and> (Compare a b \<le> 0 \<and> Compare b c \<le> 0 \<longrightarrow> Compare a c \<le> 0) \<and>
    (Compare a b = 0 \<longrightarrow> Compare a c = Compare b c)"
  using versions.cmp_flip[OF assms(1,2)] versions.cmp_trans[OF assms] versions.cmp_same[OF assms] by auto

theorem Compare_orders_witness: "Compare ''1.2.0-rc.2'' ''1.2.0'' = - Compare ''1.2.0'' ''1.2.0-rc.2''"
proof -
  have "plain_text ''1.2.0-rc.2''" "plain_text ''1.2.0''"
    by code_simp+
  then show ?thesis
    using Compare_orders [of "''1.2.0-rc.2''" "''1.2.0''" "''1.2.0''"] by simp
qed

text \<open>
  A numeric identifier with a minus sign is read as a negative number, and the difference of two
  numbers wraps around: each of these two versions sorts before the other.
\<close>

theorem Compare_wraps:
  "Compare ''1.0.0--9223372036854775808'' ''1.0.0-0'' = -1 \<and> Compare ''1.0.0-0'' ''1.0.0--9223372036854775808'' = -1"
proof -
  have "Compare ''1.0.0--9223372036854775808'' ''1.0.0-0'' = -1"
    by code_simp
  moreover have "Compare ''1.0.0-0'' ''1.0.0--9223372036854775808'' = -1"
    by code_simp
  ultimately show ?thesis ..
qed

end
