(* ===== verification/Supervisor.thy ===== *)
theory Supervisor
  imports Runtime
begin

text \<open>
  The supervisor's memory of a replica and what it decides by it
  (\<^verbatim>\<open>src/agent/internal/deploy/supervisor.go\<close>): \<open>state\<close>, \<open>reset\<close>, \<open>superviseRunning\<close>, \<open>probe\<close>,
  \<open>superviseDown\<close>, \<open>shouldRestart\<close>, \<open>delay\<close>, \<open>restart\<close>, \<open>snapshot\<close> and \<open>markHealthy\<close>, and \<open>isReady\<close> of
  \<^verbatim>\<open>views.go\<close>. Every function is one of those methods on the bookkeeping of one container; what Docker
  and the health check answer is an argument. A method that lets go of the mutex while it asks Docker
  takes the answer as an argument and is one step: the supervisor's loop is the only one that changes the
  bookkeeping in between, but for a probe, which is a step of its own and may come at any time.

  A \<open>time.Time\<close> that is zero is 0. Events and log lines are left out.
\<close>

section \<open>Definitions\<close>

datatype HealthState = HealthNone | HealthUnknown | HealthStarting | HealthHealthy | HealthUnhealthy

record supervise_options =
  RestartDelays :: "duration list"
  CrashLoopDelay :: duration
  StableAfter :: duration
  StartupPollInterval :: duration

definition default_options :: supervise_options where
  "default_options = \<lparr>RestartDelays = [second, 2 * second, 5 * second, 10 * second, 30 * second],
     CrashLoopDelay = 5 * minute, StableAfter = minute, StartupPollInterval = second\<rparr>"

record replicaState =
  restarts :: nat
  lastRestart :: go_time
  nextRestart :: go_time
  exitSeen :: bool
  leaveStopped :: bool
  crashLoop :: bool
  health :: HealthState
  failures :: int
  upSince :: go_time
  lastProbe :: go_time
  probing :: bool

definition blank_state :: "HealthState \<Rightarrow> replicaState" where
  "blank_state h = \<lparr>restarts = 0, lastRestart = 0, nextRestart = 0, exitSeen = False, leaveStopped = False,
     crashLoop = False, health = h, failures = 0, upSince = 0, lastProbe = 0, probing = False\<rparr>"

type_synonym states = "string \<rightharpoonup> replicaState"

text \<open>\<open>state\<close>: the bookkeeping of a container, made on first sight.\<close>

definition state_of :: "App \<Rightarrow> replicaState option \<Rightarrow> replicaState" where
  "state_of a before =
     (case before of
        Some st \<Rightarrow> st
      | None \<Rightarrow> blank_state (if a_health a \<noteq> None then HealthUnknown else HealthNone))"

definition reset :: "bool \<Rightarrow> replicaState" where
  "reset hasHealthCheck = blank_state (if hasHealthCheck then HealthStarting else HealthNone)"

definition markHealthy :: "replicaState option \<Rightarrow> replicaState" where
  "markHealthy before =
     (case before of Some st \<Rightarrow> st | None \<Rightarrow> blank_state HealthNone)\<lparr>health := HealthHealthy, failures := 0\<rparr>"

definition delay :: "supervise_options \<Rightarrow> nat \<Rightarrow> duration" where
  "delay opts restartsSoFar =
     (if restartsSoFar < length (RestartDelays opts) then RestartDelays opts ! restartsSoFar else CrashLoopDelay opts)"

text \<open>What Docker says of a container that is down.\<close>

record exited =
  x_code :: int
  x_oom :: bool

definition shouldRestart :: "RestartPolicy \<Rightarrow> exited \<Rightarrow> bool" where
  "shouldRestart policy c =
     (case policy of
        RestartNever \<Rightarrow> False
      | RestartOnFailure \<Rightarrow> x_code c \<noteq> 0 \<or> x_oom c
      | RestartAlways \<Rightarrow> True)"

text \<open>The bookkeeping of a restart that has just been tried; the tick's list is not part of it.\<close>

definition restart :: "supervise_options \<Rightarrow> go_time \<Rightarrow> replicaState \<Rightarrow> replicaState" where
  "restart opts now st =
     (let n = restarts st + 1
      in st\<lparr>restarts := n, lastRestart := now, exitSeen := False, upSince := 0, failures := 0, probing := False,
            health := (if health st \<noteq> HealthNone then HealthStarting else HealthNone),
            nextRestart := now + delay opts n,
            crashLoop := crashLoop st \<or> length (RestartDelays opts) \<le> n\<rparr>)"

text \<open>
  A replica that runs. The results: whether it is restarted as unhealthy, and whether a probe is
  launched. \<open>address\<close> is whether the list has its address.
\<close>

definition forgive :: "supervise_options \<Rightarrow> go_time \<Rightarrow> replicaState \<Rightarrow> replicaState" where
  "forgive opts now st =
     (let proven = health st \<noteq> HealthUnhealthy \<and> health st \<noteq> HealthStarting
      in if restarts st > 0 \<and> proven \<and> StableAfter opts \<le> time_sub now (lastRestart st)
         then st\<lparr>restarts := 0, crashLoop := False, nextRestart := 0\<rparr> else st)"

definition seen_running :: "go_time \<Rightarrow> replicaState \<Rightarrow> replicaState" where
  "seen_running now st =
     st\<lparr>exitSeen := False, leaveStopped := False, upSince := (if upSince st = 0 then now else upSince st)\<rparr>"

definition restart_unhealthy :: "App \<Rightarrow> go_time \<Rightarrow> replicaState \<Rightarrow> bool" where
  "restart_unhealthy a now st \<longleftrightarrow>
     a_health a \<noteq> None \<and> health st = HealthUnhealthy \<and> a_restart a \<noteq> RestartNever \<and> \<not> now < nextRestart st"

definition launch_probe :: "supervise_options \<Rightarrow> App \<Rightarrow> bool \<Rightarrow> go_time \<Rightarrow> replicaState \<Rightarrow> bool" where
  "launch_probe opts a address now st =
     (case a_health a of
        None \<Rightarrow> False
      | Some h \<Rightarrow>
          let every = (if health st = HealthStarting \<or> health st = HealthUnknown
                       then min (h_interval h) (StartupPollInterval opts) else h_interval h)
          in \<not> restart_unhealthy a now st \<and> \<not> probing st \<and> address \<and> every \<le> time_sub now (lastProbe st))"

definition superviseRunning ::
    "supervise_options \<Rightarrow> App \<Rightarrow> bool \<Rightarrow> go_time \<Rightarrow> replicaState option \<Rightarrow> replicaState \<times> bool \<times> bool" where
  "superviseRunning opts a address now before =
     (let st = forgive opts now (seen_running now (state_of a before));
          unhealthy = restart_unhealthy a now st;
          probe = launch_probe opts a address now st;
          st = (if probe then st\<lparr>probing := True, lastProbe := now\<rparr> else st)
      in (if unhealthy then restart opts now st else st, unhealthy, probe))"

text \<open>
  The end of a probe that the tick at \<open>now\<close> launched. A container that is no longer before, and an
  agent that shuts down, change nothing.
\<close>

definition probe :: "Health \<Rightarrow> bool \<Rightarrow> go_time \<Rightarrow> replicaState option \<Rightarrow> replicaState option" where
  "probe h answered now before =
     (case before of
        None \<Rightarrow> None
      | Some st \<Rightarrow>
          let st = st\<lparr>probing := False\<rparr>
          in Some (if answered then st\<lparr>health := HealthHealthy, failures := 0\<rparr>
                   else if health st = HealthStarting
                     then (if time_sub now (upSince st) > StartupBudget h then st\<lparr>health := HealthUnhealthy\<rparr> else st)
                   else if health st \<noteq> HealthUnhealthy
                     then (let n = wrap64 (failures st + 1)
                           in if h_retries h \<le> n then st\<lparr>failures := n, health := HealthUnhealthy\<rparr> else st\<lparr>failures := n\<rparr>)
                   else st))"

text \<open>
  A replica that is down. \<open>why\<close> is Docker's account of it, None if Docker could not say; the second
  result is whether it is started again.
\<close>

definition superviseDown ::
    "supervise_options \<Rightarrow> App \<Rightarrow> exited option \<Rightarrow> go_time \<Rightarrow> replicaState option \<Rightarrow> replicaState \<times> bool" where
  "superviseDown opts a why now before =
     (let st = (state_of a before)\<lparr>upSince := 0\<rparr>;
          st = (if a_health a \<noteq> None then st\<lparr>health := HealthUnhealthy, failures := 0\<rparr> else st);
          start_due = (\<lambda>st. if \<not> leaveStopped st \<and> \<not> now < nextRestart st then (restart opts now st, True) else (st, False))
      in if exitSeen st then start_due st
         else case why of
           None \<Rightarrow> (st, False)
         | Some c \<Rightarrow>
             let again = shouldRestart (a_restart a) c;
                 st = st\<lparr>exitSeen := True, leaveStopped := \<not> again, nextRestart := now + delay opts (restarts st)\<rparr>
             in if \<not> again then (st, False) else start_due st)"

definition snapshot :: "replicaState option \<Rightarrow> HealthState \<times> bool" where
  "snapshot before = (case before of Some st \<Rightarrow> (health st, crashLoop st) | None \<Rightarrow> (HealthNone, False))"

definition isReady :: "bool \<Rightarrow> HealthState \<Rightarrow> bool" where
  "isReady running h \<longleftrightarrow> running \<and> (h = HealthNone \<or> h = HealthUnknown \<or> h = HealthHealthy)"

section \<open>The life of one replica\<close>

text \<open>
  What happens to one container between two moments at which its history is wiped: the supervisor
  looks at it, running or down, and probes end. The times are those of the ticks.
\<close>

datatype input =
    SeenRunning go_time bool
  | SeenDown go_time "exited option"
  | ProbeEnded go_time bool

fun input_time :: "input \<Rightarrow> go_time" where
  "input_time (SeenRunning t address) = t"
| "input_time (SeenDown t why) = t"
| "input_time (ProbeEnded t answered) = t"

text \<open>The replica after the input, and whether it was restarted.\<close>

fun live :: "supervise_options \<Rightarrow> App \<Rightarrow> input \<Rightarrow> replicaState option \<Rightarrow> replicaState option \<times> bool" where
  "live opts a (SeenRunning now address) before =
     (case superviseRunning opts a address now before of (st, unhealthy, probed) \<Rightarrow> (Some st, unhealthy))"
| "live opts a (SeenDown now why) before =
     (case superviseDown opts a why now before of (st, started) \<Rightarrow> (Some st, started))"
| "live opts a (ProbeEnded now answered) before =
     (case a_health a of None \<Rightarrow> (before, False) | Some h \<Rightarrow> (probe h answered now before, False))"

text \<open>A run: the state at the end, and the times of the restarts, oldest first.\<close>

fun live_run :: "supervise_options \<Rightarrow> App \<Rightarrow> input list \<Rightarrow> replicaState option \<Rightarrow> replicaState option \<times> go_time list" where
  "live_run opts a [] before = (before, [])"
| "live_run opts a (i # is) before =
     (case live opts a i before of (before', again) \<Rightarrow>
      case live_run opts a is before' of (before'', ts) \<Rightarrow>
        (before'', (if again then [input_time i] else []) @ ts))"


lemmas supervise_defs = superviseRunning_def superviseDown_def forgive_def seen_running_def restart_def Let_def

section \<open>Restarts are spaced out\<close>

definition paced :: "supervise_options \<Rightarrow> go_time \<Rightarrow> replicaState \<Rightarrow> bool" where
  "paced opts now st \<longleftrightarrow>
     (restarts st > 0 \<longrightarrow> lastRestart st \<le> now \<and> lastRestart st + delay opts (restarts st) \<le> nextRestart st)"

definition all_paced :: "supervise_options \<Rightarrow> go_time \<Rightarrow> replicaState option \<Rightarrow> bool" where
  "all_paced opts now before \<longleftrightarrow> (\<forall>st. before = Some st \<longrightarrow> paced opts now st)"

lemma paced_later: "paced opts now st \<Longrightarrow> now \<le> later \<Longrightarrow> paced opts later st"
  by (auto simp: paced_def)

lemma paced_blank [simp]: "paced opts now (blank_state h)"
  by (simp add: paced_def blank_state_def)

lemma paced_state_of: "all_paced opts now before \<Longrightarrow> paced opts now (state_of a before)"
  by (auto simp: all_paced_def state_of_def split: option.split)

lemma paced_restart: "paced opts now (restart opts now st)"
  by (simp add: paced_def restart_def Let_def)

lemma paced_forgive: "paced opts now st \<Longrightarrow> paced opts now (forgive opts now st)"
  by (simp add: paced_def forgive_def Let_def)

lemma paced_running:
  assumes "all_paced opts now before" "superviseRunning opts a address now before = (st, again, probed)"
  shows "paced opts now st"
proof -
  let ?st = "forgive opts now (seen_running now (state_of a before))"
  have "paced opts now (seen_running now (state_of a before))"
    using paced_state_of[OF assms(1), of a] by (simp add: paced_def seen_running_def)
  then have st: "paced opts now ?st"
    by (rule paced_forgive)
  then have "paced opts now (?st\<lparr>probing := True, lastProbe := now\<rparr>)"
    by (simp add: paced_def)
  with st assms(2) show ?thesis
    by (auto simp: superviseRunning_def Let_def paced_restart split: if_splits)
qed

lemma paced_noticed:
  "paced opts now st \<Longrightarrow>
   paced opts now (st\<lparr>exitSeen := True, leaveStopped := b, nextRestart := now + delay opts (restarts st)\<rparr>)"
  by (auto simp: paced_def)

lemma paced_down:
  assumes "all_paced opts now before" "superviseDown opts a why now before = (st, again)"
  shows "paced opts now st"
proof -
  define st0 where "st0 = (if a_health a \<noteq> None then (state_of a before)\<lparr>upSince := 0, health := HealthUnhealthy, failures := 0\<rparr>
    else (state_of a before)\<lparr>upSince := 0\<rparr>)"
  have st0: "paced opts now st0"
    using paced_state_of[OF assms(1), of a] by (simp add: st0_def paced_def)
  have "st = st0 \<or> (\<exists>s. st = restart opts now s) \<or>
      (\<exists>b. st = st0\<lparr>exitSeen := True, leaveStopped := b, nextRestart := now + delay opts (restarts st0)\<rparr>)"
    using assms(2) by (auto simp: superviseDown_def Let_def st0_def split: if_splits option.splits)
  then show ?thesis
    using st0 paced_restart paced_noticed by auto
qed

lemma paced_probe: "all_paced opts now before \<Longrightarrow> all_paced opts now (probe h answered t before)"
  by (auto simp: all_paced_def probe_def Let_def paced_def split: option.splits if_splits)

lemma paced_live:
  assumes "all_paced opts now before" "now \<le> input_time i \<or> (\<exists>t b. i = ProbeEnded t b)" "live opts a i before = (after, again)"
  shows "all_paced opts (max now (input_time i)) after"
proof (cases i)
  case (SeenRunning t address)
  then have "all_paced opts t before"
    using assms(1,2) paced_later by (auto simp: all_paced_def)
  moreover obtain st probed where "superviseRunning opts a address t before = (st, again, probed)" "after = Some st"
    using assms(3) SeenRunning by (cases "superviseRunning opts a address t before") auto
  ultimately show ?thesis
    using SeenRunning assms(2) paced_running[of opts t before a address st again probed] by (simp add: all_paced_def max_def)
next
  case (SeenDown t why)
  then have "all_paced opts t before"
    using assms(1,2) paced_later by (auto simp: all_paced_def)
  moreover obtain st where "superviseDown opts a why t before = (st, again)" "after = Some st"
    using assms(3) SeenDown by (cases "superviseDown opts a why t before") auto
  ultimately show ?thesis
    using SeenDown assms(2) paced_down[of opts t before a why st again] by (simp add: all_paced_def max_def)
next
  case (ProbeEnded t b)
  then have "all_paced opts now after"
    using assms(1,3) paced_probe by (auto split: option.splits)
  then show ?thesis
    using paced_later by (auto simp: all_paced_def)
qed

text \<open>The clock of the ticks: it does not run backwards. Probes carry the time of the tick that launched them.\<close>

fun clock_after :: "go_time \<Rightarrow> input list \<Rightarrow> go_time" where
  "clock_after now [] = now"
| "clock_after now (i # is) = clock_after (max now (input_time i)) is"

fun in_order :: "go_time \<Rightarrow> input list \<Rightarrow> bool" where
  "in_order now [] = True"
| "in_order now (ProbeEnded t b # is) \<longleftrightarrow> t \<le> now \<and> in_order now is"
| "in_order now (i # is) \<longleftrightarrow> now \<le> input_time i \<and> in_order (input_time i) is"

lemma paced_run:
  "all_paced opts now before \<Longrightarrow> in_order now is \<Longrightarrow> all_paced opts (clock_after now is) (fst (live_run opts a is before))"
proof (induction "is" arbitrary: now before)
  case (Cons i "is")
  obtain before' again where l: "live opts a i before = (before', again)"
    by fastforce
  have "all_paced opts (max now (input_time i)) before'"
    using Cons.prems l by (intro paced_live[of opts now before i a]) (cases i; auto)+
  moreover have "in_order (max now (input_time i)) is"
    using Cons.prems(2) by (cases i) (auto simp: max_def)
  ultimately have "all_paced opts (clock_after (max now (input_time i)) is) (fst (live_run opts a is before'))"
    by (rule Cons.IH)
  then show ?case
    using l by (cases "live_run opts a is before'") simp
qed simp

lemma restart_due:
  assumes "all_paced opts now before" "live opts a i before = (before', True)" "before = Some st" "restarts st > 0"
    and "now \<le> input_time i"
  shows "lastRestart st + delay opts (restarts st) \<le> input_time i"
proof (cases i)
  case (SeenRunning t address)
  let ?st = "forgive opts t (seen_running t st)"
  have "restart_unhealthy a t ?st"
    using assms(2,3) SeenRunning by (auto simp: superviseRunning_def Let_def state_of_def split: if_splits)
  then have "health ?st = HealthUnhealthy" "nextRestart ?st \<le> t"
    by (auto simp: restart_unhealthy_def)
  then have "nextRestart st \<le> t"
    by (auto simp: forgive_def seen_running_def Let_def split: if_splits)
  then show ?thesis
    using assms(1,3,4) SeenRunning by (simp add: all_paced_def paced_def)
next
  case (SeenDown t why)
  then have "nextRestart st \<le> t \<or> t + delay opts (restarts st) \<le> t"
    using assms(2,3) by (auto simp: superviseDown_def Let_def state_of_def split: if_splits option.splits)
  then show ?thesis
    using assms(1,3,4,5) SeenDown by (auto simp: all_paced_def paced_def)
next
  case (ProbeEnded t b)
  then show ?thesis
    using assms(2) by (auto split: option.splits)
qed


section \<open>An exit that is final\<close>

text \<open>A replica whose exit has been noticed and whose policy leaves it stopped, or that may never be restarted.\<close>

definition left_stopped :: "replicaState option \<Rightarrow> bool" where
  "left_stopped before \<longleftrightarrow> (\<exists>st. before = Some st \<and> exitSeen st \<and> leaveStopped st)"

fun seen_up :: "input \<Rightarrow> bool" where
  "seen_up (SeenRunning t address) = True"
| "seen_up i = False"

lemma left_stopped_live:
  assumes "left_stopped before" "\<not> seen_up i" "live opts a i before = (after, again)"
  shows "left_stopped after \<and> \<not> again"
proof (cases i)
  case (SeenDown t why)
  then show ?thesis
    using assms(1,3) by (auto simp: left_stopped_def superviseDown_def Let_def state_of_def split: if_splits)
next
  case (ProbeEnded t b)
  then show ?thesis
    using assms(1,3) by (auto simp: left_stopped_def probe_def Let_def split: option.splits if_splits)
qed (use assms in auto)

lemma left_stopped_run:
  "left_stopped before \<Longrightarrow> list_all (\<lambda>i. \<not> seen_up i) is \<Longrightarrow> snd (live_run opts a is before) = []"
proof (induction "is" arbitrary: before)
  case (Cons i "is")
  obtain after again where l: "live opts a i before = (after, again)"
    by fastforce
  then have "left_stopped after \<and> \<not> again"
    using left_stopped_live[OF Cons.prems(1) _ l] Cons.prems(2) by auto
  then show ?case
    using Cons.IH[of after] Cons.prems l by (cases "live_run opts a is after") auto
qed simp

definition never_ok :: "replicaState option \<Rightarrow> bool" where
  "never_ok before \<longleftrightarrow> (\<forall>st. before = Some st \<longrightarrow> exitSeen st \<longrightarrow> leaveStopped st)"

lemma never_ok_live:
  assumes "never_ok before" "a_restart a = RestartNever" "live opts a i before = (after, again)"
  shows "never_ok after \<and> \<not> again"
proof (cases i)
  case (SeenRunning t address)
  then show ?thesis
    using assms by (auto simp: never_ok_def superviseRunning_def restart_unhealthy_def forgive_def seen_running_def Let_def split: if_splits)
next
  case (SeenDown t why)
  then show ?thesis
    using assms by (auto simp: never_ok_def superviseDown_def Let_def state_of_def shouldRestart_def blank_state_def
        split: if_splits option.splits)
next
  case (ProbeEnded t b)
  then show ?thesis
    using assms by (auto simp: never_ok_def probe_def Let_def split: option.splits if_splits)
qed

section \<open>Verdicts of the health check\<close>

text \<open>How many of the last answers were failures.\<close>

definition failing_for :: "bool list \<Rightarrow> nat" where
  "failing_for answers = length (takeWhile Not (rev answers))"

lemma failing_for_snoc [simp]: "failing_for (answers @ [b]) = (if b then 0 else Suc (failing_for answers))" "failing_for [] = 0"
  by (simp_all add: failing_for_def)

lemma failing_for_le: "failing_for answers \<le> length answers"
  unfolding failing_for_def using length_takeWhile_le[of Not "rev answers"] by simp

definition answers_of :: "Health \<Rightarrow> (go_time \<times> bool) list \<Rightarrow> replicaState \<Rightarrow> replicaState option" where
  "answers_of h answers st = fold (\<lambda>(t, b). probe h b t) answers (Some st)"

definition in_service :: "replicaState \<Rightarrow> bool" where
  "in_service st \<longleftrightarrow> health st \<in> {HealthHealthy, HealthUnknown} \<and> failures st = 0"

lemma answers_verdict:
  assumes "in_service st" "0 < h_retries h" "int (length answers) \<le> max_int64"
  shows "\<exists>st'. answers_of h answers st = Some st' \<and> health st' \<noteq> HealthStarting \<and> health st' \<noteq> HealthNone \<and>
    (if health st' = HealthUnhealthy then h_retries h \<le> int (failing_for (map snd answers))
     else failures st' = int (failing_for (map snd answers)) \<and> int (failing_for (map snd answers)) < h_retries h)"
  using assms(3)
proof (induction answers rule: rev_induct)
  case Nil
  then show ?case
    using assms(1,2) by (auto simp: answers_of_def in_service_def)
next
  case (snoc ans answers)
  obtain t b where ans: "ans = (t, b)"
    by (cases ans)
  from snoc.IH snoc.prems obtain st' where st': "answers_of h answers st = Some st'" "health st' \<noteq> HealthStarting" "health st' \<noteq> HealthNone"
    "if health st' = HealthUnhealthy then h_retries h \<le> int (failing_for (map snd answers))
     else failures st' = int (failing_for (map snd answers)) \<and> int (failing_for (map snd answers)) < h_retries h"
    by auto
  have "int (failing_for (map snd answers)) + 1 \<le> max_int64"
    using failing_for_le[of "map snd answers"] snoc.prems by simp
  then have wrap: "wrap64 (int (failing_for (map snd answers)) + 1) = int (failing_for (map snd answers)) + 1"
    by (intro wrap64_id) (auto simp: in_int64_def min_int64_def)
  have step: "answers_of h (answers @ [ans]) st = probe h b t (Some st')"
    using st'(1) ans by (simp add: answers_of_def)
  show ?case
  proof (cases b)
    case True
    then show ?thesis
      using step ans assms(2) by (simp add: probe_def)
  next
    case False
    then show ?thesis
      using step ans st'(2-4) wrap by (auto simp: probe_def Let_def split: if_splits)
  qed
qed

section \<open>Ready only once proven\<close>

text \<open>No probe has answered in favour of the replica.\<close>

fun unproven_input :: "input \<Rightarrow> bool" where
  "unproven_input (ProbeEnded t b) \<longleftrightarrow> \<not> b"
| "unproven_input i = True"

definition unproven :: "replicaState option \<Rightarrow> bool" where
  "unproven before \<longleftrightarrow> (\<exists>st. before = Some st \<and> (health st = HealthStarting \<or> health st = HealthUnhealthy))"

lemma unproven_live:
  assumes "unproven before" "unproven_input i" "a_health a \<noteq> None" "live opts a i before = (after, again)"
  shows "unproven after"
proof (cases i)
  case (SeenRunning t address)
  then show ?thesis
    using assms by (auto simp: unproven_def superviseRunning_def forgive_def seen_running_def restart_def state_of_def Let_def split: if_splits)
next
  case (SeenDown t why)
  then show ?thesis
    using assms by (auto simp: unproven_def superviseDown_def Let_def state_of_def restart_def split: if_splits option.splits)
next
  case (ProbeEnded t b)
  then show ?thesis
    using assms by (auto simp: unproven_def probe_def Let_def split: option.splits if_splits)
qed

lemma unproven_run:
  "unproven before \<Longrightarrow> list_all unproven_input is \<Longrightarrow> a_health a \<noteq> None \<Longrightarrow> unproven (fst (live_run opts a is before))"
proof (induction "is" arbitrary: before)
  case (Cons i "is")
  obtain after again where l: "live opts a i before = (after, again)"
    by fastforce
  then have "unproven after"
    using unproven_live[OF Cons.prems(1) _ Cons.prems(3) l] Cons.prems(2) by auto
  then show ?case
    using Cons.IH[of after] Cons.prems l by (cases "live_run opts a is after") auto
qed simp

lemma restarted_unproven:
  assumes "live opts a i before = (after, True)" "a_health a \<noteq> None" "before \<noteq> None \<longrightarrow> health (the before) \<noteq> HealthNone"
  shows "unproven after"
proof (cases i)
  case (SeenRunning t address)
  then show ?thesis
    using assms by (auto simp: unproven_def superviseRunning_def restart_def restart_unhealthy_def Let_def split: if_splits)
next
  case (SeenDown t why)
  then show ?thesis
    using assms by (auto simp: unproven_def superviseDown_def Let_def restart_def split: if_splits option.splits)
next
  case (ProbeEnded t b)
  then show ?thesis
    using assms by (auto split: option.splits)
qed


lemma in_order_append: "in_order now (is @ js) \<longleftrightarrow> in_order now is \<and> in_order (clock_after now is) js"
proof (induction "is" arbitrary: now)
  case (Cons i "is")
  then show ?case
    by (cases i) (auto simp: max_def)
qed simp

definition kind_ok :: "App \<Rightarrow> replicaState option \<Rightarrow> bool" where
  "kind_ok a before \<longleftrightarrow> (\<forall>st. before = Some st \<longrightarrow> (health st = HealthNone \<longleftrightarrow> a_health a = None))"

lemma kind_ok_live:
  assumes "kind_ok a before" "live opts a i before = (after, again)"
  shows "kind_ok a after"
proof (cases i)
  case (SeenRunning t address)
  then show ?thesis
    using assms by (auto simp: kind_ok_def superviseRunning_def forgive_def seen_running_def restart_def state_of_def blank_state_def Let_def
        split: if_splits option.splits)
next
  case (SeenDown t why)
  then show ?thesis
    using assms by (auto simp: kind_ok_def superviseDown_def Let_def state_of_def restart_def blank_state_def split: if_splits option.splits)
next
  case (ProbeEnded t b)
  then show ?thesis
    using assms by (auto simp: kind_ok_def probe_def Let_def split: option.splits if_splits)
qed

lemma kind_ok_run: "kind_ok a before \<Longrightarrow> kind_ok a (fst (live_run opts a is before))"
proof (induction "is" arbitrary: before)
  case (Cons i "is")
  obtain after again where l: "live opts a i before = (after, again)"
    by fastforce
  then show ?case
    using Cons.IH[OF kind_ok_live[OF Cons.prems l]] by (cases "live_run opts a is after") auto
qed simp

section \<open>Properties\<close>

text \<open>A replica with a health check that answers within five seconds, three failures, and ten seconds to come up.\<close>

definition web :: App where
  "web = default_app\<lparr>a_name := ''web'', a_image := ''web:1'', a_port := 8080,
     a_health := Some \<lparr>h_path = ''/health'', h_tcp = 0, h_command = [], h_interval = 10 * second, h_timeout = 5 * second, h_retries = 3,
       h_start_period = 0\<rparr>\<rparr>"

definition crashed :: exited where
  "crashed = \<lparr>x_code = 1, x_oom = False\<rparr>"

text \<open>
  C23: Restarts are spaced out: the next restart of a replica that was restarted \<open>n\<close> times in a row
  comes no sooner than the \<open>n\<close>-th delay after the last one, and once the delays are used up,
  no sooner than the delay of a crash loop. The hypothesis is that the ticks' clock does not run
  backwards.
\<close>

theorem restarts_are_paced:
  assumes "in_order 0 (is @ [i])" "fst (live_run opts a is None) = Some st" "0 < restarts st" "snd (live opts a i (Some st))"
  shows "lastRestart st + delay opts (restarts st) \<le> input_time i \<and>
    (length (RestartDelays opts) \<le> restarts st \<longrightarrow> lastRestart st + CrashLoopDelay opts \<le> input_time i)"
proof -
  have p: "all_paced opts (clock_after 0 is) (Some st)"
    using paced_run[of opts 0 None "is" a] assms(1,2) by (simp add: all_paced_def in_order_append)
  have "clock_after 0 is \<le> input_time i"
    using assms(1,4) by (cases i) (auto simp: in_order_append split: option.splits)
  then have "lastRestart st + delay opts (restarts st) \<le> input_time i"
    using restart_due[OF p _ refl assms(3)] assms(4) by (cases "live opts a i (Some st)") auto
  then show ?thesis
    by (auto simp: delay_def)
qed

definition demo_down :: "input list" where
  "demo_down = [SeenDown (100 * second) (Some crashed), SeenDown (101 * second) None, SeenDown (103 * second) (Some crashed)]"

theorem restarts_are_paced_witness: "101 * second + 2 * second \<le> 105 * second"
proof -
  let ?before = "fst (live_run default_options web demo_down None)"
  have ok: "in_order 0 (demo_down @ [SeenDown (105 * second) None])"
    by (simp add: demo_down_def second_def)
  have "map_option restarts ?before = Some 1" "map_option lastRestart ?before = Some (101 * second)"
      "snd (live default_options web (SeenDown (105 * second) None) ?before) = True" "delay default_options 1 = 2 * second"
    by code_simp+
  then obtain st where "?before = Some st" "restarts st = 1" "lastRestart st = 101 * second"
      "snd (live default_options web (SeenDown (105 * second) None) (Some st))"
    by (cases ?before) auto
  then show ?thesis
    using restarts_are_paced [OF ok, of default_options web st] \<open>delay default_options 1 = 2 * second\<close> by simp
qed

text \<open>
  An exit that the restart policy calls final stays final: a replica found down for the first time
  with such an exit is not restarted, however often it is looked at, until it is seen running again.
\<close>

theorem final_exit_stays:
  assumes "\<not> shouldRestart (a_restart a) c" "\<not> exitSeen (state_of a before)" "list_all (\<lambda>i. \<not> seen_up i) is"
  shows "snd (live_run opts a (SeenDown now (Some c) # is) before) = []"
proof -
  obtain after again where l: "live opts a (SeenDown now (Some c)) before = (after, again)"
    by fastforce
  then have "left_stopped after \<and> \<not> again"
    using assms(1,2) by (auto simp: left_stopped_def superviseDown_def Let_def split: if_splits)
  then show ?thesis
    using l left_stopped_run[of after "is" opts a] assms(3) by (cases "live_run opts a is after") simp
qed

theorem final_exit_stays_witness:
  "snd (live_run default_options (web\<lparr>a_restart := RestartOnFailure\<rparr>)
     [SeenDown 5 (Some \<lparr>x_code = 0, x_oom = False\<rparr>), SeenDown 9 None] None) = []"
  by (rule final_exit_stays) (simp_all add: shouldRestart_def state_of_def blank_state_def)

text \<open>
  A replica whose policy is \<open>never\<close> is never restarted, neither when it exits nor when its health check
  fails.
\<close>

theorem never_policy_never_restarts:
  assumes "a_restart a = RestartNever"
  shows "snd (live_run opts a is None) = []"
proof -
  have "never_ok before \<Longrightarrow> snd (live_run opts a is before) = []" for before
  proof (induction "is" arbitrary: before)
    case (Cons i "is")
    obtain after again where l: "live opts a i before = (after, again)"
      by fastforce
    then have "never_ok after \<and> \<not> again"
      using never_ok_live[OF Cons.prems assms l] by simp
    then show ?case
      using Cons.IH[of after] l by (cases "live_run opts a is after") simp
  qed simp
  then show ?thesis
    by (simp add: never_ok_def)
qed

theorem never_policy_never_restarts_witness:
  "snd (live_run default_options (web\<lparr>a_restart := RestartNever\<rparr>) [SeenDown 5 (Some crashed), SeenDown 500 None] None) = []"
  by (rule never_policy_never_restarts) simp

text \<open>
  The health check's verdict counts failures in a row: after any sequence of answers a replica
  in service is unhealthy exactly if at least as many of the last ones as \<open>retries\<close> says were failures.
\<close>

theorem unhealthy_after_retries:
  assumes "in_service st" "0 < h_retries h" "int (length answers) \<le> max_int64"
  shows "map_option health (answers_of h answers st) = Some HealthUnhealthy \<longleftrightarrow> h_retries h \<le> int (failing_for (map snd answers))"
  using answers_verdict[OF assms] by (auto split: if_splits)

theorem unhealthy_after_retries_witness:
  "map_option health (answers_of (the (a_health web)) [(10, False), (20, True), (30, False), (40, False), (50, False)] (blank_state HealthUnknown))
     = Some HealthUnhealthy"
proof -
  have "in_service (blank_state HealthUnknown)" "0 < h_retries (the (a_health web))"
      "h_retries (the (a_health web)) \<le> int (failing_for (map snd [(10 :: int, False), (20, True), (30, False), (40, False), (50, False)]))"
    by code_simp+
  then show ?thesis
    using unhealthy_after_retries [of "blank_state HealthUnknown" "the (a_health web)"
        "[(10, False), (20, True), (30, False), (40, False), (50, False)]"]
    by (simp add: max_int64_def)
qed

text \<open>
  A replica with a health check that was restarted gets no traffic until a probe has answered: it is not ready
  in any state that probes without an answer, and looks at it, can lead to.
\<close>

theorem restarted_not_ready:
  assumes "a_health a \<noteq> None" "kind_ok a before" "live opts a i before = (after, True)" "list_all unproven_input is"
  shows "\<not> isReady True (fst (snapshot (fst (live_run opts a is after))))"
proof -
  have "unproven after"
    using restarted_unproven[OF assms(3,1)] assms(1,2) by (cases before) (auto simp: kind_ok_def)
  then have "unproven (fst (live_run opts a is after))"
    using unproven_run assms(1,4) by blast
  then show ?thesis
    by (auto simp: unproven_def isReady_def snapshot_def)
qed

theorem restarted_not_ready_witness:
  "isReady True (fst (snapshot (fst (live_run default_options web [SeenRunning (7 * second) True, ProbeEnded (7 * second) False]
     (fst (live default_options web (SeenDown (6 * second) None) (fst (live default_options web (SeenDown (5 * second) (Some crashed)) None)))))))) = False"
proof -
  let ?before = "fst (live default_options web (SeenDown (5 * second) (Some crashed)) None)"
  let ?l = "live default_options web (SeenDown (6 * second) None) ?before"
  have "kind_ok web ?before"
    by (rule kind_ok_live[OF _ prod.collapse[symmetric]]) (simp add: kind_ok_def)
  moreover have "snd ?l = True"
    by code_simp
  then have "?l = (fst ?l, True)"
    by (metis prod.collapse)
  moreover have "a_health web \<noteq> None" "list_all unproven_input [SeenRunning (7 * second) True, ProbeEnded (7 * second) False]"
    by (simp_all add: web_def)
  ultimately show ?thesis
    using restarted_not_ready by blast
qed

text \<open>
  The bookkeeping of a replica says that there is no health check exactly if its application defines none, whatever
  happens to the replica.
\<close>

theorem health_kind:
  assumes "fst (live_run opts a is None) = Some st"
  shows "health st = HealthNone \<longleftrightarrow> a_health a = None"
  using kind_ok_run[of a None opts "is"] assms by (simp add: kind_ok_def)

theorem health_kind_witness: "health (fst (superviseRunning default_options web True 5 None)) \<noteq> HealthNone"
  using health_kind [of default_options web "[SeenRunning 5 True]" "fst (superviseRunning default_options web True 5 None)"]
  by (simp add: web_def split: prod.split)

lemma restarted_blank:
  assumes "live opts a i before = (Some st, True)"
  shows "health st \<in> {HealthStarting, HealthNone} \<and> upSince st = 0"
  using assms by (cases i) (auto simp: supervise_defs split: if_splits option.splits)

text \<open>
  C24: A probe that is still out when its replica is restarted condemns the new run: whatever happened to a
  replica with a health check before, once it has been restarted it is starting, and a probe that another tick
  had launched and that now fails, before the next tick, declares it unhealthy at once, however little of the
  startup budget is used: nothing says yet when the replica came up, and any time of our era is beyond the
  budget from the zero time on.
\<close>

theorem stale_probe_condemns:
  assumes "a_health a = Some h" "fst (live_run opts a is None) = before" "live opts a i before = (Some st, True)"
    and "StartupBudget h < time_sub launched 0"
  shows "health st = HealthStarting \<and>
    map_option health (fst (live opts a (ProbeEnded launched False) (Some st))) = Some HealthUnhealthy"
proof -
  have "health st = HealthStarting \<and> upSince st = 0"
    using restarted_blank[OF assms(3)] kind_ok_live[OF _ assms(3)] kind_ok_run[of a None opts "is"] assms(1,2)
    by (auto simp: kind_ok_def)
  then show ?thesis
    using assms(1,4) by (simp add: probe_def)
qed

theorem stale_probe_condemns_witness:
  "map_option health (fst (live default_options web (ProbeEnded (100 * second) False)
     (fst (live default_options web (SeenDown (102 * second) None)
       (fst (live_run default_options web [SeenRunning (100 * second) True, SeenDown (101 * second) (Some crashed)] None))))))
   = Some HealthUnhealthy"
proof -
  let ?before = "fst (live_run default_options web [SeenRunning (100 * second) True, SeenDown (101 * second) (Some crashed)] None)"
  let ?restarted = "live default_options web (SeenDown (102 * second) None) ?before"
  obtain h where h: "a_health web = Some h" "StartupBudget h < time_sub (100 * second) 0"
    by (simp add: web_def StartupBudget_def wrap64_def time_sub_def second_def max_int64_def min_int64_def)
  have "snd ?restarted" "fst ?restarted \<noteq> None"
    by code_simp+
  then obtain st where st: "?restarted = (Some st, True)"
    by (cases ?restarted) auto
  show ?thesis
    using stale_probe_condemns [OF h(1) refl st h(2)] st by (simp only: fst_conv)
qed

end
