(* ===== verification/Operations.thy ===== *)
theory Operations
  imports Rollout Supervisor
begin

text \<open>
  What a user asks of an application besides deploying it
  (\<^verbatim>\<open>src/agent/internal/deploy/operations.go\<close>): stop, start, delete, redeploy and roll back, and one
  supervision of the application (\<open>superviseApp\<close> and \<open>recreateReplicas\<close> of \<^verbatim>\<open>supervisor.go\<close>). All of them run
  with the application's lock held (\<open>Locks\<close>); they act on the world of \<open>Runtime\<close> and on the
  supervisor's memory of the application's replicas.

  Not modelled: the application's events, its images, static files, logs and traffic, which
  no decision here depends on. A graceful stop's time limit is not part of the world; that it is looked up in
  the database is a call like any other.
\<close>

section \<open>The server\<close>

record recreateState =
  rc_failures :: nat
  rc_next :: go_time

record server =
  sv_world :: world
  sv_states :: states
  sv_recreate :: "int \<rightharpoonup> recreateState"

definition in_world :: "(world, 'a) comp \<Rightarrow> (server, 'a) comp" where
  "in_world m s = (case m (sv_world s) of (x, w) \<Rightarrow> (x, s\<lparr>sv_world := w\<rparr>))"

definition do_world :: "(world \<Rightarrow> 'a \<times> world) \<Rightarrow> (server, 'a) comp" where
  "do_world f s = (case f (sv_world s) of (x, w) \<Rightarrow> (Inr x, s\<lparr>sv_world := w\<rparr>))"

definition with_server :: "(server \<Rightarrow> (server, 'a) comp) \<Rightarrow> (server, 'a) comp" where
  "with_server f s = f s s"

definition set_state :: "string \<Rightarrow> replicaState \<Rightarrow> (server, unit) comp" where
  "set_state c st s = done_with () (s\<lparr>sv_states := (sv_states s)(c \<mapsto> st)\<rparr>)"

section \<open>Stop, start, delete\<close>

definition ErrNotDeployed :: err where
  "ErrNotDeployed = Refusal ''application is not deployed''"

definition withActive :: "env \<Rightarrow> string \<Rightarrow> (Application \<Rightarrow> int \<Rightarrow> Replica list \<Rightarrow> (server, unit) comp) \<Rightarrow> (server, unit) comp" where
  "withActive e name fn =
     andThen (in_world (store_read e (GetApplication name))) (\<lambda>app.
     case app_active app of
       None \<Rightarrow> fail_with ErrNotDeployed
     | Some i \<Rightarrow>
         andThen (in_world (store_read e (\<lambda>s. Inr (ListReplicas i s)))) (\<lambda>replicas.
         fn app i replicas))"

text \<open>\<open>parallel\<close>: every item has its turn; the errors are those of the items, in order.\<close>

fun parallel :: "('a \<Rightarrow> ('s, unit) comp) \<Rightarrow> 'a list \<Rightarrow> ('s, err option list) comp" where
  "parallel fn [] = done_with []"
| "parallel fn (x # xs) = andThen (attempt (fn x)) (\<lambda>er. andThen (parallel fn xs) (\<lambda>ers. done_with (er # ers)))"

definition first_error :: "err option list \<Rightarrow> ('s, unit) comp" where
  "first_error ers = (case find (\<lambda>er. er \<noteq> None) ers of Some (Some er) \<Rightarrow> fail_with er | _ \<Rightarrow> done_with ())"

definition gracePeriodOf :: "env \<Rightarrow> int \<Rightarrow> (server, unit) comp" where
  "gracePeriodOf e i = andThen (attempt (in_world (store_read e (GetDeployment i)))) (\<lambda>_. done_with ())"

definition set_desired :: "env \<Rightarrow> int \<Rightarrow> DesiredState \<Rightarrow> (server, unit) comp" where
  "set_desired e i state =
     in_world (store_call e (\<lambda>s. case SetDesiredState i state s of Inl se \<Rightarrow> Inl se | Inr s' \<Rightarrow> Inr (s', ())))"

definition syncProxyBestEffort :: "env \<Rightarrow> string \<Rightarrow> (server, unit) comp" where
  "syncProxyBestEffort e app = andThen (attempt (in_world (SyncProxy e app))) (\<lambda>_. done_with ())"

definition Stop :: "env \<Rightarrow> string \<Rightarrow> (server, unit) comp" where
  "Stop e name = withActive e name (\<lambda>app i replicas.
     andThen (set_desired e (app_id app) DesiredStopped) (\<lambda>_.
     andThen (syncProxyBestEffort e name) (\<lambda>_.
     andThen (gracePeriodOf e i) (\<lambda>_.
     andThen (parallel (\<lambda>r. in_world (StopContainer e (r_container r))) replicas) first_error))))"

definition Start :: "env \<Rightarrow> string \<Rightarrow> (server, unit) comp" where
  "Start e name = withActive e name (\<lambda>app i replicas.
     andThen (each (\<lambda>r. in_world (startNameless e (r_container r))) replicas) (\<lambda>_.
     andThen (in_world (store_read e (GetDeployment i))) (\<lambda>d.
     andThen (each (\<lambda>r. set_state (r_container r) (reset (a_health (d_spec d) \<noteq> None))) replicas) (\<lambda>_.
     andThen (set_desired e (app_id app) DesiredRunning) (\<lambda>_.
     syncProxyBestEffort e name)))))"

definition delete_record :: "env \<Rightarrow> int \<Rightarrow> (server, unit) comp" where
  "delete_record e i =
     in_world (store_call e (\<lambda>s. case DeleteApplication i s of Inl se \<Rightarrow> Inl se | Inr s' \<Rightarrow> Inr (s', ())))"

definition Delete :: "env \<Rightarrow> string \<Rightarrow> (server, unit) comp" where
  "Delete e name =
     andThen (in_world (store_read e (GetApplication name))) (\<lambda>app.
     andThen (in_world (ListContainers e)) (\<lambda>listed.
     with_server (\<lambda>s.
     andThen (parallel (\<lambda>c. andThen (gracePeriodOf e (c_deployment c)) (\<lambda>_. in_world (retireContainer e (c_id c))))
               (filter (\<lambda>c. c_id c \<notin> set (drains (sv_world s))) listed)) (\<lambda>ers.
     andThen (first_error ers) (\<lambda>_.
     andThen (in_world (awaitDrains e)) (\<lambda>_.
     andThen (delete_record e (app_id app)) (\<lambda>_.
     syncProxyBestEffort e name)))))))"

section \<open>Deploying what has been deployed before\<close>

record origin =
  og_spec :: App
  og_kind :: string
  og_source :: "int option"

text \<open>Images that were built for one application (\<^verbatim>\<open>src/pkg/spec/build.go\<close>).\<close>

definition LocalImageHost :: string where
  "LocalImageHost = ''shipwick.local''"

definition IsLocalImage :: "string \<Rightarrow> bool" where
  "IsLocalImage ref \<longleftrightarrow> has_prefix ref (LocalImageHost @ ''/'')"

definition LocalImagePrefix :: "string \<Rightarrow> string" where
  "LocalImagePrefix app = LocalImageHost @ ''/'' @ app @ '':''"

definition ValidateLocalImage :: "string \<Rightarrow> string \<Rightarrow> bool" where
  "ValidateLocalImage ref app \<longleftrightarrow> \<not> IsLocalImage ref \<or> has_prefix ref (LocalImagePrefix app)"

text \<open>\<open>ValidateImage\<close>; whether the reference parses is the distribution library's answer, a parameter.\<close>

definition ValidateImage :: "(string \<Rightarrow> bool) \<Rightarrow> string \<Rightarrow> bool" where
  "ValidateImage parses ref \<longleftrightarrow> (\<forall>c \<in> set ref. byte_val c \<notin> {32, 9, 13, 10}) \<and> parses ref"

definition Redeploy_origin :: "env \<Rightarrow> (string \<Rightarrow> bool) \<Rightarrow> string \<Rightarrow> string \<Rightarrow> (world, origin) comp" where
  "Redeploy_origin e parses name ref =
     (if ref \<noteq> [] \<and> \<not> (ValidateImage parses ref \<and> ValidateLocalImage ref name) then fail_with (Refusal ''invalid image'')
      else
        andThen (store_read e (GetApplication name)) (\<lambda>app.
        case app_active app of
          None \<Rightarrow> fail_with ErrNotDeployed
        | Some i \<Rightarrow>
            andThen (store_read e (GetDeployment i)) (\<lambda>active.
            if ref = [] then
              done_with \<lparr>og_spec = d_spec active, og_kind = ''redeploy'', og_source = Some (d_id active)\<rparr>
            else if a_static (d_spec active) \<noteq> None then fail_with (Refusal ''a static application has no image'')
            else if a_build (d_spec active) \<noteq> None \<and> \<not> IsLocalImage ref then fail_with (Refusal ''built by shipwick deploy'')
            else done_with \<lparr>og_spec = (d_spec active)\<lparr>a_image := ref\<rparr>, og_kind = ''redeploy'', og_source = Some (d_id active)\<rparr>)))"

definition ErrNoRollbackTarget :: err where
  "ErrNoRollbackTarget = Refusal ''no earlier successful deployment to roll back to''"

text \<open>The target's id, 0 for the most recent one.\<close>

definition rollback_target :: "env \<Rightarrow> string \<Rightarrow> int \<Rightarrow> (world, Deployment) comp" where
  "rollback_target e name targetID =
     andThen (store_read e (GetApplication name)) (\<lambda>app.
     if app_active app = None then fail_with ErrNotDeployed
     else if targetID \<noteq> 0 then
       andThen (store_read e (GetDeployment targetID)) (\<lambda>target.
       if d_application_id target \<noteq> app_id app \<or> d_status target \<noteq> StatusSuperseded then fail_with ErrNoRollbackTarget
       else done_with target)
     else
       andThen (store_read e (\<lambda>s. Inr (listDeployments
           \<lparr>f_application = name, f_statuses = [StatusSuperseded], f_limit = 1\<rparr> s))) (\<lambda>previous.
       case previous of [] \<Rightarrow> fail_with ErrNoRollbackTarget | target # _ \<Rightarrow> done_with target))"

definition Rollback_origin :: "env \<Rightarrow> string \<Rightarrow> int \<Rightarrow> (world, origin) comp" where
  "Rollback_origin e name targetID =
     andThen (rollback_target e name targetID) (\<lambda>target.
     done_with \<lparr>og_spec = d_spec target, og_kind = ''rollback'', og_source = Some (d_id target)\<rparr>)"

text \<open>
  \<open>start\<close>, with the lock held: the origin, the checks every deployment passes (\<open>admit\<close>, a parameter:
  they read the other applications' hostnames and ports), the record, and the rollout that carries it out.
\<close>

definition start :: "env \<Rightarrow> (App \<Rightarrow> bool) \<Rightarrow> string \<Rightarrow> (world, origin) comp \<Rightarrow> (world, rollout) comp" where
  "start e admit actor resolve =
     andThen resolve (\<lambda>og.
     if \<not> admit (og_spec og) then fail_with (Refusal ''not admitted'')
     else
       andThen (\<lambda>w. store_call e (\<lambda>s. case insertDeployment (og_spec og) (og_kind og) (og_source og) actor (clock e (calls w)) s of
                              None \<Rightarrow> Inl ErrConflict | Some (d, s') \<Rightarrow> Inr (s', d)) w) (\<lambda>d w.
       (Inr (newRollout d w), w)))"

end
