(* ===== verification/Supervise_App.thy ===== *)
theory Supervise_App
  imports Operations
begin

text \<open>
  One supervision of an application, with its lock held
  (\<open>superviseApp\<close>, \<open>noteDisappeared\<close>, \<open>recreateReplicas\<close> and \<open>forgetGone\<close> of
  \<^verbatim>\<open>src/agent/internal/deploy/supervisor.go\<close>, \<open>lookup\<close> of \<^verbatim>\<open>snapshot.go\<close>): the leftovers of other
  deployments, every replica the database lists, and the replicas that are missing.

  What the tick's list has, and what Docker says about single containers, is the argument \<open>view\<close>. The
  list may be out of date: it is not the world's containers.
\<close>

section \<open>Definitions\<close>

datatype lookup_answer = Found container | NotThere | LookupFailed

record docker_view =
  v_listed :: "container list"
  v_inspect :: "string \<Rightarrow> lookup_answer"
  v_address :: "string \<Rightarrow> bool"
  v_ended :: "string \<Rightarrow> bool"
  v_exit :: "string \<Rightarrow> exited option"
  v_deployments :: "int \<Rightarrow> Deployment option"

text \<open>The list's answer, or Docker's about a container the list does not have.\<close>

definition lookup :: "docker_view \<Rightarrow> string \<Rightarrow> lookup_answer" where
  "lookup v c = (case find (\<lambda>k. c_id k = c) (v_listed v) of Some k \<Rightarrow> Found k | None \<Rightarrow> v_inspect v c)"

text \<open>Bookkeeping of containers that are gone from the list, and of deployments that are not active.\<close>

definition forgetGone :: "docker_view \<Rightarrow> int list \<Rightarrow> server \<Rightarrow> server" where
  "forgetGone v active s =
     s\<lparr>sv_states := (\<lambda>c. if c \<in> c_id ` set (v_listed v) then sv_states s c else None),
       sv_recreate := (\<lambda>d. if d \<in> set active then sv_recreate s d else None)\<rparr>"

text \<open>A container of another deployment, unless it drains, runs a job, or is gone by now.\<close>

definition leftover :: "env \<Rightarrow> docker_view \<Rightarrow> int \<Rightarrow> container \<Rightarrow> (server, unit) comp" where
  "leftover e v dep c = with_server (\<lambda>s.
     if c_job c \<or> c_id c \<in> set (drains (sv_world s)) \<or> c_deployment c = dep \<or> v_inspect v (c_id c) = NotThere then done_with ()
     else andThen (gracePeriodOf e (c_deployment c)) (\<lambda>_.
          andThen (do_world (retireInBackground e (c_id c))) (\<lambda>_. done_with ())))"

text \<open>
  A restart: \<open>act\<close> starts the container, the bookkeeping follows whether it worked or not, and one that
  worked is counted.
\<close>

definition do_restart :: "env \<Rightarrow> string \<Rightarrow> (world, unit) comp \<Rightarrow> (server, unit) comp" where
  "do_restart e c act =
     andThen (attempt (in_world act)) (\<lambda>er.
     if er = None then andThen (attempt (in_world (store_write e (IncrementReplicaRestarts c)))) (\<lambda>_. done_with ())
     else done_with ())"

text \<open>
  A probe that is launched runs on its own: its end is \<open>probe_ends\<close>. \<open>restart\<close> has the new bookkeeping of
  \<open>superviseRunning\<close> and \<open>superviseDown\<close> written before the container is touched; nothing reads it in between.
\<close>

definition supervise_replica ::
    "env \<Rightarrow> supervise_options \<Rightarrow> App \<Rightarrow> docker_view \<Rightarrow> go_time \<Rightarrow> Replica \<Rightarrow> container \<Rightarrow> (server, unit) comp" where
  "supervise_replica e opts a v now r c = with_server (\<lambda>s.
     if c_running c then
       (case superviseRunning opts a (v_address v (c_id c)) now (sv_states s (r_container r)) of
          (st, unhealthy, probed) \<Rightarrow>
            andThen (set_state (r_container r) st) (\<lambda>_.
            if unhealthy
            then do_restart e (r_container r) (andThen (StopContainer e (r_container r)) (\<lambda>_. startNameless e (r_container r)))
            else done_with ()))
     else if v_ended v (c_id c) then
       (case superviseDown opts a (v_exit v (r_container r)) now (sv_states s (r_container r)) of
          (st, again) \<Rightarrow>
            andThen (set_state (r_container r) st) (\<lambda>_.
            if again then do_restart e (r_container r) (startNameless e (r_container r)) else done_with ()))
     else done_with ())"

text \<open>The results: the indexes of the replicas that are present.\<close>

fun supervise_replicas ::
    "env \<Rightarrow> supervise_options \<Rightarrow> App \<Rightarrow> docker_view \<Rightarrow> go_time \<Rightarrow> Replica list \<Rightarrow> (server, nat list) comp" where
  "supervise_replicas e opts a v now [] = done_with []"
| "supervise_replicas e opts a v now (r # rs) =
     (case lookup v (r_container r) of
        LookupFailed \<Rightarrow> supervise_replicas e opts a v now rs
      | NotThere \<Rightarrow>
          andThen (attempt (in_world (store_write e (MarkReplicaRemoved (r_container r))))) (\<lambda>_.
          supervise_replicas e opts a v now rs)
      | Found c \<Rightarrow>
          andThen (supervise_replica e opts a v now r c) (\<lambda>_.
          andThen (supervise_replicas e opts a v now rs) (\<lambda>present.
          done_with (r_index r # present))))"

definition set_recreate :: "int \<Rightarrow> recreateState option \<Rightarrow> (server, unit) comp" where
  "set_recreate d st s = done_with () (s\<lparr>sv_recreate := (sv_recreate s)(d := st)\<rparr>)"

definition recreateReplicas ::
    "env \<Rightarrow> supervise_options \<Rightarrow> go_time \<Rightarrow> Deployment \<Rightarrow> nat list \<Rightarrow> (server, unit) comp" where
  "recreateReplicas e opts now d missing = with_server (\<lambda>s.
     let st = (case sv_recreate s (d_id d) of Some st \<Rightarrow> st | None \<Rightarrow> \<lparr>rc_failures = 0, rc_next = 0\<rparr>)
     in if now < rc_next st then set_recreate (d_id d) (Some st)
        else
          andThen (do_world (ensureReplicas e d missing)) (\<lambda>(created, er).
          if er \<noteq> None then
            andThen (each (\<lambda>r. andThen (attempt (in_world (removeContainer e (r_container r)))) (\<lambda>_. done_with ())) created) (\<lambda>_.
            set_recreate (d_id d) (Some \<lparr>rc_failures = rc_failures st + 1, rc_next = now + delay opts (rc_failures st)\<rparr>))
          else
            andThen (set_recreate (d_id d) None) (\<lambda>_.
            each (\<lambda>r. set_state (r_container r) (reset (a_health (d_spec d) \<noteq> None))) created)))"

definition active_deployment :: "env \<Rightarrow> docker_view \<Rightarrow> int \<Rightarrow> (server, Deployment) comp" where
  "active_deployment e v i =
     (case v_deployments v i of
        Some d \<Rightarrow> done_with d
      | None \<Rightarrow> in_world (store_read e (GetDeployment i)))"

definition superviseApp :: "env \<Rightarrow> supervise_options \<Rightarrow> docker_view \<Rightarrow> go_time \<Rightarrow> string \<Rightarrow> (server, unit) comp" where
  "superviseApp e opts v now name =
     andThen (in_world (store_read e (GetApplication name))) (\<lambda>app.
     case app_active app of
       None \<Rightarrow> done_with ()
     | Some i \<Rightarrow>
         if app_desired app \<noteq> DesiredRunning then done_with ()
         else
           andThen (active_deployment e v i) (\<lambda>d.
           if a_static (d_spec d) \<noteq> None then done_with ()
           else
             andThen (in_world (store_read e (\<lambda>s. Inr (ListReplicas (d_id d) s)))) (\<lambda>replicas.
             andThen (each (leftover e v (d_id d)) (v_listed v)) (\<lambda>_.
             andThen (supervise_replicas e opts (d_spec d) v now replicas) (\<lambda>present.
             let missing = filter (\<lambda>i. i \<notin> set present) [1..<a_replicas (d_spec d) + 1]
             in if missing = [] then done_with () else recreateReplicas e opts now d missing)))))"

text \<open>The end of a probe, launched by the tick at \<open>now\<close>.\<close>

definition probe_ends :: "App \<Rightarrow> string \<Rightarrow> bool \<Rightarrow> go_time \<Rightarrow> server \<Rightarrow> server" where
  "probe_ends a c answered now s =
     (case a_health a of
        None \<Rightarrow> s
      | Some h \<Rightarrow> s\<lparr>sv_states := (sv_states s)(c := probe h answered now (sv_states s c))\<rparr>)"

section \<open>What every operation keeps\<close>

text \<open>Relations of the world, lifted to the server.\<close>

definition of_world :: "(world \<Rightarrow> world \<Rightarrow> bool) \<Rightarrow> server \<Rightarrow> server \<Rightarrow> bool" where
  "of_world R s t \<longleftrightarrow> R (sv_world s) (sv_world t)"

lemma in_world_keeps: "keeps R m \<Longrightarrow> keeps (of_world R) (in_world m)"
  by (auto simp: keeps_def of_world_def in_world_def split: prod.split) (metis snd_conv)

lemma do_world_keeps: "keeps R f \<Longrightarrow> keeps (of_world R) (do_world f)"
  by (auto simp: keeps_def of_world_def do_world_def split: prod.split) (metis snd_conv)

lemma keeps_with_server: "(\<And>s. keeps R (f s)) \<Longrightarrow> keeps R (with_server f)"
  by (simp add: keeps_def with_server_def)

locale server_law = engine_effects R e for R :: "world \<Rightarrow> world \<Rightarrow> bool" and e :: env +
  assumes law_desire: "SetDesiredState i state (database w) = Inr s1 \<Longrightarrow> R w (w\<lparr>database := s1\<rparr>)"
    and law_delete: "DeleteApplication i (database w) = Inr s1 \<Longrightarrow> R w (w\<lparr>database := s1\<rparr>)"
    and law_count: "R w (w\<lparr>database := IncrementReplicaRestarts c (database w)\<rparr>)"

sublocale server_law \<subseteq> server: preorder_law "of_world R"
  by unfold_locales (auto simp: of_world_def intro: law_refl law_trans)

context server_law
begin

lemma server_set_state: "keeps (of_world R) (set_state c st)" "keeps (of_world R) (set_recreate d rc)"
  by (simp_all add: keeps_def of_world_def set_state_def set_recreate_def done_with_def law_refl)

lemma server_grace: "keeps (of_world R) (gracePeriodOf e i)"
  unfolding gracePeriodOf_def by (intro server.keeps_combinators in_world_keeps keeps_store_read)

lemma server_sync: "keeps (of_world R) (syncProxyBestEffort e app)"
  unfolding syncProxyBestEffort_def by (intro server.keeps_combinators in_world_keeps keeps_sync)

lemma server_desired: "keeps (of_world R) (set_desired e i state)"
  unfolding set_desired_def
  by (intro in_world_keeps keeps_store_call) (auto split: sum.splits intro: law_desire)

lemma server_delete: "keeps (of_world R) (delete_record e i)"
  unfolding delete_record_def
  by (intro in_world_keeps keeps_store_call) (auto split: sum.splits intro: law_delete)

lemma server_parallel: "(\<And>x. keeps (of_world R) (f x)) \<Longrightarrow> keeps (of_world R) (parallel f xs)"
  by (induction xs) (auto intro!: server.keeps_combinators)

lemma server_first_error: "keeps (of_world R) (first_error ers)"
  unfolding first_error_def by (auto split: option.splits intro: server.keeps_combinators)

lemma server_withActive: "(\<And>app i rs. keeps (of_world R) (fn app i rs)) \<Longrightarrow> keeps (of_world R) (withActive e name fn)"
  unfolding withActive_def
  by (auto split: option.split intro!: server.keeps_combinators in_world_keeps keeps_store_read)

lemma server_Stop: "keeps (of_world R) (Stop e name)"
  unfolding Stop_def
  by (intro server_withActive server.keeps_combinators server_desired server_sync server_grace server_parallel server_first_error
      in_world_keeps keeps_docker)

lemma server_Start: "keeps (of_world R) (Start e name)"
  unfolding Start_def
  by (intro server_withActive server.keeps_combinators server_desired server_sync server_set_state
      in_world_keeps keeps_docker keeps_store_read)

lemma server_Delete: "keeps (of_world R) (Delete e name)"
  unfolding Delete_def
  by (intro server.keeps_combinators keeps_with_server server_parallel server_first_error server_grace server_delete server_sync
      in_world_keeps keeps_remove keeps_list keeps_store_read keeps_awaitDrains)

lemma server_leftover: "keeps (of_world R) (leftover e v dep c)"
  unfolding leftover_def
  by (auto intro!: keeps_with_server server.keeps_combinators server_grace do_world_keeps keeps_background)

lemma server_do_restart: "keeps R act \<Longrightarrow> keeps (of_world R) (do_restart e c act)"
  unfolding do_restart_def
  by (auto intro!: server.keeps_combinators in_world_keeps keeps_store_write law_count)

lemma server_replica: "keeps (of_world R) (supervise_replica e opts a v now r c)"
  unfolding supervise_replica_def
  by (auto split: prod.split intro!: keeps_with_server server.keeps_combinators server_set_state server_do_restart keeps_docker keeps_andThen)

lemma server_replicas: "keeps (of_world R) (supervise_replicas e opts a v now rs)"
  by (induction rs)
    (auto split: lookup_answer.split intro!: server.keeps_combinators server_replica in_world_keeps keeps_store_write law_removed)

lemma server_recreate: "keeps (of_world R) (recreateReplicas e opts now d missing)"
  unfolding recreateReplicas_def Let_def
  by (auto intro!: keeps_with_server server.keeps_combinators server_set_state do_world_keeps keeps_ensureReplicas in_world_keeps keeps_remove)

lemma server_superviseApp: "keeps (of_world R) (superviseApp e opts v now name)"
  unfolding superviseApp_def active_deployment_def Let_def
  by (auto split: option.split intro!: server.keeps_combinators in_world_keeps keeps_store_read server_leftover server_replicas server_recreate)

end

interpretation server_steps: server_law store_steps e for e
  by unfold_locales (auto simp: store_steps_def intro: db_step.intros)


interpretation server_apps: engine_effects same_applications e for e
  by (rule apps_law.engine_effects_axioms)

section \<open>What is down stays down, what is gone stays gone\<close>

definition down :: "string \<Rightarrow> world \<Rightarrow> bool" where
  "down c w \<longleftrightarrow> (\<forall>k \<in> set (containers w). c_id k = c \<longrightarrow> \<not> c_running k)"

text \<open>
  \<open>shrinks\<close>: no container and no drain is new, what does not run does not run after it, and the
  applications are as they were. The calls that neither create nor start keep it.
\<close>

definition shrinks :: "world \<Rightarrow> world \<Rightarrow> bool" where
  "shrinks w w' \<longleftrightarrow> c_id ` set (containers w') \<subseteq> c_id ` set (containers w) \<and> set (drains w') \<subseteq> set (drains w) \<and>
     (\<forall>c. down c w \<longrightarrow> down c w') \<and> applications (database w') = applications (database w)"

lemma shrinks_refl: "shrinks w w"
  by (simp add: shrinks_def)

lemma shrinks_trans:
  assumes "shrinks u v" "shrinks v w"
  shows "shrinks u w"
proof -
  have "\<forall>c. down c u \<longrightarrow> down c w"
    using assms by (simp add: shrinks_def)
  moreover have "c_id ` set (containers w) \<subseteq> c_id ` set (containers u)"
    using assms unfolding shrinks_def by (elim conjE) (rule subset_trans)
  moreover have "set (drains w) \<subseteq> set (drains u)"
    using assms unfolding shrinks_def by (elim conjE) (rule subset_trans)
  moreover have "applications (database w) = applications (database u)"
    using assms unfolding shrinks_def by (elim conjE) (simp only:)
  ultimately show ?thesis
    by (simp only: shrinks_def simp_thms)
qed

lemmas applications_kept = apps_law.law_removed[unfolded same_applications_def, simplified]
  apps_law.law_added[unfolded same_applications_def, simplified] apps_law.law_transition[unfolded same_applications_def, simplified]
  apps_law.law_complete[unfolded same_applications_def, simplified]

lemma shrinks_frame:
  "containers w' = containers w \<Longrightarrow> drains w' = drains w \<Longrightarrow> applications (database w') = applications (database w) \<Longrightarrow> shrinks w w'"
  by (simp add: shrinks_def down_def)

lemma shrinks_remove: "shrinks w (remove_container c w)"
  by (auto simp: shrinks_def down_def remove_container_def)

lemma shrinks_end_drain: "shrinks w (end_drain e n c w)"
  by (auto simp: shrinks_def down_def end_drain_def remove_container_def mark_removed_def Let_def applications_kept split: drain_end.split)

lemma shrinks_tick: "shrinks w (tick e w)"
proof -
  have "shrinks w (fold (end_drain e n) ds w)" for n ds
    by (induction ds arbitrary: w) (auto intro: shrinks_refl shrinks_trans[OF shrinks_end_drain])
  then show ?thesis
    unfolding tick_def note_seen_def by (rule shrinks_trans[OF _ shrinks_frame]) simp_all
qed

interpretation shrinks_law: world_effects shrinks e for e
proof
  show "shrinks w (give_names e n p app w)" for w n p app
    unfolding shrinks_def down_def give_names_def by (auto simp: image_image intro: rev_image_eqI)
qed (auto simp: shrinks_tick note_seen_def applications_kept intro: shrinks_refl shrinks_frame elim: shrinks_trans)

interpretation server_shrinks: preorder_law "of_world shrinks"
  by unfold_locales (auto simp: of_world_def intro: shrinks_refl shrinks_trans)

lemma shrinks_stop: "shrinks w (update_container c (\<lambda>k. k\<lparr>c_running := False\<rparr>) w)"
  by (auto simp: shrinks_def down_def update_container_def)

lemma shrinks_docker: "keeps shrinks (StopContainer e c)" "keeps shrinks (RemoveContainer e c)" "keeps shrinks (retireContainer e c)"
  unfolding StopContainer_def RemoveContainer_def retireContainer_def removeContainer_def
  by (intro shrinks_law.keeps_call shrinks_law.keeps_combinators shrinks_stop shrinks_remove shrinks_law.keeps_store_write
      shrinks_frame; simp add: applications_kept)+

lemma server_grace_shrinks: "keeps (of_world shrinks) (gracePeriodOf e i)"
  unfolding gracePeriodOf_def by (intro server_shrinks.keeps_combinators in_world_keeps shrinks_law.keeps_store_read)

lemma server_sync_shrinks: "keeps (of_world shrinks) (syncProxyBestEffort e app)"
  unfolding syncProxyBestEffort_def by (intro server_shrinks.keeps_combinators in_world_keeps shrinks_law.keeps_sync)

lemma parallel_shrinks: "(\<And>x. keeps (of_world shrinks) (f x)) \<Longrightarrow> keeps (of_world shrinks) (parallel f xs)"
  by (induction xs) (auto intro!: server_shrinks.keeps_combinators)

text \<open>When no item reports an error, what each of them brings about holds at the end.\<close>

lemma andThen_Inr:
  assumes "andThen m k s = (Inr x, s')"
  obtains y t where "m s = (Inr y, t)" "k y t = (Inr x, s')"
  using assms by (auto simp: andThen_def split: prod.splits sum.splits)

lemma parallel_result:
  assumes "parallel f xs s = (Inr ers, s')" "find (\<lambda>er. er \<noteq> None) ers = None" "x \<in> set xs"
    and "\<And>x. keeps (of_world shrinks) (f x)"
    and "\<And>x t t'. f x t = (Inr (), t') \<Longrightarrow> P x (sv_world t')"
    and "\<And>x w w'. P x w \<Longrightarrow> shrinks w w' \<Longrightarrow> P x w'"
  shows "P x (sv_world s')"
  using assms(1-3)
proof (induction xs arbitrary: s ers)
  case (Cons y ys)
  obtain er t where first: "attempt (f y) s = (Inr er, t)"
    and rest: "andThen (parallel f ys) (\<lambda>ers. done_with (er # ers)) t = (Inr ers, s')"
    by (rule andThen_Inr[OF Cons.prems(1)[unfolded parallel.simps]])
  obtain ers' t' where "parallel f ys t = (Inr ers', t')" "done_with (er # ers') t' = (Inr ers, s')"
    by (rule andThen_Inr[OF rest])
  with first have run: "attempt (f y) s = (Inr er, t)" "parallel f ys t = (Inr ers', s')" "ers = er # ers'"
    by (simp_all add: done_with_def)
  have later: "shrinks (sv_world t) (sv_world s')"
    using keeps_result[OF parallel_shrinks[OF assms(4)] run(2)] by (simp add: of_world_def)
  have none: "er = None" "find (\<lambda>er. er \<noteq> None) ers' = None"
    using Cons.prems(2) unfolding run(3) by (cases er; simp)+
  show ?case
  proof (cases "x = y")
    case True
    have "f y s = (Inr (), t)"
      using run(1) none(1) by (auto simp: attempt_def split: prod.splits sum.splits)
    then show ?thesis
      using assms(5,6) later True by blast
  next
    case False
    then show ?thesis
      using Cons.IH[OF run(2) none(2)] Cons.prems(3) by simp
  qed
qed simp

lemma first_error_Inr: "first_error ers s = (Inr x, s') \<Longrightarrow> find (\<lambda>er. er \<noteq> None) ers = None \<and> s' = s"
  by (auto simp: first_error_def fail_with_def done_with_def split: option.splits dest: find_SomeD)

lemma call_Inr: "call e f w = (Inr x, w') \<Longrightarrow> w' = note_seen (f (tick e w))"
  by (auto simp: call_def Let_def split: answer.splits)

lemma down_shrinks: "down c w \<Longrightarrow> shrinks w w' \<Longrightarrow> down c w'"
  by (simp add: shrinks_def)

lemma in_world_Inr:
  assumes "in_world m s = (Inr x, s')"
  shows "m (sv_world s) = (Inr x, sv_world s')" and "sv_states s' = sv_states s"
proof -
  obtain y w where run: "m (sv_world s) = (y, w)"
    by (cases "m (sv_world s)")
  have "in_world m s = (y, s\<lparr>sv_world := w\<rparr>)"
    unfolding in_world_def run by (rule prod.case)
  then have parts: "y = Inr x" "s' = s\<lparr>sv_world := w\<rparr>"
    using assms by simp_all
  show "m (sv_world s) = (Inr x, sv_world s')" "sv_states s' = sv_states s"
    unfolding parts(2) run parts(1) by simp_all
qed

lemma down_when_stopped: "down c (note_seen (update_container c (\<lambda>k. k\<lparr>c_running := False\<rparr>) w))"
  unfolding down_def
proof (intro ballI impI)
  fix k assume "k \<in> set (containers (note_seen (update_container c (\<lambda>k. k\<lparr>c_running := False\<rparr>) w)))" and k: "c_id k = c"
  moreover have "containers (note_seen w') = containers w'" "containers (update_container c f w') =
      map (\<lambda>x. if c_id x = c then f x else x) (containers w')" for f w'
    by (simp_all add: note_seen_def update_container_def)
  ultimately have "k \<in> (\<lambda>x. if c_id x = c then x\<lparr>c_running := False\<rparr> else x) ` set (containers w)"
    by (simp only: set_map)
  then obtain x where x: "k = (if c_id x = c then x\<lparr>c_running := False\<rparr> else x)"
    by (rule imageE)
  show "\<not> c_running k"
    using k unfolding x by (cases "c_id x = c") simp_all
qed

lemma stop_down:
  assumes "in_world (StopContainer e c) t = (Inr (), t')"
  shows "down c (sv_world t')"
proof -
  have "StopContainer e c (sv_world t) = (Inr (), sv_world t')"
    by (rule in_world_Inr[OF assms])
  from call_Inr[OF this[unfolded StopContainer_def]] show ?thesis
    by (simp only: down_when_stopped)
qed

lemma store_call_Inr:
  "store_call e f w = (Inr x, w') \<Longrightarrow> \<exists>d. f (database (tick e w)) = Inr (d, x) \<and> w' = (tick e w)\<lparr>database := d\<rparr>"
  by (auto simp: store_call_def Let_def split: answer.splits sum.splits prod.splits)

lemma store_read_Inr: "store_read e f w = (Inr x, w') \<Longrightarrow> f (database (tick e w)) = Inr x \<and> w' = tick e w"
  by (auto simp: store_read_def dest!: store_call_Inr split: sum.splits)

lemma applications_tick [simp]: "applications (database (tick e w)) = applications (database w)"
  using apps_law.law_tick[of w e] by (simp add: same_applications_def)

lemma GetApplication_cong: "applications s = applications t \<Longrightarrow> GetApplication name s = GetApplication name t"
  by (simp add: GetApplication_def find_app_def)

lemma shrinks_app: "shrinks w w' \<Longrightarrow> GetApplication name (database w') = GetApplication name (database w)"
  unfolding shrinks_def by (elim conjE) (rule GetApplication_cong)

lemma find_after_update:
  "find P xs = Some a \<Longrightarrow> (\<And>x. P (g x) = P x) \<Longrightarrow> find P (map g xs) = Some (g a)"
  by (induction xs) (auto split: if_splits)

lemma desired_after:
  assumes "GetApplication name s = Inr app" "SetDesiredState (app_id app) state s = Inr s'"
  shows "GetApplication name s' = Inr (app\<lparr>app_desired := state\<rparr>)"
proof -
  have "find (\<lambda>a. app_name a = name) (applications s) = Some app"
    using assms(1) by (auto simp: GetApplication_def find_app_def split: option.splits)
  from find_after_update[OF this, of "\<lambda>a. if app_id a = app_id app then a\<lparr>app_desired := state\<rparr> else a"] assms(2)
  show ?thesis
    by (auto simp: SetDesiredState_def update_app_def GetApplication_def find_app_def split: if_splits)
qed


section \<open>Stopped stays stopped\<close>

text \<open>A replica that is listed remains listed, or does not run, while time passes.\<close>

definition listed_or_down :: "world \<Rightarrow> world \<Rightarrow> bool" where
  "listed_or_down w w' \<longleftrightarrow> (\<forall>i. \<forall>r \<in> set (ListReplicas i (database w)). r \<in> set (ListReplicas i (database w')) \<or> down (r_container r) w')"

lemma listed_marked: "r \<in> set (ListReplicas i s) \<Longrightarrow> r_container r \<noteq> c \<Longrightarrow> r \<in> set (ListReplicas i (MarkReplicaRemoved c s))"
proof -
  assume r: "r \<in> set (ListReplicas i s)" "r_container r \<noteq> c"
  then have "(r, False) \<in> set (replica_rows s)" "r_deployment r = i"
    by (auto simp: ListReplicas_def)
  moreover from this(1) r(2) have "(r, False) \<in> set (replica_rows (MarkReplicaRemoved c s))"
    unfolding MarkReplicaRemoved_def by (auto intro!: rev_image_eqI[of "(r, False)"])
  ultimately show ?thesis
    by (force simp: ListReplicas_def)
qed

lemma down_removed: "down c (mark_removed c' (remove_container c w))" "down c (remove_container c w)"
  by (simp_all add: down_def mark_removed_def remove_container_def)

lemma listed_end_drain: "listed_or_down w (end_drain e n c w)"
  by (cases "drain_end_of e n c")
    (auto simp: listed_or_down_def end_drain_def Let_def mark_removed_def remove_container_def down_def intro: listed_marked)

lemma listed_tick: "listed_or_down w (tick e w)"
proof -
  have "listed_or_down w (fold (end_drain e n) ds w)" for n ds
  proof (induction ds arbitrary: w)
    case (Cons d ds)
    have later: "shrinks v (fold (end_drain e n) ds v)" for v
      by (induction ds arbitrary: v) (auto intro: shrinks_refl shrinks_trans[OF shrinks_end_drain])
    show ?case
      using listed_end_drain[of w e n d] Cons.IH[of "end_drain e n d w"] down_shrinks[OF _ later[of "end_drain e n d w"]]
      unfolding listed_or_down_def fold_simps comp_def by blast
  qed (simp add: listed_or_down_def)
  then show ?thesis
    by (simp add: listed_or_down_def tick_def note_seen_def down_def)
qed

lemma withActive_Inr:
  assumes "withActive e name fn s = (Inr (), s')"
  obtains app i t where "GetApplication name (database (sv_world s)) = Inr app" "app_active app = Some i"
    "fn app i (ListReplicas i (database (sv_world t))) t = (Inr (), s')" "shrinks (sv_world s) (sv_world t)"
    "\<forall>r. r \<in> set (ListReplicas i (database (sv_world s))) \<longrightarrow>
      r \<in> set (ListReplicas i (database (sv_world t))) \<or> down (r_container r) (sv_world t)"
proof -
  obtain app u where app: "in_world (store_read e (GetApplication name)) s = (Inr app, u)"
    and rest: "(case app_active app of None \<Rightarrow> fail_with ErrNotDeployed | Some i \<Rightarrow>
         andThen (in_world (store_read e (\<lambda>s. Inr (ListReplicas i s)))) (fn app i)) u = (Inr (), s')"
    by (rule andThen_Inr[OF assms[unfolded withActive_def]])
  have u: "GetApplication name (database (sv_world s)) = Inr app" "sv_world u = tick e (sv_world s)"
    using store_read_Inr[OF in_world_Inr(1)[OF app]] by (simp_all add: GetApplication_cong[OF applications_tick])
  obtain i where i: "app_active app = Some i"
    and "andThen (in_world (store_read e (\<lambda>s. Inr (ListReplicas i s)))) (fn app i) u = (Inr (), s')"
    using rest by (cases "app_active app") (simp_all add: fail_with_def)
  from this(2) obtain rs t where rs: "in_world (store_read e (\<lambda>s. Inr (ListReplicas i s))) u = (Inr rs, t)" "fn app i rs t = (Inr (), s')"
    by (rule andThen_Inr)
  have t: "rs = ListReplicas i (database (sv_world t))" "sv_world t = tick e (sv_world u)"
    using store_read_Inr[OF in_world_Inr(1)[OF rs(1)]] by simp_all
  have kept: "r \<in> set (ListReplicas i (database (sv_world t))) \<or> down (r_container r) (sv_world t)"
    if "r \<in> set (ListReplicas i (database (sv_world s)))" for r
    using that listed_tick[of "sv_world s" e] listed_tick[of "sv_world u" e] down_shrinks[OF _ shrinks_tick]
    unfolding t(2) u(2) listed_or_down_def by blast
  have "shrinks (sv_world s) (sv_world t)"
    unfolding t(2) u(2) by (rule shrinks_trans[OF shrinks_tick shrinks_tick])
  with that u(1) i rs(2) kept show ?thesis
    unfolding t(1) by blast
qed

text \<open>What \<open>Stop\<close> does once the desired state is written.\<close>

lemma server_keeps: "keeps (of_world R) m \<Longrightarrow> m s = (x, s') \<Longrightarrow> R (sv_world s) (sv_world s')"
  using keeps_result by (fastforce simp: of_world_def)

lemma stop_replicas:
  assumes "andThen (syncProxyBestEffort e name) (\<lambda>_. andThen (gracePeriodOf e i) (\<lambda>_.
      andThen (parallel (\<lambda>r. in_world (StopContainer e (r_container r))) rs) first_error)) s = (Inr (), s')"
  shows "shrinks (sv_world s) (sv_world s')" "\<And>r. r \<in> set rs \<Longrightarrow> down (r_container r) (sv_world s')"
proof -
  obtain x t where sync: "syncProxyBestEffort e name s = (Inr x, t)"
    and "andThen (gracePeriodOf e i) (\<lambda>_.
      andThen (parallel (\<lambda>r. in_world (StopContainer e (r_container r))) rs) first_error) t = (Inr (), s')"
    by (rule andThen_Inr[OF assms])
  from this(2) obtain y u where grace: "gracePeriodOf e i t = (Inr y, u)"
    and "andThen (parallel (\<lambda>r. in_world (StopContainer e (r_container r))) rs) first_error u = (Inr (), s')"
    by (rule andThen_Inr)
  from this(2) obtain ers v where par: "parallel (\<lambda>r. in_world (StopContainer e (r_container r))) rs u = (Inr ers, v)"
    and "first_error ers v = (Inr (), s')"
    by (rule andThen_Inr)
  then have v: "find (\<lambda>er. er \<noteq> None) ers = None" "s' = v"
    by (auto dest: first_error_Inr)
  have stops: "keeps (of_world shrinks) (in_world (StopContainer e (r_container r)))" for r
    by (intro in_world_keeps shrinks_docker)
  show "shrinks (sv_world s) (sv_world s')"
    unfolding v(2)
    by (rule shrinks_trans[OF server_keeps[OF server_sync_shrinks sync]
          shrinks_trans[OF server_keeps[OF server_grace_shrinks grace] server_keeps[OF parallel_shrinks[OF stops] par]]])
  show "down (r_container r) (sv_world s')" if "r \<in> set rs" for r
    unfolding v(2)
    by (rule parallel_result[where P = "\<lambda>r w. down (r_container r) w", OF par v(1) that stops])
      (auto dest: stop_down down_shrinks)
qed

lemma set_desired_Inr:
  assumes "set_desired e (app_id app) state s = (Inr (), s')" "GetApplication name (database (sv_world s)) = Inr app"
  shows "GetApplication name (database (sv_world s')) = Inr (app\<lparr>app_desired := state\<rparr>)"
    "down c (sv_world s) \<Longrightarrow> down c (sv_world s')"
proof -
  obtain d where d: "SetDesiredState (app_id app) state (database (tick e (sv_world s))) = Inr d"
      "sv_world s' = (tick e (sv_world s))\<lparr>database := d\<rparr>"
    using store_call_Inr[OF in_world_Inr(1)[OF assms(1)[unfolded set_desired_def]]] by (auto split: sum.splits)
  have "GetApplication name (database (tick e (sv_world s))) = Inr app"
    using assms(2) by (simp add: GetApplication_cong[OF applications_tick])
  from desired_after[OF this d(1)] show "GetApplication name (database (sv_world s')) = Inr (app\<lparr>app_desired := state\<rparr>)"
    by (simp add: d(2))
  show "down c (sv_world s')" if "down c (sv_world s)"
    using down_shrinks[OF that shrinks_tick] unfolding d(2) down_def by simp
qed

text \<open>An application that is not meant to run is left alone.\<close>

lemma supervise_stopped:
  assumes "GetApplication name (database (sv_world s)) = Inr app" "app_desired app = DesiredStopped"
  shows "shrinks (sv_world s) (sv_world (snd (superviseApp e opts v now name s)))"
proof (cases "in_world (store_read e (GetApplication name)) s")
  case (Pair x t)
  have t: "shrinks (sv_world s) (sv_world t)"
    by (rule server_keeps[OF in_world_keeps[OF shrinks_law.keeps_store_read] Pair])
  show ?thesis
  proof (cases x)
    case (Inl er)
    then show ?thesis
      using Pair t by (simp add: superviseApp_def andThen_def)
  next
    case (Inr a)
    have "a = app"
      using store_read_Inr[OF in_world_Inr(1)[OF Pair[unfolded Inr]]] assms(1) by (simp add: GetApplication_cong[OF applications_tick])
    then show ?thesis
      using Pair t Inr assms(2) by (simp add: superviseApp_def andThen_def done_with_def split: option.split)
  qed
qed

text \<open>
  C20: once \<open>Stop\<close> has succeeded, the application is the one it was with the desired state stopped, no
  replica its active deployment had at the start runs, and a supervision of the application, whatever
  the environment and whatever Docker's list says, starts none of them again.
\<close>

theorem stop_stays_stopped:
  assumes "Stop e name s = (Inr (), s')"
  shows "\<exists>app i. GetApplication name (database (sv_world s)) = Inr app \<and> app_active app = Some i \<and>
      GetApplication name (database (sv_world s')) = Inr (app\<lparr>app_desired := DesiredStopped\<rparr>) \<and>
      (\<forall>r. r \<in> set (ListReplicas i (database (sv_world s))) \<longrightarrow>
        down (r_container r) (sv_world s') \<and>
        down (r_container r) (sv_world (snd (superviseApp e' opts v now name s'))))"
proof -
  let ?fn = "\<lambda>app i replicas. andThen (set_desired e (app_id app) DesiredStopped) (\<lambda>_.
     andThen (syncProxyBestEffort e name) (\<lambda>_. andThen (gracePeriodOf e i) (\<lambda>_.
     andThen (parallel (\<lambda>r. in_world (StopContainer e (r_container r))) replicas) first_error)))"
  obtain app i t where start: "GetApplication name (database (sv_world s)) = Inr app" "app_active app = Some i"
      "?fn app i (ListReplicas i (database (sv_world t))) t = (Inr (), s')" "shrinks (sv_world s) (sv_world t)"
      "\<forall>r. r \<in> set (ListReplicas i (database (sv_world s))) \<longrightarrow>
        r \<in> set (ListReplicas i (database (sv_world t))) \<or> down (r_container r) (sv_world t)"
    by (rule withActive_Inr[OF assms[unfolded Stop_def]])
  obtain x u where desired: "set_desired e (app_id app) DesiredStopped t = (Inr x, u)"
    and rest: "andThen (syncProxyBestEffort e name) (\<lambda>_. andThen (gracePeriodOf e i) (\<lambda>_.
      andThen (parallel (\<lambda>r. in_world (StopContainer e (r_container r))) (ListReplicas i (database (sv_world t)))) first_error)) u =
      (Inr (), s')"
    by (rule andThen_Inr[OF start(3)])
  have app: "GetApplication name (database (sv_world t)) = Inr app"
    using start(1) by (simp only: shrinks_app[OF start(4)])
  note written = set_desired_Inr[OF desired[unfolded unit_eq[of x]] app] and stopped = stop_replicas[OF rest]
  have app': "GetApplication name (database (sv_world s')) = Inr (app\<lparr>app_desired := DesiredStopped\<rparr>)"
    using written(1) by (simp only: shrinks_app[OF stopped(1)])
  have down: "down (r_container r) (sv_world s')" if "r \<in> set (ListReplicas i (database (sv_world s)))" for r
    using start(5) that stopped(2) down_shrinks[OF written(2) stopped(1)] by blast
  have later: "shrinks (sv_world s') (sv_world (snd (superviseApp e' opts v now name s')))"
    by (rule supervise_stopped[OF app']) simp
  show ?thesis
    using start(1,2) app' down down_shrinks[OF down later] by blast
qed

section \<open>Deleted is gone\<close>

definition vanished :: "string \<Rightarrow> world \<Rightarrow> bool" where
  "vanished c w \<longleftrightarrow> c \<notin> c_id ` set (containers w)"

lemma vanished_shrinks: "vanished c w \<Longrightarrow> shrinks w w' \<Longrightarrow> vanished c w'"
  unfolding vanished_def shrinks_def by blast

lemma shrinks_ids: "i \<in> c_id ` set (containers w') \<Longrightarrow> shrinks w w' \<Longrightarrow> i \<in> c_id ` set (containers w)"
  unfolding shrinks_def by (elim conjE) (erule (1) subsetD[rotated])

lemma retire_gone:
  assumes "in_world (retireContainer e c) t = (Inr (), t')"
  shows "vanished c (sv_world t')"
proof -
  obtain x w where "andThen (RemoveContainer e c) (\<lambda>_. store_write e (MarkReplicaRemoved c)) w = (Inr (), sv_world t')"
    by (rule andThen_Inr[OF in_world_Inr(1)[OF assms, unfolded retireContainer_def removeContainer_def]])
  then obtain y v where remove: "RemoveContainer e c w = (Inr y, v)" and mark: "store_write e (MarkReplicaRemoved c) v = (Inr (), sv_world t')"
    by (rule andThen_Inr)
  have "vanished c v"
    using call_Inr[OF remove[unfolded RemoveContainer_def]] by (auto simp: vanished_def note_seen_def remove_container_def)
  moreover have "keeps shrinks (store_write e (MarkReplicaRemoved c))"
    by (intro shrinks_law.keeps_store_write shrinks_frame) (simp_all add: applications_kept)
  from keepsD[OF this, of v] have "shrinks v (sv_world t')"
    by (simp add: mark)
  ultimately show ?thesis
    by (rule vanished_shrinks)
qed

lemma list_Inr: "in_world (ListContainers e) s = (Inr cs, s') \<Longrightarrow> cs = containers (sv_world s')"
  by (drule in_world_Inr(1), unfold ListContainers_def, erule andThen_Inr) (simp add: done_with_def)

lemma delete_record_Inr:
  assumes "delete_record e i s = (Inr x, s')"
  shows "applications (database (sv_world s')) = filter (\<lambda>a. app_id a \<noteq> i) (applications (database (sv_world s)))"
    "c_id ` set (containers (sv_world s')) \<subseteq> c_id ` set (containers (sv_world s))"
proof -
  obtain d where d: "DeleteApplication i (database (tick e (sv_world s))) = Inr d"
      "sv_world s' = (tick e (sv_world s))\<lparr>database := d\<rparr>"
    using store_call_Inr[OF in_world_Inr(1)[OF assms[unfolded delete_record_def]]] by (auto split: sum.splits)
  show "applications (database (sv_world s')) = filter (\<lambda>a. app_id a \<noteq> i) (applications (database (sv_world s)))"
    using d by (auto simp: DeleteApplication_def Let_def split: if_splits)
  show "c_id ` set (containers (sv_world s')) \<subseteq> c_id ` set (containers (sv_world s))"
    using shrinks_tick[of "sv_world s" e] by (simp add: d(2) shrinks_def)
qed

lemma deleted_name:
  assumes "apps_inv s" "GetApplication name s = Inr app" "applications t = filter (\<lambda>a. app_id a \<noteq> app_id app) (applications s)"
  shows "GetApplication name t = Inl ErrNotFound"
proof -
  have app: "app \<in> set (applications s)" "app_name app = name"
    using assms(2) by (auto simp: GetApplication_def find_app_def split: option.splits dest: find_SomeD)
  have "app_id a = app_id app" if "a \<in> set (applications s)" "app_name a = name" for a
    using assms(1) that app by (metis apps_inv_def distinct_map inj_onD)
  then have "find (\<lambda>a. app_name a = name) (applications t) = None"
    by (auto simp: assms(3) find_None_iff)
  then show ?thesis
    by (simp add: GetApplication_def find_app_def)
qed

text \<open>
  C21: after a successful \<open>Delete\<close> the database does not know the application, and every container
  that is left of it was already draining when \<open>Delete\<close> began.
\<close>

theorem delete_removes:
  assumes "Delete e name s = (Inr (), s')" "db_inv (database (sv_world s))"
  shows "GetApplication name (database (sv_world s')) = Inl ErrNotFound \<and>
    c_id ` set (containers (sv_world s')) \<subseteq> set (drains (sv_world s))"
proof -
  let ?retire = "\<lambda>c. andThen (gracePeriodOf e (c_deployment c)) (\<lambda>_. in_world (retireContainer e (c_id c)))"
  let ?chosen = "\<lambda>u. filter (\<lambda>c. c_id c \<notin> set (drains (sv_world u)))"
  obtain app t where app: "in_world (store_read e (GetApplication name)) s = (Inr app, t)"
    and run1: "andThen (in_world (ListContainers e)) (\<lambda>listed. with_server (\<lambda>s.
     andThen (parallel ?retire (?chosen s listed)) (\<lambda>ers. andThen (first_error ers) (\<lambda>_.
     andThen (in_world (awaitDrains e)) (\<lambda>_. andThen (delete_record e (app_id app)) (\<lambda>_. syncProxyBestEffort e name)))))) t = (Inr (), s')"
    by (rule andThen_Inr[OF assms(1)[unfolded Delete_def]])
  obtain cs u where listed: "in_world (ListContainers e) t = (Inr cs, u)"
    and run2: "with_server (\<lambda>s.
     andThen (parallel ?retire (?chosen s cs)) (\<lambda>ers. andThen (first_error ers) (\<lambda>_.
     andThen (in_world (awaitDrains e)) (\<lambda>_. andThen (delete_record e (app_id app)) (\<lambda>_. syncProxyBestEffort e name))))) u = (Inr (), s')"
    by (rule andThen_Inr[OF run1])
  obtain ers v where par: "parallel ?retire (?chosen u cs) u = (Inr ers, v)"
    and run3: "andThen (first_error ers) (\<lambda>_. andThen (in_world (awaitDrains e)) (\<lambda>_.
      andThen (delete_record e (app_id app)) (\<lambda>_. syncProxyBestEffort e name))) v = (Inr (), s')"
    by (rule andThen_Inr[OF run2[unfolded with_server_def]])
  obtain x v' where fine: "first_error ers v = (Inr x, v')"
    and run4: "andThen (in_world (awaitDrains e)) (\<lambda>_.
      andThen (delete_record e (app_id app)) (\<lambda>_. syncProxyBestEffort e name)) v' = (Inr (), s')"
    by (rule andThen_Inr[OF run3])
  obtain y z where await: "in_world (awaitDrains e) v' = (Inr y, z)"
    and run5: "andThen (delete_record e (app_id app)) (\<lambda>_. syncProxyBestEffort e name) z = (Inr (), s')"
    by (rule andThen_Inr[OF run4])
  obtain q z' where deleted: "delete_record e (app_id app) z = (Inr q, z')" and synced: "syncProxyBestEffort e name z' = (Inr (), s')"
    by (rule andThen_Inr[OF run5])
  have retiring: "keeps (of_world shrinks) (?retire c)" for c
    by (intro server_shrinks.keeps_combinators server_grace_shrinks in_world_keeps shrinks_docker)
  have steps: "shrinks (sv_world s) (sv_world t)" "shrinks (sv_world t) (sv_world u)" "shrinks (sv_world u) (sv_world v)"
      "shrinks (sv_world v) (sv_world z)" "shrinks (sv_world z') (sv_world s')"
    using server_keeps[OF in_world_keeps[OF shrinks_law.keeps_store_read] app] server_keeps[OF in_world_keeps[OF shrinks_law.keeps_list] listed]
      server_keeps[OF parallel_shrinks[OF retiring] par] server_keeps[OF in_world_keeps[OF shrinks_law.keeps_awaitDrains] await]
      server_keeps[OF server_sync_shrinks synced] first_error_Inr[OF fine] by simp_all
  have begun: "shrinks (sv_world s) (sv_world u)" and ended: "shrinks (sv_world u) (sv_world z)"
    using shrinks_trans steps(1-4) by blast+
  have known: "GetApplication name (database (sv_world z)) = Inr app"
    using store_read_Inr[OF in_world_Inr(1)[OF app]] shrinks_app[OF shrinks_trans[OF begun ended], of name]
    by (simp add: GetApplication_cong[OF applications_tick])
  have inv: "apps_inv (database (sv_world z))"
    using assms(2) shrinks_trans[OF begun ended] by (simp add: db_inv_def apps_inv_def shrinks_def)
  have unknown: "GetApplication name (database (sv_world s')) = Inl ErrNotFound"
    using deleted_name[OF inv known delete_record_Inr(1)[OF deleted]] shrinks_app[OF steps(5), of name] by simp
  have retired: "vanished (c_id c) (sv_world v)" if "c \<in> set (?chosen u cs)" for c
  proof (rule parallel_result[where P = "\<lambda>c w. vanished (c_id c) w", OF par _ that retiring])
    show "find (\<lambda>er. er \<noteq> None) ers = None"
      using first_error_Inr[OF fine] by simp
    show "vanished (c_id k) (sv_world r')" if "?retire k r = (Inr (), r')" for k r r'
      by (rule andThen_Inr[OF that]) (rule retire_gone)
  qed (rule vanished_shrinks)
  have left: "c_id ` set (containers (sv_world s')) \<subseteq> c_id ` set (containers (sv_world z))"
    using delete_record_Inr(2)[OF deleted] steps(5) unfolding shrinks_def by blast
  have "i \<in> set (drains (sv_world s))" if i: "i \<in> c_id ` set (containers (sv_world s'))" for i
  proof (rule ccontr)
    assume fresh: "i \<notin> set (drains (sv_world s))"
    have "i \<in> c_id ` set (containers (sv_world z))"
      using i left by (rule rev_subsetD)
    then have "i \<in> c_id ` set (containers (sv_world u))" "i \<in> c_id ` set (containers (sv_world v))"
      using shrinks_ids ended steps(4) by fast+
    moreover have "i \<notin> set (drains (sv_world u))"
      using fresh begun unfolding shrinks_def by (elim conjE) (rule contra_subsetD)
    ultimately obtain c where "c \<in> set (?chosen u cs)" "c_id c = i"
      unfolding list_Inr[OF listed] by auto
    with retired[of c] \<open>i \<in> c_id ` set (containers (sv_world v))\<close> show False
      unfolding vanished_def by simp
  qed
  with unknown show ?thesis
    by blast
qed


section \<open>Runs, and the rest of the properties\<close>

text \<open>One replica of the first version, running, and the container of an older one.\<close>

definition one_replica :: "string list \<Rightarrow> server" where
  "one_replica ds =
     \<lparr>sv_world = \<lparr>database = AddReplica \<lparr>r_deployment = 1, r_index = 1, r_container = ''a'', r_restarts = 0\<rparr> demo_db,
        containers = [\<lparr>c_id = ''a'', c_deployment = 1, c_replica = 1, c_running = True, c_job = False, c_named = True\<rparr>,
          \<lparr>c_id = ''b'', c_deployment = 0, c_replica = 1, c_running = True, c_job = False, c_named = False\<rparr>],
        drains = ds, override = None, unsettled_ends = [], calls = 0, verified = [], seen = []\<rparr>,
      sv_states = Map.empty, sv_recreate = Map.empty\<rparr>"

lemma stop_run: "fst (Stop kind_env ''api'' (one_replica [])) = Inr ()"
    "map r_container (ListReplicas 1 (database (sv_world (one_replica [])))) = [''a'']"
    "GetApplication ''api'' (database (sv_world (one_replica []))) = Inr \<lparr>app_id = 1, app_name = ''api'', app_desired = DesiredRunning, app_active = Some 1\<rparr>"
  by code_simp+

theorem stop_stays_stopped_witness:
  "down ''a'' (sv_world (snd (Stop kind_env ''api'' (one_replica []))))"
proof -
  have run: "Stop kind_env ''api'' (one_replica []) = (Inr (), snd (Stop kind_env ''api'' (one_replica [])))"
    using stop_run(1) by (metis prod.collapse)
  obtain r where r: "r \<in> set (ListReplicas 1 (database (sv_world (one_replica []))))" "r_container r = ''a''"
    using stop_run(2) by auto
  show ?thesis
    using stop_stays_stopped[OF run, of kind_env default_options "\<lparr>v_listed = [], v_inspect = (\<lambda>_. NotThere), v_address = (\<lambda>_. True),
        v_ended = (\<lambda>_. True), v_exit = (\<lambda>_. None), v_deployments = (\<lambda>_. None)\<rparr>" 0] r stop_run(3)
    by auto
qed

text \<open>The drain of the older container is given up while \<open>Delete\<close> waits for it: its stop does not come to an end in time.\<close>

definition giving_up :: env where
  "giving_up = kind_env\<lparr>drain_end_of := (\<lambda>n _. if n < 6 then Draining else GaveUp)\<rparr>"

lemma delete_run: "fst (Delete giving_up ''api'' (one_replica [''b''])) = Inr ()"
  by code_simp

lemma one_replica_inv: "db_inv (database (sv_world (one_replica ds)))"
  using db_steps_inv[OF demo_db_reachable db_inv_empty] by (simp add: one_replica_def replica_rows_inv)

theorem delete_removes_witness:
  "GetApplication ''api'' (database (sv_world (snd (Delete giving_up ''api'' (one_replica [''b'']))))) = Inl ErrNotFound"
proof -
  have run: "Delete giving_up ''api'' (one_replica [''b'']) = (Inr (), snd (Delete giving_up ''api'' (one_replica [''b''])))"
    using delete_run by (metis prod.collapse)
  show ?thesis
    using delete_removes[OF run one_replica_inv] by simp
qed

text \<open>
  The container whose drain was given up runs on after a \<open>Delete\<close> that succeeded; the database no
  longer knows its application, so that nothing will remove it.
\<close>

lemma delete_leaves_drained:
  "fst (Delete giving_up ''api'' (one_replica [''b''])) = Inr () \<and>
   map (\<lambda>c. (c_id c, c_running c)) (containers (sv_world (snd (Delete giving_up ''api'' (one_replica [''b'']))))) = [(''b'', True)] \<and>
   drains (sv_world (snd (Delete giving_up ''api'' (one_replica [''b''])))) = [] \<and>
   ListApplications (database (sv_world (snd (Delete giving_up ''api'' (one_replica [''b'']))))) = []"
  by code_simp

text \<open>
  \<open>Stop\<close>, \<open>Start\<close>, \<open>Delete\<close> and a supervision change the tables only in the ways the specification of the
  database allows, whatever fails and whatever they return.
\<close>

theorem operations_refine_store:
  "db_step\<^sup>*\<^sup>* (database (sv_world s)) (database (sv_world (snd (Stop e name s)))) \<and>
   db_step\<^sup>*\<^sup>* (database (sv_world s)) (database (sv_world (snd (Start e name s)))) \<and>
   db_step\<^sup>*\<^sup>* (database (sv_world s)) (database (sv_world (snd (Delete e name s)))) \<and>
   db_step\<^sup>*\<^sup>* (database (sv_world s)) (database (sv_world (snd (superviseApp e opts v now name s))))"
  using keepsD[OF server_steps.server_Stop, of s e name] keepsD[OF server_steps.server_Start, of s e name]
    keepsD[OF server_steps.server_Delete, of s e name] keepsD[OF server_steps.server_superviseApp, of s e opts v now name]
  by (simp add: of_world_def store_steps_def)

text \<open>Time passing marks replicas, and nothing else in the tables.\<close>

lemma deployments_tick [simp]: "deployments (database (tick e w)) = deployments (database w)"
proof -
  have "deployments (database (fold (end_drain e n) ds w)) = deployments (database w)" for n ds
    by (induction ds arbitrary: w)
      (auto simp: end_drain_def Let_def mark_removed_def remove_container_def MarkReplicaRemoved_def split: drain_end.split)
  then show ?thesis
    by (simp add: tick_def note_seen_def)
qed

lemma newest_first:
  assumes "take 1 (rev (sort_key f xs)) = d # ds"
  shows "d \<in> set xs" "x \<in> set xs \<Longrightarrow> f x \<le> (f d :: int)"
proof -
  obtain ys where ys: "sort_key f xs = ys @ [d]"
    using assms by (cases "sort_key f xs" rule: rev_cases) auto
  then have "set xs = set (ys @ [d])" "sorted (map f (ys @ [d]))"
    unfolding ys[symmetric] by (simp_all only: set_sort sorted_sort_key)
  then show "d \<in> set xs" "x \<in> set xs \<Longrightarrow> f x \<le> f d"
    by (auto simp: sorted_append)
qed

text \<open>
  a rollback goes back to a deployment of the database that was superseded: the one that was asked
  for, if it is the application's own, else the application's latest superseded one.
\<close>

theorem rollback_goes_back:
  assumes "rollback_target e name t w = (Inr d, w')" "name \<noteq> []"
  shows "d \<in> set (deployments (database w)) \<and> d_status d = StatusSuperseded \<and>
    (\<exists>app. GetApplication name (database w) = Inr app \<and> app_active app \<noteq> None \<and>
      (if t \<noteq> 0 then d_id d = t \<and> d_application_id d = app_id app
       else d_application d = name \<and>
         (\<forall>x. x \<in> set (deployments (database w)) \<and> d_application x = name \<and> d_status x = StatusSuperseded \<longrightarrow>
           d_sequence x \<le> d_sequence d)))"
proof -
  obtain app w1 where app: "store_read e (GetApplication name) w = (Inr app, w1)"
    and rest: "(if app_active app = None then fail_with ErrNotDeployed
     else if t \<noteq> 0 then andThen (store_read e (GetDeployment t)) (\<lambda>target.
       if d_application_id target \<noteq> app_id app \<or> d_status target \<noteq> StatusSuperseded then fail_with ErrNoRollbackTarget
       else done_with target)
     else andThen (store_read e (\<lambda>s. Inr (listDeployments
           \<lparr>f_application = name, f_statuses = [StatusSuperseded], f_limit = 1\<rparr> s))) (\<lambda>previous.
       case previous of [] \<Rightarrow> fail_with ErrNoRollbackTarget | target # _ \<Rightarrow> done_with target)) w1 = (Inr d, w')"
    by (rule andThen_Inr[OF assms(1)[unfolded rollback_target_def]])
  have w1: "GetApplication name (database w) = Inr app" "w1 = tick e w"
    using store_read_Inr[OF app] by (simp_all add: GetApplication_cong[OF applications_tick])
  have active: "app_active app \<noteq> None"
  proof
    assume "app_active app = None"
    with rest show False
      by (simp add: fail_with_def)
  qed
  show ?thesis
  proof (cases "t = 0")
    case False
    with rest active have "andThen (store_read e (GetDeployment t)) (\<lambda>target.
       if d_application_id target \<noteq> app_id app \<or> d_status target \<noteq> StatusSuperseded then fail_with ErrNoRollbackTarget
       else done_with target) w1 = (Inr d, w')"
      by simp
    then obtain x w2 where x: "store_read e (GetDeployment t) w1 = (Inr x, w2)"
      and "(if d_application_id x \<noteq> app_id app \<or> d_status x \<noteq> StatusSuperseded then fail_with ErrNoRollbackTarget
       else done_with x) w2 = (Inr d, w')"
      by (rule andThen_Inr)
    then have same: "x = d" "d_application_id d = app_id app" "d_status d = StatusSuperseded"
      by (auto simp: fail_with_def done_with_def split: if_splits)
    have "d \<in> set (deployments (database w))" "d_id d = t"
      using store_read_Inr[OF x] unfolding same(1) w1(2)
      by (auto simp: GetDeployment_def find_deployment_def split: option.splits dest: find_SomeD)
    then show ?thesis
      using same w1(1) active False by simp
  next
    case True
    let ?list = "listDeployments \<lparr>f_application = name, f_statuses = [StatusSuperseded], f_limit = 1\<rparr>"
    from True rest active have "andThen (store_read e (\<lambda>s. Inr (?list s))) (\<lambda>previous.
       case previous of [] \<Rightarrow> fail_with ErrNoRollbackTarget | target # _ \<Rightarrow> done_with target) w1 = (Inr d, w')"
      by simp
    then obtain xs w2 where xs: "store_read e (\<lambda>s. Inr (?list s)) w1 = (Inr xs, w2)"
      and "(case xs of [] \<Rightarrow> fail_with ErrNoRollbackTarget | target # _ \<Rightarrow> done_with target) w2 = (Inr d, w')"
      by (rule andThen_Inr)
    then obtain ds where ds: "xs = d # ds"
      by (cases xs) (auto simp: fail_with_def done_with_def)
    have "take 1 (rev (sort_key d_sequence (filter (\<lambda>d. d_application d = name \<and> d_status d = StatusSuperseded) (deployments (database w))))) = d # ds"
      using store_read_Inr[OF xs] assms(2) unfolding ds w1(2) by (simp add: listDeployments_def)
    from newest_first[OF this] show ?thesis
      using w1(1) active True by simp
  qed
qed

text \<open>Two versions, the second active.\<close>

definition demo_db3 :: db where
  "demo_db3 = demo_activate 2 (demo_transit 2 StatusHealthChecking StatusHealthy
     (demo_transit 2 StatusStarting StatusHealthChecking (demo_transit 2 StatusBuilding StatusStarting
     (demo_transit 2 StatusPending StatusBuilding (demo_create demo_db)))))"

lemma rollback_run: "map_sum (\<lambda>_. ()) d_id (fst (rollback_target kind_env ''api'' 0 (empty_world demo_db3))) = Inr 1"
  by code_simp

theorem rollback_goes_back_witness:
  "d_status (projr (fst (rollback_target kind_env ''api'' 0 (empty_world demo_db3)))) = StatusSuperseded"
proof -
  obtain d w' where run: "rollback_target kind_env ''api'' 0 (empty_world demo_db3) = (Inr d, w')"
    using rollback_run by (cases "rollback_target kind_env ''api'' 0 (empty_world demo_db3)"; cases "fst (rollback_target kind_env ''api'' 0 (empty_world demo_db3))") auto
  show ?thesis
    using rollback_goes_back[OF run] by (simp add: run)
qed

end
