(* ===== verification/Spec_Domains.thy ===== *)
theory Spec_Domains
  imports App_Spec Go_Strings
begin

text \<open>
  Names, hostnames and paths in a deploy.yaml: \<open>ValidateName\<close> and \<open>ValidateDomain\<close>
  (\<^verbatim>\<open>src/pkg/spec/parse.go\<close>), \<open>ValidateHostname\<close> (\<^verbatim>\<open>wildcard.go\<close>), \<open>validateDomains\<close> (\<^verbatim>\<open>domains.go\<close>),
  and the paths of \<^verbatim>\<open>proxy.go\<close>.

  A validation collects its complaints: the result carries the fields complained about, in order
  (\<open>verr\<close>). The wording of a complaint and its examples are left out.
\<close>

section \<open>Definitions\<close>

type_synonym verr = "string list"

text \<open>
  \<open>strings.ToLower\<close>. Two runes beyond ASCII have a small letter within it, U+0130 and the Kelvin
  sign. The others stay beyond ASCII, in a form that no pattern here accepts; they are left alone.
\<close>

fun to_lower :: "string \<Rightarrow> string" where
  "to_lower [] = []"
| "to_lower [a] = [lower_char a]"
| "to_lower [a, b] =
     (if byte_val a = 196 \<and> byte_val b = 176 then ''i'' else lower_char a # to_lower [b])"
| "to_lower (a # b # c # cs) =
     (if byte_val a = 196 \<and> byte_val b = 176 then CHR ''i'' # to_lower (c # cs)
      else if byte_val a = 226 \<and> byte_val b = 132 \<and> byte_val c = 170 then CHR ''k'' # to_lower cs
      else lower_char a # to_lower (b # c # cs))"

text \<open>The pattern \<^verbatim>\<open>^[a-z0-9]([a-z0-9-]{0,61}[a-z0-9])?$\<close>, with the longest length as an argument.\<close>

definition label_char :: "char \<Rightarrow> bool" where
  "label_char c \<longleftrightarrow> is_digit c \<or> (97 \<le> byte_val c \<and> byte_val c \<le> 122)"

definition label_pattern :: "nat \<Rightarrow> string \<Rightarrow> bool" where
  "label_pattern n s \<longleftrightarrow> s \<noteq> [] \<and> length s \<le> n \<and> list_all (\<lambda>c. label_char c \<or> c = CHR ''-'') s \<and>
     label_char (hd s) \<and> label_char (last s)"

definition ValidateName :: "string \<Rightarrow> bool" where
  "ValidateName s \<longleftrightarrow> label_pattern 63 s"

definition ValidateDomain :: "string \<Rightarrow> bool" where
  "ValidateDomain domain \<longleftrightarrow> length domain \<le> 253 \<and> list_all (label_pattern 63) (split_on CHR ''.'' domain)"

definition IsWildcard :: "string \<Rightarrow> bool" where
  "IsWildcard hostname \<longleftrightarrow> has_prefix hostname ''*.''"

definition ValidateHostname :: "string \<Rightarrow> bool" where
  "ValidateHostname hostname \<longleftrightarrow>
     (if CHR ''*'' \<notin> set hostname \<or> length hostname > 253 then ValidateDomain hostname
      else has_prefix hostname ''*.'' \<and> ValidateDomain (trim_prefix hostname ''*.''))"

definition MaxHostnames :: nat where
  "MaxHostnames = 20"

definition indexed :: "string \<Rightarrow> nat \<Rightarrow> string" where
  "indexed field i = field @ ''['' @ itoa (int i) @ '']''"

definition normalize_hostname :: "string \<Rightarrow> string" where
  "normalize_hostname raw = to_lower (trim_space raw)"

text \<open>One entry's complaints. \<open>seen\<close> has the field each hostname was found under, \<open>[]\<close> for none.\<close>

definition entry_errors :: "(string \<Rightarrow> bool) \<Rightarrow> string \<Rightarrow> (string \<Rightarrow> string) \<Rightarrow> string \<Rightarrow> verr" where
  "entry_errors valid entry seen h =
     (if h = [] then [entry] else if \<not> valid h then [entry] else if seen h \<noteq> [] then [entry] else [])"

fun validate_entries ::
    "(string \<Rightarrow> bool) \<Rightarrow> string \<Rightarrow> nat \<Rightarrow> (string \<Rightarrow> string) \<Rightarrow> string list \<Rightarrow> string list \<times> verr \<times> (string \<Rightarrow> string)" where
  "validate_entries valid field i seen [] = ([], [], seen)"
| "validate_entries valid field i seen (raw # rest) =
     (let entry = indexed field i;
          h = normalize_hostname raw;
          errs = entry_errors valid entry seen h
      in case validate_entries valid field (i + 1) (seen(h := entry)) rest of
           (out, verr, seen') \<Rightarrow> (h # out, errs @ verr, seen'))"

definition validateHostnames ::
    "(string \<Rightarrow> bool) \<Rightarrow> string \<Rightarrow> (string \<Rightarrow> string) \<Rightarrow> string list \<Rightarrow> string list \<times> verr \<times> (string \<Rightarrow> string)" where
  "validateHostnames valid field seen inputs =
     (if inputs = [] then ([], [], seen)
      else if length inputs > MaxHostnames then ([], [field], seen)
      else validate_entries valid field 0 seen inputs)"

definition validateDomains :: "string list \<Rightarrow> string list \<Rightarrow> string \<Rightarrow> (string list \<times> string list) \<times> verr" where
  "validateDomains aliases redirects domain =
     (if aliases = [] \<and> redirects = [] then (([], []), [])
      else if domain = [] then
        (([], []), (if aliases \<noteq> [] then [''aliases''] else []) @ (if redirects \<noteq> [] then [''redirects''] else []))
      else
        let wildcard = (if IsWildcard domain \<and> redirects \<noteq> [] then [''redirects''] else []);
            (as, verr, seen) = validateHostnames ValidateHostname ''aliases'' ((\<lambda>_. [])(domain := ''domain'')) aliases;
            (rs, verr', _) = validateHostnames ValidateDomain ''redirects'' seen redirects
        in ((as, rs), wildcard @ verr @ verr'))"

subsection \<open>Paths\<close>

definition MaxPathBytes :: nat where
  "MaxPathBytes = 200"

text \<open>The pattern \<^verbatim>\<open>^(/[A-Za-z0-9._~-]+)+$\<close> of a text that starts with a slash.\<close>

definition path_char :: "char \<Rightarrow> bool" where
  "path_char c \<longleftrightarrow> is_digit c \<or> (65 \<le> byte_val c \<and> byte_val c \<le> 90) \<or> (97 \<le> byte_val c \<and> byte_val c \<le> 122) \<or>
     c \<in> set ''._~-''"

definition pathPattern :: "string \<Rightarrow> bool" where
  "pathPattern p \<longleftrightarrow> (case p of [] \<Rightarrow> False | c # rest \<Rightarrow>
     c = CHR ''/'' \<and> list_all (\<lambda>s. s \<noteq> [] \<and> list_all path_char s) (split_on CHR ''/'' rest))"

definition validateURLPath :: "string \<Rightarrow> bool" where
  "validateURLPath p \<longleftrightarrow>
     has_prefix p ''/'' \<and> length p \<le> MaxPathBytes \<and> \<not> has_suffix p ''/'' \<and> pathPattern p \<and>
     list_all (\<lambda>s. s \<noteq> ''.'' \<and> s \<noteq> ''..'') (split_on CHR ''/'' (tl p))"

definition PathKey :: "string \<Rightarrow> string" where
  "PathKey p = to_lower p"

definition PathWithin :: "string \<Rightarrow> string \<Rightarrow> bool" where
  "PathWithin p prefix \<longleftrightarrow>
     (let p = PathKey p; prefix = PathKey prefix
      in prefix = [] \<or> p = prefix \<or> has_prefix p (prefix @ ''/''))"

text \<open>\<open>validatePath\<close>: \<open>path\<close>, given the application's domain.\<close>

definition validatePath :: "string \<Rightarrow> string \<Rightarrow> string \<times> verr" where
  "validatePath raw domain =
     (let p = trim_space raw;
          orphan = (if domain = [] then [''path''] else [])
      in if p = [] then ([], [])
         else if p = ''/'' then ([], orphan)
         else (p, orphan @ (if validateURLPath p then [] else [''path''])))"

section \<open>Normalizing what is normal already\<close>

lemma to_lower_ascii: "list_all (\<lambda>c. byte_val c < 128) s \<Longrightarrow> to_lower s = map lower_char s"
  by (induction s rule: to_lower.induct) auto

lemma lower_char_label [simp]: "label_char c \<or> c \<in> {CHR ''-'', CHR ''.'', CHR ''*''} \<Longrightarrow> lower_char c = c"
  by (auto simp: lower_char_def label_char_def is_digit_def byte_val_def)

definition host_char :: "char \<Rightarrow> bool" where
  "host_char c \<longleftrightarrow> label_char c \<or> c \<in> {CHR ''-'', CHR ''.'', CHR ''*''}"

lemma host_char_visible: "host_char c \<Longrightarrow> visible c"
  by (auto simp: host_char_def label_char_def is_digit_def visible_def byte_val_def)

lemma visible_ascii: "visible c \<Longrightarrow> byte_val c < 128"
  by (simp add: visible_def)

lemma normal_hostname:
  assumes "list_all host_char h"
  shows "normalize_hostname h = h"
proof -
  have visible: "list_all visible h"
    using assms by (auto simp: list_all_iff host_char_visible)
  then have "to_lower h = map lower_char h"
    by (intro to_lower_ascii) (auto simp: list_all_iff visible_ascii)
  also have "\<dots> = h"
    using assms by (intro map_idI) (auto simp: list_all_iff host_char_def)
  finally show ?thesis
    by (simp add: normalize_hostname_def trim_space_visible[OF visible])
qed

lemma split_on_chars: "list_all (list_all P) (split_on sep s) \<Longrightarrow> list_all (\<lambda>c. P c \<or> c = sep) s"
  by (induction s) (auto split: if_splits list.splits)

lemma domain_chars:
  assumes "ValidateDomain d"
  shows "list_all host_char d"
proof -
  have "list_all (list_all (\<lambda>c. label_char c \<or> c = CHR ''-'')) (split_on CHR ''.'' d)"
    using assms by (auto simp: ValidateDomain_def label_pattern_def list_all_iff)
  from split_on_chars[OF this] show ?thesis
    by (auto simp: list_all_iff host_char_def)
qed

lemma has_prefix_split: "has_prefix s p \<Longrightarrow> s = p @ drop (length p) s"
  by (induction s p rule: has_prefix.induct) auto

lemma hostname_chars:
  assumes "ValidateHostname h"
  shows "list_all host_char h"
proof (cases "CHR ''*'' \<notin> set h \<or> length h > 253")
  case True
  then show ?thesis
    using assms domain_chars by (auto simp: ValidateHostname_def)
next
  case False
  then have "has_prefix h ''*.''" and rest: "ValidateDomain (drop 2 h)"
    using assms by (auto simp: ValidateHostname_def trim_prefix_def numeral_2_eq_2)
  from this(1) have h: "h = ''*.'' @ drop 2 h"
    using has_prefix_split[of h "''*.''"] by (simp add: numeral_2_eq_2)
  have "list_all host_char (''*.'' @ drop 2 h)"
    using domain_chars[OF rest] by (simp add: host_char_def)
  then show ?thesis
    by (rule ssubst[OF h])
qed

lemma label_not_empty: "ValidateDomain d \<Longrightarrow> d \<noteq> []"
  by (auto simp: ValidateDomain_def label_pattern_def)

lemma hostname_not_empty: "ValidateHostname h \<Longrightarrow> h \<noteq> []"
  using label_not_empty[of h] by (auto simp: ValidateHostname_def)

section \<open>One hostname, one meaning\<close>

lemma entries_clean:
  assumes "validate_entries valid field i seen inputs = (out, [], seen')"
  shows "out = map normalize_hostname inputs \<and> distinct out \<and> list_all valid out \<and> (\<forall>h \<in> set out. seen h = [] \<and> h \<noteq> []) \<and>
    (\<forall>h. seen' h = [] \<longleftrightarrow> seen h = [] \<and> h \<notin> set out)"
  using assms
proof (induction inputs arbitrary: i seen out)
  case (Cons raw rest)
  let ?h = "normalize_hostname raw"
  obtain out' verr seen'' where rest: "validate_entries valid field (i + 1) (seen(?h := indexed field i)) rest = (out', verr, seen'')"
    by (metis prod_cases3)
  have parts: "out = ?h # out'" "verr = []" "seen'' = seen'" "entry_errors valid (indexed field i) seen ?h = []"
    using Cons.prems rest by (simp_all add: Let_def)
  have "indexed field i \<noteq> []"
    by (simp add: indexed_def)
  moreover have "?h \<noteq> []" "valid ?h" "seen ?h = []"
    using parts(4) by (auto simp: entry_errors_def split: if_splits)
  moreover note Cons.IH[OF rest[unfolded parts(2,3)]]
  ultimately show ?case
    unfolding parts(1) by (auto split: if_splits)
qed simp

lemma hostnames_clean:
  assumes "validateHostnames valid field seen inputs = (out, [], seen')"
  shows "out = map normalize_hostname inputs" "distinct out" "list_all valid out" "\<forall>h \<in> set out. seen h = [] \<and> h \<noteq> []"
    "\<forall>h. seen' h = [] \<longleftrightarrow> seen h = [] \<and> h \<notin> set out" "length inputs \<le> MaxHostnames"
  using assms entries_clean[of valid field 0 seen inputs out seen'] unfolding validateHostnames_def
  by (auto split: if_splits)

text \<open>And the other way round.\<close>

lemma entries_accepted:
  assumes "list_all valid inputs" "map normalize_hostname inputs = inputs" "distinct inputs" "\<forall>h \<in> set inputs. seen h = [] \<and> h \<noteq> []"
  shows "\<exists>seen'. validate_entries valid field i seen inputs = (inputs, [], seen') \<and> (\<forall>h. seen' h = [] \<longleftrightarrow> seen h = [] \<and> h \<notin> set inputs)"
  using assms
proof (induction inputs arbitrary: i seen)
  case (Cons h rest)
  have "indexed field i \<noteq> []"
    by (simp add: indexed_def)
  with Cons.IH[of "seen(h := indexed field i)" "i + 1"] Cons.prems
  obtain seen' where "validate_entries valid field (i + 1) (seen(h := indexed field i)) rest = (rest, [], seen')"
      "\<forall>g. seen' g = [] \<longleftrightarrow> (seen(h := indexed field i)) g = [] \<and> g \<notin> set rest"
    by fastforce
  with Cons.prems \<open>indexed field i \<noteq> []\<close> show ?case
    by (auto simp: entry_errors_def)
qed simp

lemma hostnames_accepted:
  assumes "list_all valid inputs" "map normalize_hostname inputs = inputs" "distinct inputs" "\<forall>h \<in> set inputs. seen h = [] \<and> h \<noteq> []"
    "length inputs \<le> MaxHostnames"
  shows "\<exists>seen'. validateHostnames valid field seen inputs = (inputs, [], seen') \<and> (\<forall>h. seen' h = [] \<longleftrightarrow> seen h = [] \<and> h \<notin> set inputs)"
  using assms entries_accepted[OF assms(1-4), of field 0] by (auto simp: validateHostnames_def)

text \<open>
  C30: the hostnames that a deploy.yaml is accepted with are valid, and none of them occurs twice, be it
  as the domain, an alias or a redirect; validated once more, they are accepted and stay what they
  are.
\<close>

theorem hostnames_once:
  assumes "validateDomains aliases redirects domain = ((as, rs), [])" "domain \<noteq> []"
  shows "distinct (domain # as @ rs) \<and> list_all ValidateHostname as \<and> list_all ValidateDomain rs \<and>
    (IsWildcard domain \<longrightarrow> rs = []) \<and> validateDomains as rs domain = ((as, rs), [])"
proof (cases "aliases = [] \<and> redirects = []")
  case True
  then show ?thesis
    using assms by (auto simp: validateDomains_def)
next
  case False
  let ?seen = "(\<lambda>_. [])(domain := ''domain'')"
  obtain as' verr seen where a: "validateHostnames ValidateHostname ''aliases'' ?seen aliases = (as', verr, seen)"
    by (metis prod_cases3)
  obtain rs' verr' seen' where r: "validateHostnames ValidateDomain ''redirects'' seen redirects = (rs', verr', seen')"
    by (metis prod_cases3)
  have "((as', rs'), (if IsWildcard domain \<and> redirects \<noteq> [] then [''redirects''] else []) @ verr @ verr') = ((as, rs), [])"
    using assms(1) False assms(2) by (simp add: validateDomains_def a r)
  then have same: "as' = as" "rs' = rs" "verr = []" "verr' = []" and wild: "IsWildcard domain \<longrightarrow> redirects = []"
    by (simp_all split: if_splits)
  note a = hostnames_clean[OF a[unfolded same]] and r = hostnames_clean[OF r[unfolded same]]
  have normal: "map normalize_hostname as = as" "map normalize_hostname rs = rs"
    using a(3) r(3) by (auto intro!: map_idI normal_hostname simp: list_all_iff dest: hostname_chars domain_chars)
  have len: "length as \<le> MaxHostnames" "length rs \<le> MaxHostnames"
    using a(1,6) r(1,6) by simp_all
  have distinct: "distinct (domain # as @ rs)"
    using a(2,4,5) r(2,4) by (auto split: if_splits)
  obtain seen1 where again_a: "validateHostnames ValidateHostname ''aliases'' ?seen as = (as, [], seen1)"
      and seen1: "\<forall>h. seen1 h = [] \<longleftrightarrow> ?seen h = [] \<and> h \<notin> set as"
    using hostnames_accepted[OF a(3) normal(1) a(2,4) len(1)] by blast
  have "\<forall>h \<in> set rs. seen1 h = [] \<and> h \<noteq> []"
    using r(4) a(5) seen1 by blast
  then obtain seen2 where again_r: "validateHostnames ValidateDomain ''redirects'' seen1 rs = (rs, [], seen2)"
    using hostnames_accepted[OF r(3) normal(2) r(2) _ len(2)] by blast
  have "rs = []" if "IsWildcard domain"
    using wild that r(1) by simp
  moreover have "validateDomains as rs domain = ((as, rs), [])"
    using assms(2) wild r(1) by (auto simp: validateDomains_def again_a again_r[unfolded r(1)])
  ultimately show ?thesis
    using distinct a(3) r(3) by blast
qed

theorem hostnames_once_witness:
  "distinct [''example.com'', ''*.example.com'', ''www.example.org'', ''old.example.net'']"
proof -
  have "validateDomains ['' *.Example.com'', ''www.example.org''] [''OLD.example.net''] ''example.com'' =
      (([''*.example.com'', ''www.example.org''], [''old.example.net'']), [])"
    by code_simp
  from hostnames_once [OF this] show ?thesis
    by simp
qed

end
