(* ===== verification/Spec_Proxy.thy ===== *)
theory Spec_Proxy
  imports Spec_Domains "HOL-Library.Char_ord" "HOL-Library.List_Lexorder"
begin

text \<open>
  The \<open>proxy\<close> block of a deploy.yaml (\<^verbatim>\<open>src/pkg/spec/proxy.go\<close>, \<^verbatim>\<open>placeholder.go\<close>): paths, accounts,
  headers, redirects. The YAML decoder has run: its result, \<open>proxyRaw\<close>, is the input.

  What \<open>url.Parse\<close> says of a redirect to another host is an argument, \<open>https_url\<close>; the part of
  \<open>url.ParseRequestURI\<close> that a path on the same host goes through is modelled.
\<close>

section \<open>Definitions\<close>

record authRaw =
  ar_path :: string
  ar_username :: string
  ar_password :: string

record redirectRaw =
  rr_from :: string
  rr_to :: string
  rr_status :: "int option"

record proxyRaw =
  xr_strip :: "bool option"
  xr_headers :: "(string \<times> string) list"
  xr_auth :: "authRaw list"
  xr_redirects :: "redirectRaw list"

subsection \<open>Paths and passwords\<close>

definition validateProxyPath :: "string \<Rightarrow> string \<Rightarrow> string \<Rightarrow> string \<times> verr" where
  "validateProxyPath field p appPath =
     (let p = trim_space p
      in if p = [] \<or> p = ''/'' then ([], [])
         else (p, if \<not> validateURLPath p then [field] else if \<not> PathWithin p appPath then [field] else []))"

definition hasControl :: "string \<Rightarrow> bool" where
  "hasControl s \<longleftrightarrow> (\<exists>c \<in> set s. byte_val c < 32 \<or> byte_val c = 127)"

text \<open>
  \<open>len([]rune(s))\<close>: the bytes of the first rune, as \<open>utf8.DecodeRune\<close> finds it; a byte that starts
  no rune counts as one.
\<close>

definition cont_byte :: "nat \<Rightarrow> bool" where
  "cont_byte b \<longleftrightarrow> 128 \<le> b \<and> b \<le> 191"

definition rune_width :: "string \<Rightarrow> nat" where
  "rune_width s =
     (case map byte_val (take 4 s) of
        [] \<Rightarrow> 0
      | a # rest \<Rightarrow>
          let second = (if a = 224 then (160, 191) else if a = 237 then (128, 159) else if a = 240 then (144, 191)
                        else if a = 244 then (128, 143) else (128, 191));
              need = (if 194 \<le> a \<and> a \<le> 223 then 2 else if 224 \<le> a \<and> a \<le> 239 then 3 else if 240 \<le> a \<and> a \<le> 244 then 4 else 1)
          in if need = 1 then 1
             else if length rest < need - 1 then 1
             else if fst second \<le> hd rest \<and> hd rest \<le> snd second \<and> list_all cont_byte (take (need - 2) (tl rest)) then need
             else 1)"

function rune_count :: "string \<Rightarrow> nat" where
  "rune_count [] = 0"
| "rune_count (c # cs) = Suc (rune_count (drop (rune_width (c # cs) - 1) cs))"
  by pat_completeness auto
termination
  by (relation "measure length") auto

definition ValidatePassword :: "string \<Rightarrow> bool" where
  "ValidatePassword password \<longleftrightarrow>
     password \<noteq> [] \<and> 8 \<le> rune_count password \<and> length password \<le> 72 \<and> \<not> hasControl password"

text \<open>\<open>Placeholder\<close> at the start of a text: whether it is the plain form, and its length.\<close>

definition name_start :: "char \<Rightarrow> bool" where
  "name_start c \<longleftrightarrow> (65 \<le> byte_val c \<and> byte_val c \<le> 90) \<or> (97 \<le> byte_val c \<and> byte_val c \<le> 122) \<or> c = CHR ''_''"

definition braced_name :: "string \<Rightarrow> nat option" where
  "braced_name s =
     (case s of
        [] \<Rightarrow> None
      | c # rest \<Rightarrow>
          if c \<noteq> CHR ''{'' then None
          else let name = takeWhile (\<lambda>c. name_start c \<or> is_digit c) rest
               in if name \<noteq> [] \<and> name_start (hd name) \<and> has_prefix (drop (length name) rest) ''}'' then Some (length name + 2) else None)"

definition placeholder_at :: "string \<Rightarrow> (bool \<times> nat) option" where
  "placeholder_at s =
     (if \<not> has_prefix s ''$'' then None
      else case (if has_prefix s ''$$'' then braced_name (drop 2 s) else None) of
        Some n \<Rightarrow> Some (False, n + 2)
      | None \<Rightarrow> (case braced_name (drop 1 s) of Some n \<Rightarrow> Some (True, n + 1) | None \<Rightarrow> None))"

function hasPlaceholder :: "string \<Rightarrow> bool" where
  "hasPlaceholder [] = False"
| "hasPlaceholder (c # cs) =
     (case placeholder_at (c # cs) of
        None \<Rightarrow> hasPlaceholder cs
      | Some (plain, n) \<Rightarrow> plain \<or> hasPlaceholder (drop (n - 1) cs))"
  by pat_completeness auto
termination
  by (relation "measure length") auto

subsection \<open>Accounts\<close>

definition MaxBasicAuth :: nat where
  "MaxBasicAuth = 20"

definition username_errors :: "string \<Rightarrow> (string \<times> string) list \<Rightarrow> string \<times> string \<Rightarrow> string \<Rightarrow> verr" where
  "username_errors field seen account name =
     (if name = [] then [field @ ''.username'']
      else if length name > 255 then [field @ ''.username'']
      else if CHR '':'' \<in> set name \<or> hasControl name then [field @ ''.username'']
      else if CHR ''{'' \<in> set name \<or> CHR ''}'' \<in> set name then [field @ ''.username'']
      else if account \<in> set seen then [field @ ''.username''] else [])"

fun auth_entries :: "string \<Rightarrow> nat \<Rightarrow> (string \<times> string) list \<Rightarrow> authRaw list \<Rightarrow> BasicAuth list \<times> verr" where
  "auth_entries appPath i seen [] = ([], [])"
| "auth_entries appPath i seen (a # rest) =
     (let field = indexed ''proxy.basic_auth'' i;
          (path, perr) = validateProxyPath (field @ ''.path'') (ar_path a) appPath;
          account = (PathKey path, ar_username a);
          uerr = username_errors field seen account (ar_username a);
          werr = (if \<not> hasPlaceholder (ar_password a) \<and> \<not> ValidatePassword (ar_password a) then [field @ ''.password''] else [])
      in case auth_entries appPath (i + 1) (account # seen) rest of
           (out, verr) \<Rightarrow>
             (\<lparr>ba_path = path, ba_username = ar_username a, ba_password = ar_password a\<rparr> # out, perr @ uerr @ werr @ verr))"

definition validateBasicAuth :: "authRaw list \<Rightarrow> string \<Rightarrow> BasicAuth list \<times> verr" where
  "validateBasicAuth auth appPath =
     (if length auth > MaxBasicAuth then ([], [''proxy.basic_auth'']) else auth_entries appPath 0 [] auth)"

subsection \<open>Headers\<close>

definition MaxProxyHeaders :: nat where
  "MaxProxyHeaders = 50"

definition connectionHeaders :: "string list" where
  "connectionHeaders =
     [''connection'', ''content-encoding'', ''content-length'', ''keep-alive'', ''proxy-authenticate'',
      ''proxy-authorization'', ''proxy-connection'', ''te'', ''trailer'', ''transfer-encoding'', ''upgrade'']"

definition header_char :: "char \<Rightarrow> bool" where
  "header_char c \<longleftrightarrow> is_digit c \<or> (65 \<le> byte_val c \<and> byte_val c \<le> 90) \<or> (97 \<le> byte_val c \<and> byte_val c \<le> 122) \<or>
     c \<in> set (''!#$%&*+.^_`|~-'' @ [CHR 0x27])"

definition headerNamePattern :: "string \<Rightarrow> bool" where
  "headerNamePattern s \<longleftrightarrow> s \<noteq> [] \<and> list_all header_char s"

definition header_errors :: "string list \<Rightarrow> string \<times> string \<Rightarrow> verr" where
  "header_errors seen h =
     (case h of (name, value) \<Rightarrow>
        let field = ''proxy.headers.'' @ name; lower = to_lower name
        in if \<not> headerNamePattern name then [''proxy.headers'']
           else if lower \<in> set connectionHeaders then [field]
           else if lower \<in> set seen then [field]
           else if value = [] then [field]
           else if length value > 4096 then [field]
           else if hasControl value then [field] else [])"

fun header_entries :: "string list \<Rightarrow> (string \<times> string) list \<Rightarrow> verr" where
  "header_entries seen [] = []"
| "header_entries seen (h # rest) = header_errors seen h @ header_entries (to_lower (fst h) # seen) rest"

text \<open>A map has each name once, and is walked in the order of its names.\<close>

definition validateProxyHeaders :: "(string \<times> string) list \<Rightarrow> (string \<times> string) list \<times> verr" where
  "validateProxyHeaders inputs =
     (if inputs = [] then ([], [])
      else if length inputs > MaxProxyHeaders then ([], [''proxy.headers''])
      else (inputs, header_entries [] (sort_key fst inputs)))"

subsection \<open>Redirects\<close>

definition MaxPathRedirects :: nat where
  "MaxPathRedirects = 100"

definition DefaultRedirectStatus :: int where
  "DefaultRedirectStatus = 308"

text \<open>\<open>unescape\<close> of package \<open>net/url\<close>, for a path: None for a percent sign without two hexadecimal digits.\<close>

definition hex_value :: "char \<Rightarrow> nat option" where
  "hex_value c =
     (let b = byte_val c
      in if 48 \<le> b \<and> b \<le> 57 then Some (b - 48)
         else if 97 \<le> b \<and> b \<le> 102 then Some (b - 87)
         else if 65 \<le> b \<and> b \<le> 70 then Some (b - 55) else None)"

fun unescape :: "string \<Rightarrow> string option" where
  "unescape [] = Some []"
| "unescape (c # cs) =
     (if c \<noteq> CHR ''%'' then map_option ((#) c) (unescape cs)
      else case cs of
        a # b # rest \<Rightarrow>
          (case (hex_value a, hex_value b) of
             (Some x, Some y) \<Rightarrow> map_option ((#) (char_of (16 * x + y))) (unescape rest)
           | _ \<Rightarrow> None)
      | _ \<Rightarrow> None)"

text \<open>\<open>url.ParseRequestURI\<close> of a text that starts with a slash and has no control characters: the path.\<close>

definition request_path :: "string \<Rightarrow> string option" where
  "request_path to = unescape (fst (cut_at CHR ''?'' to))"

definition validateRedirectTarget :: "(string \<Rightarrow> bool) \<Rightarrow> string \<Rightarrow> bool" where
  "validateRedirectTarget https_url to \<longleftrightarrow>
     length to \<le> 2048 \<and> (\<forall>c \<in> set to. \<not> (byte_val c \<le> 32 \<or> byte_val c = 127 \<or> c \<in> set (''{}'' @ [CHR 0x5C]))) \<and>
     (if has_prefix to ''/'' then \<not> has_prefix to ''//'' \<and> request_path to \<noteq> None else https_url to)"

definition targetPath :: "string \<Rightarrow> string" where
  "targetPath to =
     (if \<not> has_prefix to ''/'' then []
      else case request_path to of None \<Rightarrow> [] | Some p \<Rightarrow> p)"

type_synonym next_map = "string \<Rightarrow> string option"

definition from_errors :: "string \<Rightarrow> next_map \<Rightarrow> string \<Rightarrow> string \<Rightarrow> string \<times> verr" where
  "from_errors field nxt raw appPath =
     (if trim_space raw = [] then ([], [field @ ''.from''])
      else case validateProxyPath (field @ ''.from'') raw appPath of
        (from, verr) \<Rightarrow>
          (from, verr @ (if from = [] then [field @ ''.from'']
                         else if nxt (PathKey from) \<noteq> None then [field @ ''.from''] else [])))"

definition to_errors :: "(string \<Rightarrow> bool) \<Rightarrow> string \<Rightarrow> string \<Rightarrow> verr" where
  "to_errors https_url field to =
     (if to = [] then [field @ ''.to''] else if \<not> validateRedirectTarget https_url to then [field @ ''.to''] else [])"

definition status_errors :: "string \<Rightarrow> int option \<Rightarrow> verr" where
  "status_errors field status =
     (case status of None \<Rightarrow> [] | Some n \<Rightarrow> if n \<in> {301, 302, 307, 308} then [] else [field @ ''.status''])"

text \<open>The first loop. The results: the redirects, the complaints, and where each path leads.\<close>

fun redirect_entries ::
    "(string \<Rightarrow> bool) \<Rightarrow> string \<Rightarrow> nat \<Rightarrow> next_map \<Rightarrow> redirectRaw list \<Rightarrow> PathRedirect list \<times> verr \<times> next_map" where
  "redirect_entries https_url appPath i nxt [] = ([], [], nxt)"
| "redirect_entries https_url appPath i nxt (r # rest) =
     (let field = indexed ''proxy.redirects'' i;
          to = trim_space (rr_to r);
          status = (case rr_status r of None \<Rightarrow> DefaultRedirectStatus | Some n \<Rightarrow> n);
          (from, ferr) = from_errors field nxt (rr_from r) appPath;
          errs = ferr @ to_errors https_url field to @ status_errors field (rr_status r);
          nxt' = (if errs = [] then nxt(PathKey from \<mapsto> PathKey (targetPath to)) else nxt)
      in case redirect_entries https_url appPath (i + 1) nxt' rest of
           (out, verr, final) \<Rightarrow> (\<lparr>pr_from = from, pr_to = to, pr_status = status\<rparr> # out, errs @ verr, final))"

text \<open>The second loop's walk: whether the redirects lead from \<open>at\<close> back to \<open>start\<close> in so many steps.\<close>

fun leads_back :: "next_map \<Rightarrow> string \<Rightarrow> nat \<Rightarrow> string \<Rightarrow> bool" where
  "leads_back nxt start 0 at = False"
| "leads_back nxt start (Suc steps) at =
     (case nxt at of None \<Rightarrow> False | Some to \<Rightarrow> to = start \<or> leads_back nxt start steps to)"

fun loop_errors :: "next_map \<Rightarrow> nat \<Rightarrow> nat \<Rightarrow> PathRedirect list \<Rightarrow> verr" where
  "loop_errors nxt n i [] = []"
| "loop_errors nxt n i (r # rest) =
     (if leads_back nxt (PathKey (pr_from r)) (n + 1) (PathKey (pr_from r))
      then [indexed ''proxy.redirects'' i @ ''.to''] else []) @ loop_errors nxt n (i + 1) rest"

definition validatePathRedirects :: "(string \<Rightarrow> bool) \<Rightarrow> redirectRaw list \<Rightarrow> string \<Rightarrow> PathRedirect list \<times> verr" where
  "validatePathRedirects https_url redirects appPath =
     (if length redirects > MaxPathRedirects then ([], [''proxy.redirects''])
      else case redirect_entries https_url appPath 0 (\<lambda>_. None) redirects of
        (out, verr, nxt) \<Rightarrow> (out, if verr \<noteq> [] then verr else loop_errors nxt (length out) 0 out))"

subsection \<open>The block\<close>

definition validateProxy :: "(string \<Rightarrow> bool) \<Rightarrow> proxyRaw option \<Rightarrow> string \<Rightarrow> string \<Rightarrow> Proxy option \<times> verr" where
  "validateProxy https_url raw domain path =
     (case raw of
        None \<Rightarrow> (None, [])
      | Some pr \<Rightarrow>
          let orphan = (if domain = [] then [''proxy''] else []);
              strip = (xr_strip pr = Some True);
              serr = (if strip \<and> path = [] then [''proxy.strip_prefix''] else []);
              (headers, herr) = validateProxyHeaders (xr_headers pr);
              (auth, aerr) = validateBasicAuth (xr_auth pr) path;
              (redirects, rerr) = validatePathRedirects https_url (xr_redirects pr) path
          in (if \<not> strip \<and> headers = [] \<and> auth = [] \<and> redirects = [] then None
              else Some \<lparr>px_strip = strip, px_headers = headers, px_auth = auth, px_redirects = redirects\<rparr>,
              orphan @ serr @ herr @ aerr @ rerr))"

text \<open>\<open>redacted\<close>: the passwords are masked, the rest stays.\<close>

definition redacted :: "Proxy option \<Rightarrow> Proxy option" where
  "redacted p = map_option (\<lambda>px. px\<lparr>px_auth := map (\<lambda>a. a\<lparr>ba_password := ''********''\<rparr>) (px_auth px)\<rparr>) p"

section \<open>Redirects come to an end\<close>

text \<open>Where the proxy sends a request for a path (in small letters) next, if it redirects it at all.\<close>

definition redirect_table :: "PathRedirect list \<Rightarrow> (string \<times> string) list" where
  "redirect_table rs = map (\<lambda>r. (PathKey (pr_from r), PathKey (targetPath (pr_to r)))) rs"

fun hops :: "next_map \<Rightarrow> nat \<Rightarrow> string \<Rightarrow> string option" where
  "hops nxt 0 at = Some at"
| "hops nxt (Suc n) at = (case nxt at of None \<Rightarrow> None | Some to \<Rightarrow> hops nxt n to)"

lemma hops_add: "hops nxt (m + n) at = (case hops nxt m at of None \<Rightarrow> None | Some x \<Rightarrow> hops nxt n x)"
  by (induction m arbitrary: at) (auto split: option.split)

lemma hops_None_mono: "hops nxt m at = None \<Longrightarrow> m \<le> n \<Longrightarrow> hops nxt n at = None"
  using hops_add[of nxt m "n - m" at] by simp

lemma leads_back_hops: "hops nxt m at = Some start \<Longrightarrow> 0 < m \<Longrightarrow> m \<le> n \<Longrightarrow> leads_back nxt start n at"
proof (induction n arbitrary: m at)
  case (Suc n)
  then obtain k to where k: "m = Suc k" "nxt at = Some to" "hops nxt k to = Some start"
    by (cases m) (auto split: option.splits)
  then show ?case
    using Suc.IH[of k to] Suc.prems by (cases k) auto
qed simp

text \<open>A walk of more steps than there are redirects comes by a place twice.\<close>

lemma long_walk:
  assumes "finite (dom nxt)" "card (dom nxt) \<le> n" "hops nxt (Suc n) at \<noteq> None"
  obtains q m where "q \<in> dom nxt" "0 < m" "m \<le> n" "hops nxt m q = Some q"
proof -
  have some: "hops nxt k at \<noteq> None" if "k \<le> Suc n" for k
  proof
    assume "hops nxt k at = None"
    from hops_None_mono[OF this that] assms(3) show False
      by (rule notE[rotated])
  qed
  define visit where "visit = (\<lambda>k. the (hops nxt k at))"
  have step: "hops nxt k at = Some (visit k)" if "k \<le> n" for k
    using some[of k] that by (auto simp: visit_def)
  have within: "visit k \<in> dom nxt" if "k \<le> n" for k
    using some[of "Suc k"] step[OF that] hops_add[of nxt k 1 at] that by (auto split: option.splits)
  have "\<not> inj_on visit {..n}"
  proof
    assume "inj_on visit {..n}"
    moreover have "visit ` {..n} \<subseteq> dom nxt"
      using within by auto
    ultimately have "card {..n} \<le> card (dom nxt)"
      using assms(1) by (meson card_inj_on_le)
    then show False
      using assms(2) by simp
  qed
  then obtain i j where ij: "i < j" "j \<le> n" "visit i = visit j"
    by (auto simp: inj_on_def) (metis linorder_neqE_nat)
  have "hops nxt (j - i) (visit i) = Some (visit i)"
    using hops_add[of nxt i "j - i" at] step[of i] step[of j] ij by simp
  with that[of "visit i" "j - i"] within[of i] ij show ?thesis
    by simp
qed

lemma loop_free: "loop_errors nxt n i rs = [] \<Longrightarrow> r \<in> set rs \<Longrightarrow> \<not> leads_back nxt (PathKey (pr_from r)) (n + 1) (PathKey (pr_from r))"
  by (induction rs arbitrary: i) (auto split: if_splits)

lemma redirect_entries_step:
  assumes "from_errors (indexed ''proxy.redirects'' i) nxt (rr_from r) appPath = (src, ferr)"
    "to = trim_space (rr_to r)" "status = (case rr_status r of None \<Rightarrow> DefaultRedirectStatus | Some n \<Rightarrow> n)"
    "errs = ferr @ to_errors https_url (indexed ''proxy.redirects'' i) to @ status_errors (indexed ''proxy.redirects'' i) (rr_status r)"
    "redirect_entries https_url appPath (i + 1) (if errs = [] then nxt(PathKey src \<mapsto> PathKey (targetPath to)) else nxt) rest =
      (out, verr, final)"
  shows "redirect_entries https_url appPath i nxt (r # rest) =
    (\<lparr>pr_from = src, pr_to = to, pr_status = status\<rparr> # out, errs @ verr, final)"
  using assms(5) unfolding redirect_entries.simps Let_def assms(1) assms(2)[symmetric] assms(3)[symmetric] prod.case assms(4)[symmetric]
  by simp

lemma entries_table:
  assumes "redirect_entries https_url appPath i nxt raws = (out, [], final)"
  shows "final = nxt ++ map_of (redirect_table out) \<and> distinct (map fst (redirect_table out)) \<and>
    (\<forall>x \<in> set (map fst (redirect_table out)). nxt x = None)"
  using assms
proof (induction raws arbitrary: i nxt out)
  case (Cons r rest)
  let ?field = "indexed ''proxy.redirects'' i"
  obtain src ferr where src: "from_errors ?field nxt (rr_from r) appPath = (src, ferr)"
    by fastforce
  define to where "to = trim_space (rr_to r)"
  define errs where "errs = ferr @ to_errors https_url ?field to @ status_errors ?field (rr_status r)"
  obtain out' verr final' where rest: "redirect_entries https_url appPath (i + 1)
      (if errs = [] then nxt(PathKey src \<mapsto> PathKey (targetPath to)) else nxt) rest = (out', verr, final')"
    by (metis prod_cases3)
  define status where "status = (case rr_status r of None \<Rightarrow> DefaultRedirectStatus | Some n \<Rightarrow> n)"
  from redirect_entries_step[OF src to_def status_def errs_def rest] Cons.prems
  have eq: "(\<lparr>pr_from = src, pr_to = to, pr_status = status\<rparr> # out', errs @ verr, final') = (out, [], final)"
    by (rule trans[OF sym])
  then have parts: "errs = []" "verr = []" "final' = final" and "out = \<lparr>pr_from = src, pr_to = to, pr_status = status\<rparr> # out'"
    by simp_all
  from this(4) have table: "redirect_table out = (PathKey src, PathKey (targetPath to)) # redirect_table out'"
    by (simp add: redirect_table_def)
  have "nxt (PathKey src) = None"
    using parts(1) src unfolding errs_def from_errors_def by (auto split: if_splits prod.splits)
  with Cons.IH[OF rest[unfolded parts(1-3), simplified]] show ?case
    unfolding table by (auto simp: map_add_def fun_eq_iff split: option.splits if_splits)
qed (simp add: redirect_table_def)

text \<open>
  C28: redirects that a deploy.yaml is accepted with do not go round in circles: from whatever path,
  after at most as many redirects as there are the browser is at a path that is not redirected, or at
  another host.
\<close>

theorem redirects_end:
  assumes "validatePathRedirects https_url raws appPath = (out, [])"
  shows "hops (map_of (redirect_table out)) (Suc (length out)) at = None"
proof (rule ccontr)
  assume walk: "hops (map_of (redirect_table out)) (Suc (length out)) at \<noteq> None"
  obtain out' verr nxt where entries: "redirect_entries https_url appPath 0 (\<lambda>_. None) raws = (out', verr, nxt)"
    by (metis prod_cases3)
  with assms have same: "out' = out" "verr = []" "loop_errors nxt (length out) 0 out = []"
    by (auto simp: validatePathRedirects_def split: if_splits)
  note table = entries_table[OF entries[unfolded same]]
  then have nxt: "nxt = map_of (redirect_table out)"
    by (simp add: map_add_def fun_eq_iff split: option.split)
  have "finite (dom nxt)" "card (dom nxt) \<le> length out"
    using card_length[of "map fst (redirect_table out)"]
    by (simp_all add: nxt dom_map_of_conv_image_fst redirect_table_def finite_dom_map_of image_image)
  then obtain q m where q: "q \<in> dom nxt" "0 < m" "m \<le> length out" "hops nxt m q = Some q"
    using long_walk walk unfolding nxt by metis
  then obtain r where r: "r \<in> set out" "q = PathKey (pr_from r)"
    by (auto simp: nxt redirect_table_def dest!: map_of_SomeD)
  have "leads_back nxt q (length out + 1) q"
    by (rule leads_back_hops[OF q(4,2)]) (use q(3) in simp)
  then show False
    using loop_free[OF same(3) r(1)] r(2) by simp
qed

theorem redirects_end_witness:
  "hops (map_of (redirect_table [\<lparr>pr_from = ''/old'', pr_to = ''/New?x=1'', pr_status = 308\<rparr>])) 2 ''/old'' = None"
proof -
  have "validatePathRedirects (\<lambda>_. False) [\<lparr>rr_from = '' /old'', rr_to = ''/New?x=1'', rr_status = None\<rparr>] [] =
      ([\<lparr>pr_from = ''/old'', pr_to = ''/New?x=1'', pr_status = 308\<rparr>], [])"
    by code_simp
  from redirects_end[OF this, of "''/old''"] show ?thesis
    by (simp add: numeral_2_eq_2)
qed

section \<open>What an accepted block is like\<close>

lemma proxy_path_clean: "validateProxyPath field p appPath = (path, []) \<Longrightarrow> path = [] \<or> validateURLPath path \<and> PathWithin path appPath"
  by (auto simp: validateProxyPath_def Let_def split: if_splits)

lemma auth_clean:
  assumes "auth_entries appPath i seen raws = (out, [])"
  shows "distinct (map (\<lambda>a. (PathKey (ba_path a), ba_username a)) out) \<and>
    (\<forall>a \<in> set out. (PathKey (ba_path a), ba_username a) \<notin> set seen \<and> ba_username a \<noteq> [] \<and> CHR '':'' \<notin> set (ba_username a) \<and>
       (ba_path a = [] \<or> PathWithin (ba_path a) appPath) \<and> (hasPlaceholder (ba_password a) \<or> ValidatePassword (ba_password a)))"
  using assms
proof (induction raws arbitrary: i seen out)
  case (Cons a rest)
  let ?field = "indexed ''proxy.basic_auth'' i"
  obtain path perr where path: "validateProxyPath (?field @ ''.path'') (ar_path a) appPath = (path, perr)"
    by fastforce
  obtain out' verr where rest: "auth_entries appPath (i + 1) ((PathKey path, ar_username a) # seen) rest = (out', verr)"
    by fastforce
  have parts: "out = \<lparr>ba_path = path, ba_username = ar_username a, ba_password = ar_password a\<rparr> # out'" "perr = []" "verr = []"
      "username_errors ?field seen (PathKey path, ar_username a) (ar_username a) = []"
      "hasPlaceholder (ar_password a) \<or> ValidatePassword (ar_password a)"
    using Cons.prems path rest by (auto simp: Let_def split: if_splits)
  have "path = [] \<or> PathWithin path appPath"
    using proxy_path_clean[OF path[unfolded parts(2)]] by blast
  moreover have "ar_username a \<noteq> []" "CHR '':'' \<notin> set (ar_username a)" "(PathKey path, ar_username a) \<notin> set seen"
    using parts(4) by (auto simp: username_errors_def split: if_splits)
  moreover note IH = Cons.IH[OF rest[unfolded parts(3)]]
  moreover from IH have "(PathKey path, ar_username a) \<notin> (\<lambda>a. (PathKey (ba_path a), ba_username a)) ` set out'"
    by (metis (no_types, lifting) imageE list.set_intros(1))
  ultimately show ?case
    using parts(5) unfolding parts(1) by (simp del: hasPlaceholder.simps)
qed simp

lemma headers_clean:
  assumes "header_entries seen hs = []"
  shows "distinct (map (to_lower \<circ> fst) hs) \<and>
    (\<forall>h \<in> set hs. to_lower (fst h) \<notin> set seen \<and> to_lower (fst h) \<notin> set connectionHeaders \<and> headerNamePattern (fst h) \<and> snd h \<noteq> [])"
  using assms
proof (induction hs arbitrary: seen)
  case (Cons h rest)
  then have "header_errors seen h = []" "header_entries (to_lower (fst h) # seen) rest = []"
    by simp_all
  from this(1) Cons.IH[OF this(2)] show ?case
    by (auto simp: header_errors_def Let_def split: if_splits prod.splits)
qed simp

lemma proxy_headers_clean:
  assumes "validateProxyHeaders inputs = (out, [])" "distinct inputs"
  shows "distinct (map (to_lower \<circ> fst) out) \<and> (\<forall>h \<in> set out. to_lower (fst h) \<notin> set connectionHeaders)"
proof (cases "inputs = []")
  case False
  then have out: "out = inputs" "header_entries [] (sort_key fst inputs) = []"
    using assms(1) by (auto simp: validateProxyHeaders_def split: if_splits)
  from headers_clean[OF this(2)] show ?thesis
    using assms(2) unfolding out(1) distinct_map by simp
qed (use assms in \<open>simp add: validateProxyHeaders_def\<close>)

lemma redirects_clean:
  assumes "redirect_entries https_url appPath i nxt raws = (out, [], final)" "r \<in> set out"
  shows "pr_from r \<noteq> [] \<and> PathWithin (pr_from r) appPath \<and> validateRedirectTarget https_url (pr_to r) \<and> pr_status r \<in> {301, 302, 307, 308}"
  using assms
proof (induction raws arbitrary: i nxt out)
  case (Cons x rest)
  let ?field = "indexed ''proxy.redirects'' i"
  obtain src ferr where src: "from_errors ?field nxt (rr_from x) appPath = (src, ferr)"
    by fastforce
  define to where "to = trim_space (rr_to x)"
  define errs where "errs = ferr @ to_errors https_url ?field to @ status_errors ?field (rr_status x)"
  define status where "status = (case rr_status x of None \<Rightarrow> DefaultRedirectStatus | Some n \<Rightarrow> n)"
  obtain out' verr final' where rest: "redirect_entries https_url appPath (i + 1)
      (if errs = [] then nxt(PathKey src \<mapsto> PathKey (targetPath to)) else nxt) rest = (out', verr, final')"
    by (metis prod_cases3)
  from redirect_entries_step[OF src to_def status_def errs_def rest] Cons.prems(1)
  have "(\<lparr>pr_from = src, pr_to = to, pr_status = status\<rparr> # out', errs @ verr, final') = (out, [], final)"
    by (rule trans[OF sym])
  then have parts: "errs = []" "verr = []" "final' = final" "out = \<lparr>pr_from = src, pr_to = to, pr_status = status\<rparr> # out'"
    by simp_all
  have "ferr = []" "to_errors https_url ?field to = []" "status_errors ?field (rr_status x) = []"
    using parts(1) by (simp_all add: errs_def)
  moreover from this(1) src have "src \<noteq> [] \<and> PathWithin src appPath"
    by (auto simp: from_errors_def dest: proxy_path_clean split: if_splits prod.splits)
  ultimately show ?case
    using Cons.prems(2) Cons.IH[OF rest[unfolded parts(1-3), simplified]]
    unfolding parts(4) by (auto simp: to_errors_def status_errors_def status_def DefaultRedirectStatus_def split: if_splits option.splits)
qed simp

text \<open>
  C29: in a \<open>proxy\<close> block that is accepted every header is named once, whatever its case, and none belongs to
  the connection; no user has two accounts for one path; accounts and redirects stay within the application's
  own path; every password can be hashed or is left for the server to fill in.
\<close>

theorem proxy_block_sound:
  assumes "validateProxy https_url (Some raw) domain path = (Some px, [])" "distinct (xr_headers raw)"
  shows "domain \<noteq> [] \<and> (px_strip px \<longrightarrow> path \<noteq> []) \<and>
    distinct (map (to_lower \<circ> fst) (px_headers px)) \<and> (\<forall>h \<in> set (px_headers px). to_lower (fst h) \<notin> set connectionHeaders) \<and>
    distinct (map (\<lambda>a. (PathKey (ba_path a), ba_username a)) (px_auth px)) \<and>
    (\<forall>a \<in> set (px_auth px). (ba_path a = [] \<or> PathWithin (ba_path a) path) \<and>
       (hasPlaceholder (ba_password a) \<or> ValidatePassword (ba_password a))) \<and>
    (\<forall>r \<in> set (px_redirects px). PathWithin (pr_from r) path \<and> validateRedirectTarget https_url (pr_to r))"
proof -
  obtain headers herr where h: "validateProxyHeaders (xr_headers raw) = (headers, herr)"
    by fastforce
  obtain auth aerr where a: "validateBasicAuth (xr_auth raw) path = (auth, aerr)"
    by fastforce
  obtain redirects rerr where r: "validatePathRedirects https_url (xr_redirects raw) path = (redirects, rerr)"
    by fastforce
  have parts: "herr = []" "aerr = []" "rerr = []" "domain \<noteq> []" "xr_strip raw = Some True \<longrightarrow> path \<noteq> []"
      "px = \<lparr>px_strip = (xr_strip raw = Some True), px_headers = headers, px_auth = auth, px_redirects = redirects\<rparr>"
    using assms(1) h a r by (auto simp: validateProxy_def Let_def split: if_splits)
  have "auth_entries path 0 [] (xr_auth raw) = (auth, [])"
    using a unfolding parts(2) by (auto simp: validateBasicAuth_def split: if_splits)
  note auth = auth_clean[OF this]
  obtain nxt where "redirect_entries https_url path 0 (\<lambda>_. None) (xr_redirects raw) = (redirects, [], nxt)"
    using r unfolding parts(3) by (auto simp: validatePathRedirects_def split: if_splits prod.splits)
  note redirects = redirects_clean[OF this]
  show ?thesis
    using proxy_headers_clean[OF h[unfolded parts(1)] assms(2)] auth redirects parts(4,5) unfolding parts(6)
    by simp
qed

theorem proxy_block_sound_witness:
  "distinct (map (to_lower \<circ> fst) [(''X-Frame-Options'', ''DENY''), (''Cache-Control'', ''no-store'')])"
proof -
  let ?raw = "\<lparr>xr_strip = Some True, xr_headers = [(''X-Frame-Options'', ''DENY''), (''Cache-Control'', ''no-store'')],
    xr_auth = [\<lparr>ar_path = ''/API/admin'', ar_username = ''admin'', ar_password = ''correct horse''\<rparr>], xr_redirects = []\<rparr>"
  have "validateProxy (\<lambda>_. False) (Some ?raw) ''example.com'' ''/api'' =
    (Some \<lparr>px_strip = True, px_headers = [(''X-Frame-Options'', ''DENY''), (''Cache-Control'', ''no-store'')],
       px_auth = [\<lparr>ba_path = ''/API/admin'', ba_username = ''admin'', ba_password = ''correct horse''\<rparr>], px_redirects = []\<rparr>, [])"
    by code_simp
  from proxy_block_sound[OF this] show ?thesis
    by simp
qed

end
