(* ===== verification/Routing.thy ===== *)
theory Routing
  imports Supervisor Spec_Domains
begin

text \<open>
  Who serves which hostname (\<^verbatim>\<open>src/agent/internal/deploy/routing.go\<close>, \<^verbatim>\<open>accounts.go\<close>, \<open>staticDir\<close> of
  \<^verbatim>\<open>static.go\<close>, the routes of \<^verbatim>\<open>src/agent/internal/proxy/config.go\<close>): the check that a deployment's
  hostnames are free, the plans the database and the rollouts under way make, the routes the proxy is
  told, and the names the ready replicas carry on the services network.

  Arguments stand for what is not computed here: \<open>ready\<close> is the verdict on a hostname in the cache
  (\<open>hostnameReady\<close>), \<open>digest\<close> the static digest of a deployment's row, \<open>key_of\<close> and \<open>bcrypt\<close>
  the keyed digest of an account and the hash of a password, both third-party or random. Not modelled: the
  proxy's configuration language, certificates, and what is logged about a change.
\<close>

section \<open>Hostnames of an application\<close>

record hostnames =
  hn_domain :: string
  hn_aliases :: "string list"
  hn_redirects :: "string list"
  hn_path :: string
  hn_proxy :: "Proxy option"
  hn_fallback :: string

definition hostnamesOf :: "App \<Rightarrow> hostnames" where
  "hostnamesOf a =
     \<lparr>hn_domain = a_domain a, hn_aliases = a_aliases a, hn_redirects = a_redirects a, hn_path = a_path a, hn_proxy = a_proxy a,
      hn_fallback = (case a_static a of None \<Rightarrow> [] | Some st \<Rightarrow> st_fallback st)\<rparr>"

text \<open>The field of deploy.yaml that names a hostname.\<close>

datatype host_field = FDomain | FPath | FAlias nat | FRedirect nat

fun is_redirect :: "host_field \<Rightarrow> bool" where
  "is_redirect (FRedirect i) = True"
| "is_redirect f = False"

definition all_hosts :: "hostnames \<Rightarrow> (host_field \<times> string) list" where
  "all_hosts h =
     (if hn_domain h \<noteq> [] then [(FDomain, hn_domain h)] else []) @
     map (\<lambda>(i, a). (FAlias i, a)) (enumerate 0 (hn_aliases h)) @
     map (\<lambda>(i, r). (FRedirect i, r)) (enumerate 0 (hn_redirects h))"

definition served :: "hostnames \<Rightarrow> (host_field \<times> string) list" where
  "served h = filter (\<lambda>(f, _). \<not> is_redirect f) (all_hosts h)"

definition part :: "string \<Rightarrow> string \<Rightarrow> string" where
  "part host path = host @ PathKey path"

record Route =
  rt_domain :: string
  rt_aliases :: "string list"
  rt_redirects :: "string list"
  rt_backends :: "(string \<times> int) list"
  rt_upstreams :: "string list"
  rt_static_root :: string
  rt_fallback :: string
  rt_path :: string
  rt_strip :: bool
  rt_headers :: "(string \<times> string) list"
  rt_auth :: "(string \<times> string \<times> string) list"
  rt_path_redirects :: "PathRedirect list"

definition routeHostnames :: "Route \<Rightarrow> string list" where
  "routeHostnames r = rt_domain r # rt_aliases r @ rt_redirects r"

section \<open>Whether a deployment's hostnames are free\<close>

text \<open>Who has a hostname, a part of it, or some part of it; \<open>[]\<close> for nobody.\<close>

record claims =
  cl_whole :: "string \<Rightarrow> string"
  cl_parts :: "string \<Rightarrow> string"
  cl_shared :: "string \<Rightarrow> string"

record DomainConflict =
  cf_domain :: string
  cf_path :: string
  cf_field :: host_field
  cf_owner :: string

definition claim_served :: "string \<Rightarrow> string \<Rightarrow> string \<Rightarrow> claims \<Rightarrow> claims" where
  "claim_served owner path h cl =
     cl\<lparr>cl_parts := (cl_parts cl)(part h path := owner), cl_shared := (cl_shared cl)(h := owner)\<rparr>"

definition claim_whole :: "string \<Rightarrow> string \<Rightarrow> claims \<Rightarrow> claims" where
  "claim_whole owner h cl = cl\<lparr>cl_whole := (cl_whole cl)(h := owner)\<rparr>"

definition claim_hosts :: "string \<Rightarrow> hostnames \<Rightarrow> claims \<Rightarrow> claims" where
  "claim_hosts owner theirs cl =
     fold (claim_whole owner) (hn_redirects theirs)
       (fold (claim_served owner (hn_path theirs)) (map snd (served theirs)) cl)"

definition owner_of :: "Application \<Rightarrow> string" where
  "owner_of a = ''application '' @ [CHR 0x22] @ app_name a @ [CHR 0x22]"

fun claims_of :: "string \<Rightarrow> db \<Rightarrow> Application list \<Rightarrow> claims \<Rightarrow> store_error + claims" where
  "claims_of name s [] cl = Inr cl"
| "claims_of name s (a # rest) cl =
     (if app_name a = name then claims_of name s rest cl
      else case app_active a of
        None \<Rightarrow> claims_of name s rest cl
      | Some i \<Rightarrow>
          (case GetDeployment i s of
             Inl e \<Rightarrow> Inl e
           | Inr d \<Rightarrow> claims_of name s rest (claim_hosts (owner_of a) (hostnamesOf (d_spec d)) cl)))"

definition Shipwick_itself :: string where
  "Shipwick_itself = ''Shipwick itself (the agent or the dashboard)''"

definition claim_extra :: "Route list \<Rightarrow> claims \<Rightarrow> claims" where
  "claim_extra extra cl = fold (claim_whole Shipwick_itself) (concat (map routeHostnames extra)) cl"

text \<open>What one hostname collides with.\<close>

definition conflict_at :: "hostnames \<Rightarrow> claims \<Rightarrow> host_field \<times> string \<Rightarrow> DomainConflict option" where
  "conflict_at mine cl c =
     (case c of (field, host) \<Rightarrow>
        if cl_whole cl host \<noteq> [] then Some \<lparr>cf_domain = host, cf_path = [], cf_field = field, cf_owner = cl_whole cl host\<rparr>
        else if is_redirect field then
          (if cl_shared cl host \<noteq> [] then Some \<lparr>cf_domain = host, cf_path = [], cf_field = field, cf_owner = cl_shared cl host\<rparr>
           else None)
        else if cl_parts cl (part host (hn_path mine)) \<noteq> [] then
          Some \<lparr>cf_domain = host, cf_path = hn_path mine,
            cf_field = (if field = FDomain \<and> hn_path mine \<noteq> [] then FPath else field), cf_owner = cl_parts cl (part host (hn_path mine))\<rparr>
        else None)"

fun first_conflict :: "hostnames \<Rightarrow> claims \<Rightarrow> (host_field \<times> string) list \<Rightarrow> DomainConflict option" where
  "first_conflict mine cl [] = None"
| "first_conflict mine cl (c # cs) =
     (case conflict_at mine cl c of Some conflict \<Rightarrow> Some conflict | None \<Rightarrow> first_conflict mine cl cs)"

definition no_claims :: claims where
  "no_claims = \<lparr>cl_whole = (\<lambda>_. []), cl_parts = (\<lambda>_. []), cl_shared = (\<lambda>_. [])\<rparr>"

definition checkDomain :: "Route list \<Rightarrow> App \<Rightarrow> db \<Rightarrow> store_error + DomainConflict option" where
  "checkDomain extra app s =
     (let mine = hostnamesOf app
      in if all_hosts mine = [] then Inr None
         else case claims_of (a_name app) s (ListApplications s) no_claims of
           Inl e \<Rightarrow> Inl e
         | Inr cl \<Rightarrow> Inr (first_conflict mine (claim_extra extra cl) (all_hosts mine)))"

section \<open>Who should serve\<close>

record routingPlan =
  rp_app :: string
  rp_app_id :: int
  rp_hosts :: hostnames
  rp_members :: "routeMember list"
  rp_static_root :: string

record servedBy =
  ov_hosts :: hostnames
  ov_members :: "routeMember list"
  ov_static_root :: string

text \<open>The plan of one application, if it has one.\<close>

definition plan_of :: "(int \<Rightarrow> string) \<Rightarrow> (string \<Rightarrow> servedBy option) \<Rightarrow> Active \<Rightarrow> Application \<Rightarrow> routingPlan option" where
  "plan_of digest overrides active app =
     (case overrides (app_name app) of
        Some ov \<Rightarrow> Some \<lparr>rp_app = app_name app, rp_app_id = app_id app, rp_hosts = ov_hosts ov, rp_members = ov_members ov,
                      rp_static_root = ov_static_root ov\<rparr>
      | None \<Rightarrow>
          (case find (\<lambda>d. d_application_id d = app_id app) (rev (act_deployments active)) of
             None \<Rightarrow> None
           | Some d \<Rightarrow>
               let running = (app_desired app = DesiredRunning); static = (digest (d_id d) \<noteq> [])
               in Some \<lparr>rp_app = app_name app, rp_app_id = app_id app, rp_hosts = hostnamesOf (d_spec d),
                    rp_members = (if running \<and> \<not> static
                      then map (\<lambda>r. (r, a_port (d_spec d))) (filter (\<lambda>r. r_deployment r = d_id d) (act_replicas active)) else []),
                    rp_static_root = (if running \<and> static then staticDir (app_name app) (digest (d_id d)) else [])\<rparr>))"

definition routingPlans :: "(int \<Rightarrow> string) \<Rightarrow> (string \<Rightarrow> servedBy option) \<Rightarrow> db \<Rightarrow> routingPlan list" where
  "routingPlans digest overrides s =
     (let active = ActiveDeployments [] s
      in List.map_filter (plan_of digest overrides active) (sort_key app_name (act_applications active)))"

definition plannedHostnames :: "routingPlan list \<Rightarrow> string list" where
  "plannedHostnames plans = concat (map (\<lambda>p. map snd (all_hosts (rp_hosts p))) plans)"

section \<open>Names on the services network\<close>

definition backendName :: "string \<Rightarrow> int \<Rightarrow> string" where
  "backendName app port = app @ ''_'' @ itoa port"

definition serviceNames :: "string \<Rightarrow> int \<Rightarrow> string list" where
  "serviceNames app port = (if port = 0 then [] else [app, backendName app port])"

type_synonym names = "string \<Rightarrow> string list"

text \<open>\<open>setNames\<close>: the second argument is whether Docker renames the container. No names, no entry.\<close>

definition setNames :: "string \<Rightarrow> bool \<Rightarrow> string list \<Rightarrow> names \<Rightarrow> bool \<times> names" where
  "setNames c ok want nm =
     (if nm c = want then (True, nm) else if \<not> ok then (False, nm) else (True, nm(c := want)))"

definition forgetNames :: "(string \<Rightarrow> container option) \<Rightarrow> names \<Rightarrow> names" where
  "forgetNames existing nm = (\<lambda>c. if existing c = None then [] else nm c)"

definition listContainers :: "container list \<Rightarrow> string \<Rightarrow> container option" where
  "listContainers cs = map_of (rev (map (\<lambda>c. (c_id c, c)) cs))"

text \<open>One member of a plan; a member that does not run is left as it is. The result says whether a rename failed.\<close>

definition name_member ::
    "(string \<Rightarrow> bool) \<Rightarrow> states \<Rightarrow> (string \<Rightarrow> container option) \<Rightarrow> string \<Rightarrow> routeMember \<Rightarrow> names \<Rightarrow> bool \<times> names" where
  "name_member renames sstates conts app m nm =
     (case conts (r_container (fst m)) of
        None \<Rightarrow> (True, nm)
      | Some c \<Rightarrow>
          if \<not> c_running c then (True, nm)
          else let want = (if isReady True (fst (snapshot (sstates (c_id c)))) then serviceNames app (snd m) else [])
               in setNames (c_id c) (renames (c_id c)) want nm)"

fun name_members ::
    "(string \<Rightarrow> bool) \<Rightarrow> states \<Rightarrow> (string \<Rightarrow> container option) \<Rightarrow> (string \<times> routeMember) list \<Rightarrow> names \<Rightarrow> string list \<times> names" where
  "name_members renames sstates conts [] nm = ([], nm)"
| "name_members renames sstates conts ((app, m) # ms) nm =
     (case name_member renames sstates conts app m nm of
        (ok, nm1) \<Rightarrow>
          (case name_members renames sstates conts ms nm1 of
             (bad, nm2) \<Rightarrow> ((if ok then [] else [r_container (fst m)]) @ bad, nm2)))"

definition members_of :: "routingPlan list \<Rightarrow> (string \<times> routeMember) list" where
  "members_of plans = concat (map (\<lambda>p. map (Pair (rp_app p)) (rp_members p)) plans)"

section \<open>What the proxy is told\<close>

subsection \<open>Accounts\<close>

record hashCache =
  hc_hashes :: "string \<Rightarrow> string option"
  hc_made :: nat

text \<open>The loop of \<open>accounts\<close>: the accounts with their hashes, the cache, and the keys that are in use.\<close>

fun hash_accounts ::
    "(BasicAuth \<Rightarrow> string option) \<Rightarrow> (nat \<Rightarrow> string \<Rightarrow> string option) \<Rightarrow> BasicAuth list \<Rightarrow> hashCache \<Rightarrow> string set \<Rightarrow>
     (string \<times> string \<times> string) list option \<times> hashCache \<times> string set" where
  "hash_accounts key_of bcrypt [] hc used = (Some [], hc, used)"
| "hash_accounts key_of bcrypt (a # rest) hc used =
     (case key_of a of
        None \<Rightarrow> (None, hc, used)
      | Some key \<Rightarrow>
          (case (case hc_hashes hc key of
                   Some h \<Rightarrow> (Some h, hc)
                 | None \<Rightarrow>
                     (case bcrypt (hc_made hc) (ba_password a) of
                        None \<Rightarrow> (None, hc)
                      | Some h \<Rightarrow> (Some h, \<lparr>hc_hashes = (hc_hashes hc)(key \<mapsto> h), hc_made = hc_made hc + 1\<rparr>))) of
             (None, hc1) \<Rightarrow> (None, hc1, used)
           | (Some h, hc1) \<Rightarrow>
               (case hash_accounts key_of bcrypt rest hc1 (insert key used) of
                  (None, hc2, used2) \<Rightarrow> (None, hc2, used2)
                | (Some out, hc2, used2) \<Rightarrow> (Some ((ba_path a, ba_username a, h) # out), hc2, used2))))"

definition keep_hashes :: "string set \<Rightarrow> hashCache \<Rightarrow> hashCache" where
  "keep_hashes used hc = hc\<lparr>hc_hashes := (\<lambda>k. if k \<in> used then hc_hashes hc k else None)\<rparr>"

subsection \<open>Routes\<close>

record taken =
  tk_taken :: "string set"
  tk_parts :: "string set"
  tk_shared :: "string set"

fun claim :: "string set \<Rightarrow> string list \<Rightarrow> string list \<times> string set" where
  "claim taken [] = ([], taken)"
| "claim taken (h # hs) =
     (if h \<in> taken then claim taken hs
      else case claim (insert h taken) hs of (free, taken') \<Rightarrow> (h # free, taken'))"

fun free :: "string \<Rightarrow> taken \<Rightarrow> string list \<Rightarrow> string list \<times> taken" where
  "free path tk [] = ([], tk)"
| "free path tk (h # hs) =
     (if h \<notin> tk_taken tk \<and> part h path \<notin> tk_parts tk
      then case free path (tk\<lparr>tk_parts := insert (part h path) (tk_parts tk), tk_shared := insert h (tk_shared tk)\<rparr>) hs of
             (out, tk') \<Rightarrow> (h # out, tk')
      else free path tk hs)"

definition readyHosts :: "(string \<Rightarrow> bool) \<Rightarrow> string list \<Rightarrow> string list" where
  "readyHosts ready hosts = filter ready hosts"

fun backends :: "(string \<Rightarrow> container option) \<Rightarrow> names \<Rightarrow> string \<Rightarrow> routeMember list \<Rightarrow> (string \<times> int) list \<Rightarrow> (string \<times> int) list" where
  "backends conts nm app [] acc = acc"
| "backends conts nm app (m # ms) acc =
     (let b = (backendName app (snd m), snd m)
      in case conts (r_container (fst m)) of
           None \<Rightarrow> backends conts nm app ms acc
         | Some c \<Rightarrow>
             if c_running c \<and> fst b \<in> set (nm (c_id c)) \<and> b \<notin> set acc then backends conts nm app ms (acc @ [b])
             else backends conts nm app ms acc)"

text \<open>What the loop over the plans carries along.\<close>

record route_state =
  rs_taken :: taken
  rs_hashes :: hashCache
  rs_used :: "string set"

record route_env =
  re_ready :: "string \<Rightarrow> bool"
  re_containers :: "string \<Rightarrow> container option"
  re_names :: names
  re_key :: "BasicAuth \<Rightarrow> string option"
  re_bcrypt :: "nat \<Rightarrow> string \<Rightarrow> string option"

definition plain_route :: "route_env \<Rightarrow> routingPlan \<Rightarrow> string list \<Rightarrow> string list \<Rightarrow> Route" where
  "plain_route re p aliases redirects =
     \<lparr>rt_domain = hn_domain (rp_hosts p), rt_aliases = aliases, rt_redirects = redirects,
      rt_backends = backends (re_containers re) (re_names re) (rp_app p) (rp_members p) [], rt_upstreams = [],
      rt_static_root = rp_static_root p, rt_fallback = hn_fallback (rp_hosts p), rt_path = hn_path (rp_hosts p),
      rt_strip = False, rt_headers = [], rt_auth = [], rt_path_redirects = []\<rparr>"

definition route_step :: "route_env \<Rightarrow> routingPlan \<Rightarrow> route_state \<Rightarrow> Route option \<times> route_state" where
  "route_step re p st =
     (let hosts = rp_hosts p
      in if hn_domain hosts = [] then (None, st)
         else case free (hn_path hosts) (rs_taken st) [hn_domain hosts] of
           (mine, tk1) \<Rightarrow>
             let st1 = st\<lparr>rs_taken := tk1\<rparr>
             in if mine = [] then (None, st1)
                else if \<not> re_ready re (hn_domain hosts) then (None, st1)
                else
                  let wanted = filter (\<lambda>h. h \<notin> tk_shared tk1) (readyHosts (re_ready re) (hn_redirects hosts))
                  in case free (hn_path hosts) tk1 (readyHosts (re_ready re) (hn_aliases hosts)) of
                       (aliases, tk2) \<Rightarrow>
                         (case claim (tk_taken tk2) wanted of
                            (redirects, taken3) \<Rightarrow>
                              let st3 = st\<lparr>rs_taken := tk2\<lparr>tk_taken := taken3\<rparr>\<rparr>; route = plain_route re p aliases redirects
                              in case hn_proxy hosts of
                                   None \<Rightarrow> (Some route, st3)
                                 | Some px \<Rightarrow>
                                     (case hash_accounts (re_key re) (re_bcrypt re) (px_auth px) (rs_hashes st3) (rs_used st3) of
                                        (None, hc, used) \<Rightarrow> (None, st3\<lparr>rs_hashes := hc, rs_used := used\<rparr>)
                                      | (Some accounts, hc, used) \<Rightarrow>
                                          (Some (route\<lparr>rt_strip := px_strip px, rt_headers := px_headers px, rt_auth := accounts,
                                             rt_path_redirects := px_redirects px\<rparr>), st3\<lparr>rs_hashes := hc, rs_used := used\<rparr>))))"

fun plan_routes :: "route_env \<Rightarrow> routingPlan list \<Rightarrow> route_state \<Rightarrow> Route list \<times> route_state" where
  "plan_routes re [] st = ([], st)"
| "plan_routes re (p # ps) st =
     (case route_step re p st of
        (r, st1) \<Rightarrow> (case plan_routes re ps st1 of (rs, st2) \<Rightarrow> (case r of None \<Rightarrow> rs | Some x \<Rightarrow> x # rs, st2)))"

definition first_taken :: "Route list \<Rightarrow> taken" where
  "first_taken extra = \<lparr>tk_taken = snd (claim {} (concat (map routeHostnames extra))), tk_parts = {}, tk_shared = {}\<rparr>"

definition routesFor :: "route_env \<Rightarrow> Route list \<Rightarrow> hashCache \<Rightarrow> routingPlan list \<Rightarrow> Route list \<times> hashCache" where
  "routesFor re extra hc plans =
     (case plan_routes re plans \<lparr>rs_taken = first_taken extra, rs_hashes = hc, rs_used = {}\<rparr> of
        (rs, st) \<Rightarrow> (extra @ rs, keep_hashes (rs_used st) (rs_hashes st)))"

text \<open>
  \<open>syncRoutes\<close>, from the lists of the tick or its own: the names are settled first, and the routes name
  what is carried then. The results: the routes, the names, the hashes, the replicas that could not be renamed.
\<close>

definition syncRoutes ::
    "(string \<Rightarrow> bool) \<Rightarrow> states \<Rightarrow> container list \<Rightarrow> route_env \<Rightarrow> Route list \<Rightarrow> hashCache \<Rightarrow> routingPlan list \<Rightarrow>
     (Route list \<times> hashCache) \<times> names \<times> string list" where
  "syncRoutes renames sstates listed re extra hc plans =
     (let conts = listContainers listed
      in case name_members renames sstates conts (members_of plans) (forgetNames conts (re_names re)) of
           (bad, nm) \<Rightarrow>
             (routesFor (re\<lparr>re_names := nm, re_containers := conts\<rparr>) extra hc plans, nm, bad))"

section \<open>Claiming\<close>

lemma claim_result:
  "claim taken hs = (out, taken') \<Longrightarrow> distinct out \<and> set out \<subseteq> set hs \<and> set out \<inter> taken = {} \<and> taken' = taken \<union> set hs"
proof (induction taken hs arbitrary: out taken' rule: claim.induct)
  case (2 taken h hs)
  show ?case
  proof (cases "h \<in> taken")
    case False
    obtain out' t where rest: "claim (insert h taken) hs = (out', t)"
      by fastforce
    from 2(2)[OF False rest] 2(3) False rest show ?thesis
      by auto
  qed (use 2(1) 2(3) in auto)
qed simp

lemma part_inj: "part h path = part g path \<longleftrightarrow> h = g"
  by (simp add: part_def)

lemma free_result:
  "free path tk hs = (out, tk') \<Longrightarrow>
     distinct out \<and> set out \<subseteq> set hs \<and> set out \<inter> tk_taken tk = {} \<and> (\<forall>h \<in> set out. part h path \<notin> tk_parts tk) \<and>
     tk' = tk\<lparr>tk_parts := tk_parts tk \<union> (\<lambda>h. part h path) ` set out, tk_shared := tk_shared tk \<union> set out\<rparr>"
proof (induction path tk hs arbitrary: out tk' rule: free.induct)
  case (2 path tk h hs)
  show ?case
  proof (cases "h \<notin> tk_taken tk \<and> part h path \<notin> tk_parts tk")
    case True
    let ?tk = "tk\<lparr>tk_parts := insert (part h path) (tk_parts tk), tk_shared := insert h (tk_shared tk)\<rparr>"
    obtain out' t where rest: "free path ?tk hs = (out', t)"
      by fastforce
    have parts: "out = h # out'" "tk' = t"
      using 2(3) True rest by simp_all
    have IH: "distinct out' \<and> set out' \<subseteq> set hs \<and> set out' \<inter> tk_taken tk = {} \<and>
        (\<forall>g \<in> set out'. part g path \<noteq> part h path \<and> part g path \<notin> tk_parts tk) \<and>
        t = tk\<lparr>tk_parts := insert (part h path) (tk_parts tk) \<union> (\<lambda>h. part h path) ` set out', tk_shared := insert h (tk_shared tk) \<union> set out'\<rparr>"
      using 2(1)[OF True rest] by simp
    have "h \<notin> set out'"
      using IH by blast
    with IH True show ?thesis
      unfolding parts by auto
  qed (use 2(2) 2(3) in auto)
qed simp

text \<open>Without a rival everything is free.\<close>

lemma claim_all: "distinct hs \<Longrightarrow> set hs \<inter> taken = {} \<Longrightarrow> claim taken hs = (hs, taken \<union> set hs)"
  by (induction hs arbitrary: taken) auto

lemma free_all:
  "distinct hs \<Longrightarrow> set hs \<inter> tk_taken tk = {} \<Longrightarrow> \<forall>h \<in> set hs. part h path \<notin> tk_parts tk \<Longrightarrow>
     free path tk hs = (hs, tk\<lparr>tk_parts := tk_parts tk \<union> (\<lambda>h. part h path) ` set hs, tk_shared := tk_shared tk \<union> set hs\<rparr>)"
proof (induction hs arbitrary: tk)
  case (Cons h hs)
  let ?tk = "tk\<lparr>tk_parts := insert (part h path) (tk_parts tk), tk_shared := insert h (tk_shared tk)\<rparr>"
  have "free path ?tk hs = (hs, ?tk\<lparr>tk_parts := tk_parts ?tk \<union> (\<lambda>h. part h path) ` set hs, tk_shared := tk_shared ?tk \<union> set hs\<rparr>)"
    using Cons.prems by (intro Cons.IH) (auto simp: part_inj)
  then show ?case
    using Cons.prems by simp
qed simp

section \<open>No hostname is served twice\<close>

definition route_hosts :: "Route \<Rightarrow> string list" where
  "route_hosts r = rt_domain r # rt_aliases r"

definition route_parts :: "Route \<Rightarrow> string list" where
  "route_parts r = map (\<lambda>h. part h (rt_path r)) (route_hosts r)"

text \<open>What a step tells of the route it made; the rest of the route does not matter here.\<close>

definition step_made :: "route_env \<Rightarrow> routingPlan \<Rightarrow> taken \<Rightarrow> taken \<Rightarrow> Route option \<Rightarrow> bool" where
  "step_made re p tk tk' made \<longleftrightarrow>
     (\<exists>hosts redirects.
        distinct hosts \<and> set hosts \<inter> tk_taken tk = {} \<and> (\<forall>h \<in> set hosts. part h (hn_path (rp_hosts p)) \<notin> tk_parts tk) \<and>
        distinct redirects \<and> set redirects \<inter> tk_taken tk = {} \<and> set redirects \<inter> tk_shared tk = {} \<and> set redirects \<inter> set hosts = {} \<and>
        tk_parts tk' = tk_parts tk \<union> (\<lambda>h. part h (hn_path (rp_hosts p))) ` set hosts \<and> tk_shared tk' = tk_shared tk \<union> set hosts \<and>
        tk_taken tk' = tk_taken tk \<union> set redirects \<and>
        (\<forall>r. made = Some r \<longrightarrow> route_hosts r = hosts \<and> rt_redirects r = redirects \<and> rt_path r = hn_path (rp_hosts p)))"

definition own_hosts_once :: "routingPlan \<Rightarrow> bool" where
  "own_hosts_once p \<longleftrightarrow> distinct (hn_domain (rp_hosts p) # hn_aliases (rp_hosts p) @ hn_redirects (rp_hosts p))"

lemma claim_exact: "claim taken hs = (out, taken') \<Longrightarrow> taken' = taken \<union> set out"
proof (induction taken hs arbitrary: out taken' rule: claim.induct)
  case (2 taken h hs)
  then show ?case
    by (cases "h \<in> taken") (auto split: prod.splits)
qed simp

lemma route_step_made:
  assumes "route_step re p st = (made, st')" "own_hosts_once p"
  shows "step_made re p (rs_taken st) (rs_taken st') made"
proof -
  let ?hosts = "rp_hosts p"
  let ?path = "hn_path ?hosts"
  show ?thesis
  proof (cases "hn_domain ?hosts = []")
    case True
    then have parts: "made = None" "st' = st"
      using assms(1) by (simp_all add: route_step_def)
    show ?thesis
      unfolding parts step_made_def by (intro exI[of _ "[]"]) simp
  next
    case False
    obtain mine tk1 where mine: "free ?path (rs_taken st) [hn_domain ?hosts] = (mine, tk1)"
      by fastforce
    note m = free_result[OF mine]
    have domain: "mine = [] \<or> mine = [hn_domain ?hosts]"
      using m by (cases mine rule: list.exhaust; cases "tl mine") auto
    show ?thesis
    proof (cases "mine = [] \<or> \<not> re_ready re (hn_domain ?hosts)")
      case True
      then have parts: "made = None" "rs_taken st' = tk1"
        using assms(1) False mine by (auto simp: route_step_def Let_def simp del: free.simps split: if_splits)
      show ?thesis
        unfolding parts step_made_def using m
        by (intro exI[of _ mine] exI[of _ "[]"]) simp
    next
      case some: False
      define wanted where "wanted = filter (\<lambda>h. h \<notin> tk_shared tk1) (readyHosts (re_ready re) (hn_redirects ?hosts))"
      obtain aliases tk2 where aliases: "free ?path tk1 (readyHosts (re_ready re) (hn_aliases ?hosts)) = (aliases, tk2)"
        by fastforce
      obtain redirects taken3 where redirects: "claim (tk_taken tk2) wanted = (redirects, taken3)"
        by fastforce
      note a = free_result[OF aliases] and r = claim_result[OF redirects] and r' = claim_exact[OF redirects]
      have rest: "rs_taken st' = tk2\<lparr>tk_taken := taken3\<rparr>"
          "made = Some x \<Longrightarrow> rt_domain x = hn_domain ?hosts \<and> rt_aliases x = aliases \<and> rt_redirects x = redirects \<and> rt_path x = ?path" for x
        using assms(1) False some mine aliases redirects
        by (auto simp: route_step_def wanted_def[symmetric] plain_route_def Let_def simp del: free.simps split: option.splits prod.splits)
      have mine: "mine = [hn_domain ?hosts]"
        using domain some by blast
      have own: "set aliases \<inter> set redirects = {}" "hn_domain ?hosts \<notin> set aliases"
        using assms(2) a r unfolding own_hosts_once_def wanted_def readyHosts_def by auto
      have shared: "set redirects \<inter> tk_shared tk1 = {}"
        using r by (auto simp: wanted_def)
      show ?thesis
        unfolding step_made_def
      proof (rule exI[of _ "hn_domain ?hosts # aliases"], rule exI[of _ redirects], intro conjI)
        show "distinct (hn_domain ?hosts # aliases)" "distinct redirects"
          using a r own by simp_all
        show "set (hn_domain ?hosts # aliases) \<inter> tk_taken (rs_taken st) = {}" "set redirects \<inter> tk_taken (rs_taken st) = {}"
          using a r m mine by auto
        show "\<forall>h \<in> set (hn_domain ?hosts # aliases). part h ?path \<notin> tk_parts (rs_taken st)"
          using a m mine by simp
        show "set redirects \<inter> tk_shared (rs_taken st) = {}" "set redirects \<inter> set (hn_domain ?hosts # aliases) = {}"
          using shared m mine own by auto
        show "tk_parts (rs_taken st') = tk_parts (rs_taken st) \<union> (\<lambda>h. part h ?path) ` set (hn_domain ?hosts # aliases)"
            "tk_shared (rs_taken st') = tk_shared (rs_taken st) \<union> set (hn_domain ?hosts # aliases)"
            "tk_taken (rs_taken st') = tk_taken (rs_taken st) \<union> set redirects"
          using a m mine r' by (auto simp: rest(1))
        show "\<forall>x. made = Some x \<longrightarrow> route_hosts x = hn_domain ?hosts # aliases \<and> rt_redirects x = redirects \<and> rt_path x = ?path"
          using rest(2) by (simp add: route_hosts_def)
      qed
    qed
  qed
qed

text \<open>The routes so far and what is left to claim.\<close>

definition apart :: "Route list \<Rightarrow> taken \<Rightarrow> bool" where
  "apart rs tk \<longleftrightarrow>
     distinct (concat (map route_parts rs)) \<and> distinct (concat (map rt_redirects rs)) \<and>
     (\<forall>r \<in> set rs. set (route_parts r) \<inter> tk_parts tk = {} \<and> set (route_hosts r) \<inter> tk_taken tk = {}) \<and>
     (\<forall>r \<in> set rs. set (rt_redirects r) \<inter> (tk_taken tk \<union> tk_shared tk) = {}) \<and>
     (\<forall>r \<in> set rs. \<forall>x \<in> set rs. set (route_hosts r) \<inter> set (rt_redirects x) = {})"

lemma plan_routes_apart:
  assumes "plan_routes re ps st = (rs, st')" "\<forall>p \<in> set ps. own_hosts_once p" "tk_taken (rs_taken st) \<inter> tk_shared (rs_taken st) = {}"
  shows "apart rs (rs_taken st)"
  using assms
proof (induction ps arbitrary: st st' rs)
  case (Cons p ps)
  obtain made st1 where step: "route_step re p st = (made, st1)"
    by fastforce
  obtain rs1 st2 where rest: "plan_routes re ps st1 = (rs1, st2)"
    by fastforce
  have rs: "rs = (case made of None \<Rightarrow> rs1 | Some x \<Rightarrow> x # rs1)"
    using Cons.prems(1) step rest by simp
  from route_step_made[OF step] Cons.prems(2) obtain hosts redirects where
    hosts: "distinct hosts" "set hosts \<inter> tk_taken (rs_taken st) = {}" "\<forall>h \<in> set hosts. part h (hn_path (rp_hosts p)) \<notin> tk_parts (rs_taken st)"
    and redirects: "distinct redirects" "set redirects \<inter> tk_taken (rs_taken st) = {}" "set redirects \<inter> tk_shared (rs_taken st) = {}"
      "set redirects \<inter> set hosts = {}"
    and after: "tk_parts (rs_taken st1) = tk_parts (rs_taken st) \<union> (\<lambda>h. part h (hn_path (rp_hosts p))) ` set hosts"
      "tk_shared (rs_taken st1) = tk_shared (rs_taken st) \<union> set hosts" "tk_taken (rs_taken st1) = tk_taken (rs_taken st) \<union> set redirects"
    and route: "\<forall>r. made = Some r \<longrightarrow> route_hosts r = hosts \<and> rt_redirects r = redirects \<and> rt_path r = hn_path (rp_hosts p)"
    unfolding step_made_def by auto
  have "tk_taken (rs_taken st1) \<inter> tk_shared (rs_taken st1) = {}"
    using Cons.prems(3) hosts(2) redirects(3,4) unfolding after by blast
  then have IH: "apart rs1 (rs_taken st1)"
    using Cons.IH[OF rest] Cons.prems(2) by simp
  have weaker: "apart rs1 (rs_taken st)"
    using IH unfolding apart_def after by blast
  show ?case
  proof (cases made)
    case None
    then show ?thesis
      using weaker rs by simp
  next
    case (Some x)
    then have x: "route_hosts x = hosts" "rt_redirects x = redirects" "rt_path x = hn_path (rp_hosts p)"
      using route by simp_all
    have parts: "set (route_parts x) = (\<lambda>h. part h (hn_path (rp_hosts p))) ` set hosts" "distinct (route_parts x)"
      using hosts(1) x by (simp_all add: route_parts_def distinct_map inj_on_def part_inj)
    have new: "set (route_parts r) \<inter> set (route_parts x) = {}" "set (route_hosts r) \<inter> set redirects = {}"
        "set (rt_redirects r) \<inter> set redirects = {}" "set (rt_redirects r) \<inter> set hosts = {}" if "r \<in> set rs1" for r
      using IH that unfolding apart_def after parts(1) by blast+
    have "apart (x # rs1) (rs_taken st)"
      unfolding apart_def
    proof (intro conjI)
      show "distinct (concat (map route_parts (x # rs1)))" "distinct (concat (map rt_redirects (x # rs1)))"
        using weaker parts(2) redirects(1) new(1,3) unfolding apart_def x(2)[symmetric]
        by (simp_all add: Int_UN_distrib Int_commute)
      show "\<forall>r \<in> set (x # rs1). set (route_parts r) \<inter> tk_parts (rs_taken st) = {} \<and> set (route_hosts r) \<inter> tk_taken (rs_taken st) = {}"
        using weaker hosts(2,3) x(1) parts(1) unfolding apart_def by auto
      show "\<forall>r \<in> set (x # rs1). set (rt_redirects r) \<inter> (tk_taken (rs_taken st) \<union> tk_shared (rs_taken st)) = {}"
        using weaker redirects(2,3) x(2) unfolding apart_def by auto
      show "\<forall>r \<in> set (x # rs1). \<forall>y \<in> set (x # rs1). set (route_hosts r) \<inter> set (rt_redirects y) = {}"
        using weaker new(2,4) redirects(4) unfolding apart_def x(1,2)[symmetric]
        by (simp add: Int_commute)
    qed
    then show ?thesis
      using rs Some by simp
  qed
qed (simp add: apart_def)

text \<open>
  C26: among the routes of applications no hostname is served twice under the same path, none is redirected
  twice or both redirected and served, and none is a hostname of Shipwick's own routes. The hypothesis is
  what the validation of a deploy.yaml gives (\<open>hostnames_once\<close>): one application names a hostname once.
\<close>

theorem no_hostname_twice:
  assumes "\<forall>p \<in> set plans. own_hosts_once p"
  shows "\<exists>rs. fst (routesFor re extra hc plans) = extra @ rs \<and>
    distinct (concat (map route_parts rs)) \<and> distinct (concat (map rt_redirects rs)) \<and>
    set (concat (map route_hosts rs)) \<inter> set (concat (map rt_redirects rs)) = {} \<and>
    set (concat (map routeHostnames rs)) \<inter> set (concat (map routeHostnames extra)) = {}"
proof -
  let ?st = "\<lparr>rs_taken = first_taken extra, rs_hashes = hc, rs_used = {}\<rparr>"
  obtain rs st' where rs: "plan_routes re plans ?st = (rs, st')"
    by fastforce
  have taken: "tk_taken (first_taken extra) = set (concat (map routeHostnames extra))" "tk_shared (first_taken extra) = {}"
    using claim_result[of "{}" "concat (map routeHostnames extra)"]
    by (cases "claim {} (concat (map routeHostnames extra))"; simp add: first_taken_def)+
  have "apart rs (first_taken extra)"
    using plan_routes_apart[OF rs assms] taken by simp
  then have "distinct (concat (map route_parts rs))" "distinct (concat (map rt_redirects rs))"
      and one: "\<forall>r \<in> set rs. \<forall>x \<in> set rs. set (route_hosts r) \<inter> set (rt_redirects x) = {}"
      and two: "\<forall>r \<in> set rs. (set (route_hosts r) \<union> set (rt_redirects r)) \<inter> set (concat (map routeHostnames extra)) = {}"
    unfolding apart_def taken by blast+
  moreover have "set (concat (map route_hosts rs)) \<inter> set (concat (map rt_redirects rs)) = {}"
    using one unfolding set_concat set_map by blast
  moreover have "set (routeHostnames r) = set (route_hosts r) \<union> set (rt_redirects r)" for r
    by (auto simp: routeHostnames_def route_hosts_def)
  then have "set (concat (map routeHostnames rs)) \<inter> set (concat (map routeHostnames extra)) = {}"
    using two unfolding set_concat[of "map routeHostnames rs"] set_map by blast
  moreover have "fst (routesFor re extra hc plans) = extra @ rs"
    by (simp add: routesFor_def rs)
  ultimately show ?thesis
    by blast
qed


section \<open>An accepted application is routed\<close>

definition served_set :: "hostnames \<Rightarrow> string set" where
  "served_set h = (if hn_domain h = [] then {} else {hn_domain h}) \<union> set (hn_aliases h)"

lemma numbered: "map snd (map (\<lambda>(i, a). (F i, a)) (enumerate n xs)) = xs"
  by (simp add: comp_def split_beta)

lemma served_eq:
  "served h = (if hn_domain h \<noteq> [] then [(FDomain, hn_domain h)] else []) @ map (\<lambda>(i, a). (FAlias i, a)) (enumerate 0 (hn_aliases h))"
  by (simp add: served_def all_hosts_def filter_map comp_def split_beta)

lemma served_hosts: "snd ` set (served h) = served_set h"
proof -
  have "snd ` set (served h) = set (map snd (served h))"
    by simp
  also have "\<dots> = served_set h"
    unfolding served_eq map_append numbered by (simp add: served_set_def)
  finally show ?thesis .
qed

definition covers :: "claims \<Rightarrow> claims \<Rightarrow> bool" where
  "covers cl cl' \<longleftrightarrow> (\<forall>x. (cl_whole cl x \<noteq> [] \<longrightarrow> cl_whole cl' x \<noteq> []) \<and> (cl_parts cl x \<noteq> [] \<longrightarrow> cl_parts cl' x \<noteq> []) \<and>
     (cl_shared cl x \<noteq> [] \<longrightarrow> cl_shared cl' x \<noteq> []))"

definition has_claims :: "hostnames \<Rightarrow> claims \<Rightarrow> bool" where
  "has_claims h cl \<longleftrightarrow>
     (\<forall>x \<in> served_set h. cl_parts cl (part x (hn_path h)) \<noteq> [] \<and> cl_shared cl x \<noteq> []) \<and> (\<forall>x \<in> set (hn_redirects h). cl_whole cl x \<noteq> [])"

lemma covers_refl: "covers cl cl"
  by (simp add: covers_def)

lemma covers_trans: "covers a b \<Longrightarrow> covers b c \<Longrightarrow> covers a c"
  by (simp add: covers_def)

lemma has_claims_mono: "has_claims h cl \<Longrightarrow> covers cl cl' \<Longrightarrow> has_claims h cl'"
  unfolding has_claims_def covers_def by blast

lemma coversD:
  "covers a b \<Longrightarrow> cl_whole a x \<noteq> [] \<Longrightarrow> cl_whole b x \<noteq> []" "covers a b \<Longrightarrow> cl_parts a x \<noteq> [] \<Longrightarrow> cl_parts b x \<noteq> []"
  "covers a b \<Longrightarrow> cl_shared a x \<noteq> [] \<Longrightarrow> cl_shared b x \<noteq> []"
  by (simp_all add: covers_def)

lemma fold_whole:
  "owner \<noteq> [] \<Longrightarrow> covers cl (fold (claim_whole owner) hs cl) \<and> (\<forall>h \<in> set hs. cl_whole (fold (claim_whole owner) hs cl) h \<noteq> [])"
proof (induction hs arbitrary: cl)
  case (Cons h hs)
  have "covers cl (claim_whole owner h cl)" "cl_whole (claim_whole owner h cl) h \<noteq> []"
    using Cons.prems by (simp_all add: covers_def claim_whole_def)
  moreover note IH = Cons.IH[OF Cons.prems, of "claim_whole owner h cl"]
  ultimately show ?case
    using covers_trans[of cl _ "fold (claim_whole owner) hs (claim_whole owner h cl)"] coversD(1)[OF conjunct1[OF IH]]
    by simp
qed (simp add: covers_refl)

lemma fold_served:
  "owner \<noteq> [] \<Longrightarrow> covers cl (fold (claim_served owner path) hs cl) \<and>
    (\<forall>h \<in> set hs. cl_parts (fold (claim_served owner path) hs cl) (part h path) \<noteq> [] \<and> cl_shared (fold (claim_served owner path) hs cl) h \<noteq> [])"
proof (induction hs arbitrary: cl)
  case (Cons h hs)
  have "covers cl (claim_served owner path h cl)" "cl_parts (claim_served owner path h cl) (part h path) \<noteq> []"
      "cl_shared (claim_served owner path h cl) h \<noteq> []"
    using Cons.prems by (simp_all add: covers_def claim_served_def)
  moreover note IH = Cons.IH[OF Cons.prems, of "claim_served owner path h cl"]
  ultimately show ?case
    using covers_trans[of cl _ "fold (claim_served owner path) hs (claim_served owner path h cl)"] coversD(2,3)[OF conjunct1[OF IH]]
    by simp
qed (simp add: covers_refl)

lemma claim_hosts_claims:
  assumes "owner \<noteq> []"
  shows "covers cl (claim_hosts owner h cl)" "has_claims h (claim_hosts owner h cl)"
proof -
  let ?mid = "fold (claim_served owner (hn_path h)) (map snd (served h)) cl"
  have mid: "covers cl ?mid" "\<forall>x \<in> served_set h. cl_parts ?mid (part x (hn_path h)) \<noteq> [] \<and> cl_shared ?mid x \<noteq> []"
    using fold_served[OF assms, of cl "hn_path h" "map snd (served h)"] served_hosts[of h] by auto
  have fin: "covers ?mid (claim_hosts owner h cl)" "\<forall>x \<in> set (hn_redirects h). cl_whole (claim_hosts owner h cl) x \<noteq> []"
    using fold_whole[OF assms, of ?mid "hn_redirects h"] by (simp_all add: claim_hosts_def)
  show "covers cl (claim_hosts owner h cl)"
    using mid(1) fin(1) by (rule covers_trans)
  show "has_claims h (claim_hosts owner h cl)"
    using mid(2) fin unfolding has_claims_def covers_def by blast
qed

lemma owner_nonempty: "owner_of a \<noteq> []"
  by (simp add: owner_of_def)

lemma claims_of_covers: "claims_of name s apps cl = Inr cl' \<Longrightarrow> covers cl cl'"
proof (induction apps arbitrary: cl)
  case (Cons a rest)
  then show ?case
    using claim_hosts_claims(1)[OF owner_nonempty] covers_trans
    by (fastforce split: if_splits option.splits sum.splits)
qed (simp add: covers_refl)

lemma claims_of_claims:
  assumes "claims_of name s apps cl = Inr cl'" "a \<in> set apps" "app_name a \<noteq> name" "app_active a = Some i" "GetDeployment i s = Inr d"
  shows "has_claims (hostnamesOf (d_spec d)) cl'"
  using assms(1,2)
proof (induction apps arbitrary: cl)
  case (Cons x rest)
  show ?case
  proof (cases "x = a")
    case True
    then have "claims_of name s rest (claim_hosts (owner_of a) (hostnamesOf (d_spec d)) cl) = Inr cl'"
      using Cons.prems(1) assms(3-5) by simp
    from claims_of_covers[OF this] show ?thesis
      by (rule has_claims_mono[OF claim_hosts_claims(2)[OF owner_nonempty]])
  next
    case False
    then have "a \<in> set rest"
      using Cons.prems(2) by simp
    with Cons.IH Cons.prems(1) show ?thesis
      by (auto split: if_splits option.splits sum.splits)
  qed
qed simp

lemma no_conflict: "first_conflict mine cl cs = None \<Longrightarrow> c \<in> set cs \<Longrightarrow> conflict_at mine cl c = None"
  by (induction cs) (auto split: option.splits)

text \<open>What an accepted application does not collide with.\<close>

definition free_of :: "hostnames \<Rightarrow> hostnames \<Rightarrow> bool" where
  "free_of mine theirs \<longleftrightarrow>
     served_set mine \<inter> set (hn_redirects theirs) = {} \<and> set (hn_redirects mine) \<inter> (served_set theirs \<union> set (hn_redirects theirs)) = {} \<and>
     (\<lambda>h. part h (hn_path mine)) ` served_set mine \<inter> (\<lambda>h. part h (hn_path theirs)) ` served_set theirs = {}"

lemma free_of_claims:
  assumes "has_claims theirs cl" "\<And>h. h \<in> served_set mine \<Longrightarrow> cl_whole cl h = [] \<and> cl_parts cl (part h (hn_path mine)) = []"
    and "\<And>h. h \<in> set (hn_redirects mine) \<Longrightarrow> cl_whole cl h = [] \<and> cl_shared cl h = []"
  shows "free_of mine theirs"
proof -
  have "cl_parts cl k = []" if "k \<in> (\<lambda>h. part h (hn_path mine)) ` served_set mine" for k
    using that assms(2) by auto
  moreover have "cl_parts cl k \<noteq> []" if "k \<in> (\<lambda>h. part h (hn_path theirs)) ` served_set theirs" for k
    using that assms(1) by (auto simp: has_claims_def)
  ultimately have "(\<lambda>h. part h (hn_path mine)) ` served_set mine \<inter> (\<lambda>h. part h (hn_path theirs)) ` served_set theirs = {}"
    by blast
  moreover have "served_set mine \<inter> set (hn_redirects theirs) = {}" "set (hn_redirects mine) \<inter> (served_set theirs \<union> set (hn_redirects theirs)) = {}"
    using assms unfolding has_claims_def by blast+
  ultimately show ?thesis
    by (simp add: free_of_def)
qed

lemma served_field: "h \<in> served_set mine \<Longrightarrow> \<exists>f. (f, h) \<in> set (all_hosts mine) \<and> \<not> is_redirect f"
  unfolding served_hosts[symmetric] by (auto simp: served_def)

lemma redirect_field: "h \<in> set (hn_redirects mine) \<Longrightarrow> \<exists>f. (f, h) \<in> set (all_hosts mine) \<and> is_redirect f"
proof -
  assume "h \<in> set (hn_redirects mine)"
  then have "h \<in> set (map snd (map (\<lambda>(i, a). (FRedirect i, a)) (enumerate 0 (hn_redirects mine))))"
    unfolding numbered .
  then obtain i where "(i, h) \<in> set (enumerate 0 (hn_redirects mine))"
    by auto
  then have "(FRedirect i, h) \<in> set (all_hosts mine)"
    unfolding all_hosts_def by force
  then show ?thesis
    by (intro exI[of _ "FRedirect i"]) simp
qed

lemma checkDomain_free:
  assumes "checkDomain extra app s = Inr None"
  shows "\<And>a i d. a \<in> set (applications s) \<Longrightarrow> app_name a \<noteq> a_name app \<Longrightarrow> app_active a = Some i \<Longrightarrow> GetDeployment i s = Inr d \<Longrightarrow>
      free_of (hostnamesOf app) (hostnamesOf (d_spec d))"
    and "(served_set (hostnamesOf app) \<union> set (a_redirects app)) \<inter> set (concat (map routeHostnames extra)) = {}"
proof -
  let ?mine = "hostnamesOf app"
  have both: "(\<forall>a i d. a \<in> set (applications s) \<longrightarrow> app_name a \<noteq> a_name app \<longrightarrow> app_active a = Some i \<longrightarrow> GetDeployment i s = Inr d \<longrightarrow>
      free_of ?mine (hostnamesOf (d_spec d))) \<and>
    (served_set ?mine \<union> set (hn_redirects ?mine)) \<inter> set (concat (map routeHostnames extra)) = {}"
  proof (cases "all_hosts ?mine = []")
    case True
    have "h \<notin> served_set ?mine" "h \<notin> set (hn_redirects ?mine)" for h
      using served_field[of h ?mine] redirect_field[of h ?mine] unfolding True by auto
    then have "served_set ?mine = {}" "set (hn_redirects ?mine) = {}"
      unfolding set_eq_iff empty_iff by blast+
    then show ?thesis
      by (simp add: free_of_def)
  next
    case False
    then obtain cl where cl: "claims_of (a_name app) s (ListApplications s) no_claims = Inr cl"
        and none: "first_conflict ?mine (claim_extra extra cl) (all_hosts ?mine) = None"
      using assms by (auto simp: checkDomain_def Let_def split: sum.splits)
    let ?all = "claim_extra extra cl"
    have extra: "covers cl ?all" "\<forall>h \<in> set (concat (map routeHostnames extra)). cl_whole ?all h \<noteq> []"
      using fold_whole[of Shipwick_itself cl "concat (map routeHostnames extra)"] by (simp_all add: claim_extra_def Shipwick_itself_def)
    have mine: "cl_whole ?all h = [] \<and> cl_parts ?all (part h (hn_path ?mine)) = []" if h: "h \<in> served_set ?mine" for h
    proof -
      obtain f where "conflict_at ?mine ?all (f, h) = None" "\<not> is_redirect f"
        using served_field[OF h] no_conflict[OF none] by metis
      then show ?thesis
        by (simp add: conflict_at_def split: if_splits)
    qed
    have redirected: "cl_whole ?all h = [] \<and> cl_shared ?all h = []" if h: "h \<in> set (hn_redirects ?mine)" for h
    proof -
      obtain f where "conflict_at ?mine ?all (f, h) = None" "is_redirect f"
        using redirect_field[OF h] no_conflict[OF none] by metis
      then show ?thesis
        by (simp add: conflict_at_def split: if_splits)
    qed
    have "free_of ?mine (hostnamesOf (d_spec d))"
      if "a \<in> set (applications s)" "app_name a \<noteq> a_name app" "app_active a = Some i" "GetDeployment i s = Inr d" for a i d
    proof -
      have "a \<in> set (ListApplications s)"
        using that(1) by (simp add: ListApplications_def)
      from has_claims_mono[OF claims_of_claims[OF cl this that(2-4)] extra(1)] show ?thesis
        by (rule free_of_claims) (use mine redirected in auto)
    qed
    moreover have "(served_set ?mine \<union> set (hn_redirects ?mine)) \<inter> set (concat (map routeHostnames extra)) = {}"
      using extra(2) mine redirected by blast
    ultimately show ?thesis
      by blast
  qed
  then show "\<And>a i d. a \<in> set (applications s) \<Longrightarrow> app_name a \<noteq> a_name app \<Longrightarrow> app_active a = Some i \<Longrightarrow> GetDeployment i s = Inr d \<Longrightarrow>
      free_of (hostnamesOf app) (hostnamesOf (d_spec d))"
    and "(served_set (hostnamesOf app) \<union> set (a_redirects app)) \<inter> set (concat (map routeHostnames extra)) = {}"
    by (blast, simp add: hostnamesOf_def)
qed

text \<open>What the plans before it can have claimed.\<close>

definition bounded :: "hostnames set \<Rightarrow> taken \<Rightarrow> taken \<Rightarrow> bool" where
  "bounded H tk tk' \<longleftrightarrow>
     tk_taken tk' \<subseteq> tk_taken tk \<union> (\<Union>h \<in> H. set (hn_redirects h)) \<and> tk_shared tk' \<subseteq> tk_shared tk \<union> (\<Union>h \<in> H. served_set h) \<and>
     tk_parts tk' \<subseteq> tk_parts tk \<union> (\<Union>h \<in> H. (\<lambda>x. part x (hn_path h)) ` served_set h)"

lemma bounded_refl: "bounded H tk tk"
  by (simp add: bounded_def)

lemma grow: "B \<subseteq> A \<union> X \<Longrightarrow> C \<subseteq> B \<union> Y \<Longrightarrow> C \<subseteq> A \<union> (X \<union> Y)"
  by blast

lemma bounded_trans: "bounded {h} a b \<Longrightarrow> bounded H b c \<Longrightarrow> bounded (insert h H) a c"
  unfolding bounded_def UN_insert UN_empty Un_empty_right by (elim conjE, intro conjI; erule (1) grow)

lemma free_bounded:
  assumes "free (hn_path h) tk hs = (out, tk')" "set hs \<subseteq> served_set h"
  shows "bounded {h} tk tk'" "tk_taken tk' = tk_taken tk"
  using free_result[OF assms(1)] assms(2) by (auto simp: bounded_def)

lemma route_step_bounded:
  assumes "route_step re p st = (made, st')"
  shows "bounded {rp_hosts p} (rs_taken st) (rs_taken st')"
proof (cases "hn_domain (rp_hosts p) = []")
  case True
  then show ?thesis
    using assms by (auto simp: route_step_def bounded_refl)
next
  case False
  obtain mine tk1 where mine: "free (hn_path (rp_hosts p)) (rs_taken st) [hn_domain (rp_hosts p)] = (mine, tk1)"
    by fastforce
  note one = free_bounded[OF mine]
  have served: "set [hn_domain (rp_hosts p)] \<subseteq> served_set (rp_hosts p)"
    using False by (simp add: served_set_def)
  show ?thesis
  proof (cases "mine = [] \<or> \<not> re_ready re (hn_domain (rp_hosts p))")
    case True
    then have "rs_taken st' = tk1"
      using assms False mine by (auto simp: route_step_def Let_def simp del: free.simps split: if_splits)
    then show ?thesis
      using one(1)[OF served] by simp
  next
    case some: False
    define wanted where "wanted = filter (\<lambda>h. h \<notin> tk_shared tk1) (readyHosts (re_ready re) (hn_redirects (rp_hosts p)))"
    obtain aliases tk2 where aliases: "free (hn_path (rp_hosts p)) tk1 (readyHosts (re_ready re) (hn_aliases (rp_hosts p))) = (aliases, tk2)"
      by fastforce
    obtain redirects taken3 where redirects: "claim (tk_taken tk2) wanted = (redirects, taken3)"
      by fastforce
    have "rs_taken st' = tk2\<lparr>tk_taken := taken3\<rparr>"
      using assms False some mine aliases redirects
      by (auto simp: route_step_def wanted_def[symmetric] Let_def simp del: free.simps split: option.splits prod.splits)
    moreover have "bounded {rp_hosts p} tk1 tk2"
      by (rule free_bounded(1)[OF aliases]) (auto simp: readyHosts_def served_set_def)
    moreover have "taken3 \<subseteq> tk_taken tk2 \<union> set (hn_redirects (rp_hosts p))"
      using claim_result[OF redirects] by (auto simp: wanted_def readyHosts_def)
    ultimately show ?thesis
      using one(1)[OF served] unfolding bounded_def by (simp add: subset_iff) blast
  qed
qed

lemma plan_routes_bounded: "plan_routes re ps st = (rs, st') \<Longrightarrow> bounded (rp_hosts ` set ps) (rs_taken st) (rs_taken st')"
proof (induction ps arbitrary: st rs)
  case (Cons p ps)
  then show ?case
    by (auto split: prod.splits dest!: route_step_bounded intro: bounded_trans)
qed (simp add: bounded_refl)

lemma plan_routes_append:
  "plan_routes re (ps @ qs) st = (case plan_routes re ps st of (a, st1) \<Rightarrow> (case plan_routes re qs st1 of (b, st2) \<Rightarrow> (a @ b, st2)))"
  by (induction ps arbitrary: st) (auto split: prod.splits option.splits)

lemma hash_accounts_works:
  "\<forall>a \<in> set as. key_of a \<noteq> None \<and> (\<forall>n. bcrypt n (ba_password a) \<noteq> None) \<Longrightarrow>
     fst (hash_accounts key_of bcrypt as hc used) \<noteq> None"
proof (induction as arbitrary: hc used)
  case (Cons a as)
  then show ?case
    by (auto split: option.splits prod.splits) (metis fst_conv option.distinct(1))+
qed simp

definition own_accounts :: "Proxy option \<Rightarrow> BasicAuth set" where
  "own_accounts px = (case px of None \<Rightarrow> {} | Some q \<Rightarrow> set (px_auth q))"

lemma route_step_makes:
  assumes "distinct (hn_domain h # hn_aliases h @ hn_redirects h)" "hn_domain h \<noteq> []" "rp_hosts p = h"
    and "re_ready re (hn_domain h)" "\<forall>a \<in> own_accounts (hn_proxy h). re_key re a \<noteq> None \<and> (\<forall>n. re_bcrypt re n (ba_password a) \<noteq> None)"
    and "served_set h \<inter> tk_taken (rs_taken st) = {}"
    and "set (hn_redirects h) \<inter> (tk_taken (rs_taken st) \<union> tk_shared (rs_taken st)) = {}"
    and "(\<lambda>x. part x (hn_path h)) ` served_set h \<inter> tk_parts (rs_taken st) = {}"
  shows "\<exists>r. fst (route_step re p st) = Some r \<and> rt_domain r = hn_domain h \<and> rt_aliases r = filter (re_ready re) (hn_aliases h) \<and>
    rt_redirects r = filter (re_ready re) (hn_redirects h) \<and> rt_path r = hn_path h"
proof -
  define tk1 where "tk1 = (rs_taken st)\<lparr>tk_parts := tk_parts (rs_taken st) \<union> (\<lambda>x. part x (hn_path h)) ` {hn_domain h},
    tk_shared := tk_shared (rs_taken st) \<union> {hn_domain h}\<rparr>"
  have mine: "free (hn_path h) (rs_taken st) [hn_domain h] = ([hn_domain h], tk1)"
    using assms(2,6,8) unfolding tk1_def by (subst free_all) (auto simp: served_set_def)
  define tk2 where "tk2 = tk1\<lparr>tk_parts := tk_parts tk1 \<union> (\<lambda>x. part x (hn_path h)) ` set (filter (re_ready re) (hn_aliases h)),
    tk_shared := tk_shared tk1 \<union> set (filter (re_ready re) (hn_aliases h))\<rparr>"
  have aliases: "free (hn_path h) tk1 (filter (re_ready re) (hn_aliases h)) = (filter (re_ready re) (hn_aliases h), tk2)"
    unfolding tk2_def using assms(1,6,8) by (intro free_all) (auto simp: tk1_def served_set_def part_inj)
  have wanted: "filter (\<lambda>x. x \<notin> tk_shared tk1) (filter (re_ready re) (hn_redirects h)) = filter (re_ready re) (hn_redirects h)"
    using assms(1,7) by (intro filter_True) (auto simp: tk1_def)
  obtain taken3 where redirects: "claim (tk_taken tk2) (filter (re_ready re) (hn_redirects h)) = (filter (re_ready re) (hn_redirects h), taken3)"
    using assms(1,7) claim_all[of "filter (re_ready re) (hn_redirects h)" "tk_taken tk2"] by (auto simp: tk2_def tk1_def)
  have hash: "hash_accounts (re_key re) (re_bcrypt re) (px_auth px) hc used = (None, x) \<Longrightarrow> False" if "hn_proxy h = Some px" for px hc used x
    using hash_accounts_works[of "px_auth px" "re_key re" "re_bcrypt re" hc used] assms(5) that by (simp add: own_accounts_def)
  show ?thesis
    using assms(2-4) mine aliases redirects wanted
    by (auto simp: route_step_def Let_def readyHosts_def plain_route_def simp del: free.simps claim.simps split: option.splits prod.splits
        dest: hash[unfolded assms(3)[symmetric]])
qed

definition another_app :: "string \<Rightarrow> db \<Rightarrow> routingPlan \<Rightarrow> bool" where
  "another_app name s q \<longleftrightarrow> (\<exists>a i d. a \<in> set (applications s) \<and> app_name a \<noteq> name \<and> app_active a = Some i \<and>
     GetDeployment i s = Inr d \<and> rp_hosts q = hostnamesOf (d_spec d))"

text \<open>
  C25: what the check before a deployment lets through is routed. The plans in front of it are of other
  applications that were active in the database \<open>checkDomain\<close> read when it accepted the application (two
  first deployments that race for a hostname are not among them, and the second loses it); whatever plans
  come after it, its route serves its domain, all of its aliases and all of its redirects that are ready.
  The hypotheses: it names each hostname once (\<open>hostnames_once\<close>), its domain is ready, its passwords have at
  most 72 bytes (\<open>ValidatePassword\<close>), and of the libraries that an account's key can be made and that
  bcrypt hashes what has at most 72 bytes, as its documentation says.
\<close>

theorem accepted_is_routed:
  assumes "checkDomain extra app s = Inr None" "a_domain app \<noteq> []" "distinct (a_domain app # a_aliases app @ a_redirects app)"
    and "rp_hosts p = hostnamesOf app" "list_all (another_app (a_name app) s) before"
    and "re_ready re (a_domain app)" "\<forall>a \<in> own_accounts (a_proxy app). length (ba_password a) \<le> 72"
    and "\<forall>a. re_key re a \<noteq> None" "\<forall>n pw. length pw \<le> 72 \<longrightarrow> re_bcrypt re n pw \<noteq> None"
  shows "\<exists>r \<in> set (fst (routesFor re extra hc (before @ p # after))).
    rt_domain r = a_domain app \<and> rt_path r = a_path app \<and>
    rt_aliases r = filter (re_ready re) (a_aliases app) \<and> rt_redirects r = filter (re_ready re) (a_redirects app)"
proof -
  let ?st = "\<lparr>rs_taken = first_taken extra, rs_hashes = hc, rs_used = {}\<rparr>"
  let ?h = "hostnamesOf app"
  obtain rs st1 where first: "plan_routes re before ?st = (rs, st1)"
    by fastforce
  have taken: "tk_taken (first_taken extra) = set (concat (map routeHostnames extra))"
    using claim_result[of "{}" "concat (map routeHostnames extra)"]
    by (cases "claim {} (concat (map routeHostnames extra))") (simp add: first_taken_def)
  have bound: "bounded (rp_hosts ` set before) (first_taken extra) (rs_taken st1)"
    using plan_routes_bounded[OF first] by simp
  have free: "free_of ?h g" if "g \<in> rp_hosts ` set before" for g
    using that assms(5) checkDomain_free(1)[OF assms(1)] by (force simp: list_all_iff another_app_def)
  have extra: "served_set ?h \<inter> tk_taken (first_taken extra) = {}" "set (hn_redirects ?h) \<inter> tk_taken (first_taken extra) = {}"
    using checkDomain_free(2)[OF assms(1)] unfolding taken by (auto simp: hostnamesOf_def)
  have start: "tk_shared (first_taken extra) = {}" "tk_parts (first_taken extra) = {}"
    by (simp_all add: first_taken_def)
  have others: "served_set ?h \<inter> (\<Union>g \<in> rp_hosts ` set before. set (hn_redirects g)) = {}"
      "set (hn_redirects ?h) \<inter> (\<Union>g \<in> rp_hosts ` set before. set (hn_redirects g)) = {}"
      "set (hn_redirects ?h) \<inter> (\<Union>g \<in> rp_hosts ` set before. served_set g) = {}"
      "(\<lambda>x. part x (hn_path ?h)) ` served_set ?h \<inter> (\<Union>g \<in> rp_hosts ` set before. (\<lambda>x. part x (hn_path g)) ` served_set g) = {}"
    using free unfolding free_of_def by blast+
  have "\<exists>r. fst (route_step re p st1) = Some r \<and> rt_domain r = hn_domain ?h \<and> rt_aliases r = filter (re_ready re) (hn_aliases ?h) \<and>
    rt_redirects r = filter (re_ready re) (hn_redirects ?h) \<and> rt_path r = hn_path ?h"
  proof (rule route_step_makes[OF _ _ assms(4)])
    show "\<forall>a \<in> own_accounts (hn_proxy ?h). re_key re a \<noteq> None \<and> (\<forall>n. re_bcrypt re n (ba_password a) \<noteq> None)"
      using assms(7-9) by (simp add: hostnamesOf_def)
    show "distinct (hn_domain ?h # hn_aliases ?h @ hn_redirects ?h)" "hn_domain ?h \<noteq> []" "re_ready re (hn_domain ?h)"
      using assms(2,3,6) by (simp_all add: hostnamesOf_def)
    show "served_set ?h \<inter> tk_taken (rs_taken st1) = {}"
      using bound extra(1) others(1) unfolding bounded_def by blast
    show "set (hn_redirects ?h) \<inter> (tk_taken (rs_taken st1) \<union> tk_shared (rs_taken st1)) = {}"
      using bound extra(2) others(2,3) unfolding bounded_def start by blast
    show "(\<lambda>x. part x (hn_path ?h)) ` served_set ?h \<inter> tk_parts (rs_taken st1) = {}"
      using bound others(4) unfolding bounded_def start by blast
  qed
  then obtain r where r: "fst (route_step re p st1) = Some r" "rt_domain r = a_domain app" "rt_path r = a_path app"
      "rt_aliases r = filter (re_ready re) (a_aliases app)" "rt_redirects r = filter (re_ready re) (a_redirects app)"
    by (auto simp: hostnamesOf_def)
  have "r \<in> set (fst (routesFor re extra hc (before @ p # after)))"
    using r(1) first by (auto simp: routesFor_def plan_routes_append split: prod.splits)
  then show ?thesis
    using r by blast
qed


section \<open>Only ready replicas are named\<close>

lemma listContainers_id: "listContainers cs i = Some c \<Longrightarrow> c_id c = i"
  by (auto simp: listContainers_def dest!: map_of_SomeD)

lemma setNames_ok: "setNames c ok want nm = (True, nm') \<Longrightarrow> nm' c = want \<and> (\<forall>d. d \<noteq> c \<longrightarrow> nm' d = nm d)"
  by (auto simp: setNames_def split: if_splits)

lemma setNames_other: "setNames c ok want nm = (b, nm') \<Longrightarrow> d \<noteq> c \<Longrightarrow> nm' d = nm d"
  by (auto simp: setNames_def split: if_splits)

definition wanted_names :: "states \<Rightarrow> string \<Rightarrow> routeMember \<Rightarrow> string list" where
  "wanted_names sstates app m =
     (if isReady True (fst (snapshot (sstates (r_container (fst m))))) then serviceNames app (snd m) else [])"

lemma setNames_bad: "setNames c ok want nm = (False, nm') \<Longrightarrow> \<not> ok \<and> nm' = nm"
  by (auto simp: setNames_def split: if_splits)

lemma name_member_bad:
  assumes "name_member renames sstates (listContainers cs) app m nm = (False, nm')"
  shows "\<not> renames (r_container (fst m)) \<and> nm' = nm"
  using assms listContainers_id[of cs "r_container (fst m)"]
  by (auto simp: name_member_def Let_def split: option.splits if_splits dest: setNames_bad)

lemma name_member_ok:
  assumes "name_member renames sstates (listContainers cs) app m nm = (True, nm')"
  shows "\<forall>d. d \<noteq> r_container (fst m) \<longrightarrow> nm' d = nm d"
    and "listContainers cs (r_container (fst m)) = Some c \<Longrightarrow> c_running c \<Longrightarrow> nm' (r_container (fst m)) = wanted_names sstates app m"
  using assms listContainers_id[of cs "r_container (fst m)"]
  by (auto simp: name_member_def wanted_names_def Let_def split: option.splits if_splits dest: setNames_ok)

abbreviation member_ids :: "(string \<times> routeMember) list \<Rightarrow> string list" where
  "member_ids ms \<equiv> map (\<lambda>(app, m). r_container (fst m)) ms"

lemma name_members_ok:
  assumes "name_members renames sstates (listContainers cs) ms nm = (bad, nm')" "distinct (member_ids ms)"
  shows "(\<forall>d. d \<notin> set (member_ids ms) \<or> d \<in> set bad \<longrightarrow> nm' d = nm d) \<and> (\<forall>d \<in> set bad. d \<in> set (member_ids ms) \<and> \<not> renames d) \<and>
    (\<forall>(app, m) \<in> set ms. \<forall>c. listContainers cs (r_container (fst m)) = Some c \<and> c_running c \<and> r_container (fst m) \<notin> set bad \<longrightarrow>
       nm' (r_container (fst m)) = wanted_names sstates app m)"
  using assms
proof (induction ms arbitrary: nm bad)
  case (Cons x ms)
  obtain app m where x: "x = (app, m)"
    by (rule prod.exhaust)
  let ?d = "r_container (fst m)"
  obtain ok nm1 where one: "name_member renames sstates (listContainers cs) app m nm = (ok, nm1)"
    by fastforce
  obtain bad1 nm2 where rest: "name_members renames sstates (listContainers cs) ms nm1 = (bad1, nm2)"
    by fastforce
  have parts: "bad = (if ok then [] else [?d]) @ bad1" "nm2 = nm'"
    using Cons.prems(1) one rest unfolding x by (auto split: if_splits)
  have fresh: "?d \<notin> set (member_ids ms)" and rest_distinct: "distinct (member_ids ms)"
    using Cons.prems(2) unfolding x by simp_all
  note IH = Cons.IH[OF rest[unfolded parts(2)] rest_distinct]
  have later: "\<forall>d. d \<notin> set (member_ids ms) \<or> d \<in> set bad1 \<longrightarrow> nm' d = nm1 d" and refused: "\<forall>d \<in> set bad1. d \<in> set (member_ids ms) \<and> \<not> renames d"
      and named: "\<forall>(app, m) \<in> set ms. \<forall>c. listContainers cs (r_container (fst m)) = Some c \<and> c_running c \<and> r_container (fst m) \<notin> set bad1 \<longrightarrow>
        nm' (r_container (fst m)) = wanted_names sstates app m"
    using IH by blast+
  have first: "nm1 d = nm d" if "d \<noteq> ?d" for d
    using name_member_ok(1)[of renames sstates cs app m nm nm1] name_member_bad[of renames sstates cs app m nm nm1] one that by (cases ok) auto
  have own: "nm' ?d = nm1 ?d"
    using later fresh by blast
  have "nm' d = nm d" if "d \<notin> set (member_ids (x # ms)) \<or> d \<in> set bad" for d
  proof (cases "d = ?d")
    case True
    then have "\<not> ok"
      using that refused fresh unfolding parts(1) x by (auto split: if_splits)
    then show ?thesis
      using own name_member_bad[of renames sstates cs app m nm nm1] one True by simp
  next
    case False
    then show ?thesis
      using that later first[OF False] unfolding parts(1) x by (auto split: if_splits)
  qed
  moreover have "\<forall>d \<in> set bad. d \<in> set (member_ids (x # ms)) \<and> \<not> renames d"
    using refused name_member_bad[of renames sstates cs app m nm nm1] one unfolding parts(1) x by (cases ok) auto
  moreover have "nm' ?d = wanted_names sstates app m"
    if "listContainers cs ?d = Some c" "c_running c" "?d \<notin> set bad" for c
  proof -
    have "name_member renames sstates (listContainers cs) app m nm = (True, nm1)"
      using that(3) one unfolding parts(1) by (cases ok) auto
    from name_member_ok(2)[OF this that(1,2)] show ?thesis
      using own by simp
  qed
  moreover have "\<forall>(app, m) \<in> set ms. \<forall>c. listContainers cs (r_container (fst m)) = Some c \<and> c_running c \<and> r_container (fst m) \<notin> set bad \<longrightarrow>
      nm' (r_container (fst m)) = wanted_names sstates app m"
    using named unfolding parts(1) by fastforce
  ultimately show ?case
    unfolding x by (intro conjI) (blast, blast, simp, blast)
qed simp

lemma backends_from:
  "b \<in> set (backends conts nm app ms acc) \<Longrightarrow> b \<in> set acc \<or>
     (\<exists>m \<in> set ms. \<exists>c. conts (r_container (fst m)) = Some c \<and> c_running c \<and> fst b \<in> set (nm (c_id c)) \<and> b = (backendName app (snd m), snd m))"
proof (induction ms arbitrary: acc)
  case (Cons m ms)
  show ?case
  proof (cases "conts (r_container (fst m))")
    case None
    then show ?thesis
      using Cons.IH[of acc] Cons.prems by (auto simp: Let_def)
  next
    case (Some c)
    then show ?thesis
      using Cons.IH[of acc] Cons.IH[of "acc @ [(backendName app (snd m), snd m)]"] Cons.prems
      by (auto simp: Let_def split: if_splits)
  qed
qed simp

lemma route_step_backends:
  "route_step re p st = (Some r, st') \<Longrightarrow> rt_backends r = backends (re_containers re) (re_names re) (rp_app p) (rp_members p) []"
  by (auto simp: route_step_def plain_route_def Let_def simp del: free.simps claim.simps backends.simps
      split: if_splits prod.splits option.splits)

lemma plan_routes_backends:
  "plan_routes re ps st = (rs, st') \<Longrightarrow> r \<in> set rs \<Longrightarrow>
     \<exists>p \<in> set ps. rt_backends r = backends (re_containers re) (re_names re) (rp_app p) (rp_members p) []"
proof (induction ps arbitrary: st rs)
  case (Cons p ps)
  obtain made st1 where step: "route_step re p st = (made, st1)"
    by fastforce
  obtain rs1 st2 where rest: "plan_routes re ps st1 = (rs1, st2)"
    by fastforce
  have st2: "st2 = st'" and rs: "rs = (case made of None \<Rightarrow> rs1 | Some x \<Rightarrow> x # rs1)"
    using Cons.prems(1) step rest by simp_all
  show ?case
  proof (cases "r \<in> set rs1")
    case True
    then show ?thesis
      using Cons.IH[OF rest[unfolded st2]] by auto
  next
    case False
    then have "made = Some r"
      using Cons.prems(2) rs by (cases made) auto
    then show ?thesis
      using route_step_backends step by simp
  qed
qed simp

text \<open>
  C27: after any synchronization, with \<open>bad\<close> the replicas it could not rename: a running replica of a plan
  carries its application's names exactly if it is ready, unless it is in \<open>bad\<close>; then Docker refused the
  change, and it keeps the names it had. A route lists the name of a backend only if a running replica of its
  application carries it that is ready, or is in \<open>bad\<close>. The names are the engine's record of what it last told
  Docker, which is what \<open>namesOf\<close> reads. The hypothesis is that no container is a member twice.
\<close>

theorem names_follow_readiness:
  assumes "syncRoutes renames sstates listed re extra hc plans = ((extra @ rs, hc'), nm, bad)"
    and "distinct (member_ids (members_of plans))"
  shows "(\<forall>(app, m) \<in> set (members_of plans). \<forall>c. listContainers listed (r_container (fst m)) = Some c \<and> c_running c \<longrightarrow>
       nm (r_container (fst m)) =
         (if r_container (fst m) \<in> set bad then re_names re (r_container (fst m)) else wanted_names sstates app m)) \<and>
    (\<forall>i \<in> set bad. \<not> renames i) \<and>
    (\<forall>r \<in> set rs. \<forall>b \<in> set (rt_backends r). \<exists>(app, m) \<in> set (members_of plans). \<exists>c.
       listContainers listed (r_container (fst m)) = Some c \<and> c_running c \<and> b = (backendName app (snd m), snd m) \<and>
       fst b \<in> set (nm (r_container (fst m))) \<and>
       (isReady True (fst (snapshot (sstates (r_container (fst m))))) \<or> r_container (fst m) \<in> set bad))"
proof -
  let ?conts = "listContainers listed"
  let ?re = "re\<lparr>re_names := nm, re_containers := ?conts\<rparr>"
  have named: "name_members renames sstates ?conts (members_of plans) (forgetNames ?conts (re_names re)) = (bad, nm)"
      and routes: "routesFor ?re extra hc plans = (extra @ rs, hc')"
    using assms(1) by (auto simp: syncRoutes_def Let_def split: prod.splits)
  note settled = name_members_ok[OF named assms(2)]
  have names: "nm (r_container (fst m)) =
      (if r_container (fst m) \<in> set bad then re_names re (r_container (fst m)) else wanted_names sstates app m)"
    if "(app, m) \<in> set (members_of plans)" "?conts (r_container (fst m)) = Some c" "c_running c" for app m c
  proof (cases "r_container (fst m) \<in> set bad")
    case True
    then have "nm (r_container (fst m)) = forgetNames ?conts (re_names re) (r_container (fst m))"
      using conjunct1[OF settled] by blast
    with True that(2) show ?thesis
      by (simp add: forgetNames_def)
  qed (use conjunct2[OF conjunct2[OF settled]] that in fastforce)
  obtain rs' st' where made: "plan_routes ?re plans \<lparr>rs_taken = first_taken extra, rs_hashes = hc, rs_used = {}\<rparr> = (rs', st')"
    by fastforce
  then have "rs' = rs"
    using routes by (simp add: routesFor_def)
  have "\<exists>(app, m) \<in> set (members_of plans). \<exists>c. ?conts (r_container (fst m)) = Some c \<and> c_running c \<and>
       b = (backendName app (snd m), snd m) \<and> fst b \<in> set (nm (r_container (fst m))) \<and>
       (isReady True (fst (snapshot (sstates (r_container (fst m))))) \<or> r_container (fst m) \<in> set bad)"
    if r: "r \<in> set rs" and b: "b \<in> set (rt_backends r)" for r b
  proof -
    obtain p where p: "p \<in> set plans" "rt_backends r = backends ?conts nm (rp_app p) (rp_members p) []"
      using plan_routes_backends[OF made[unfolded \<open>rs' = rs\<close>] r] by auto
    obtain m c where m: "m \<in> set (rp_members p)" "?conts (r_container (fst m)) = Some c" "c_running c" "fst b \<in> set (nm (c_id c))"
        "b = (backendName (rp_app p) (snd m), snd m)"
      using backends_from[OF b[unfolded p(2)]] by auto
    have carried: "fst b \<in> set (nm (r_container (fst m)))"
      using m(4) listContainers_id[OF m(2)] by simp
    have member: "(rp_app p, m) \<in> set (members_of plans)"
      using p(1) m(1) by (auto simp: members_of_def)
    from names[OF this m(2,3)] have "isReady True (fst (snapshot (sstates (r_container (fst m))))) \<or> r_container (fst m) \<in> set bad"
      using carried by (auto simp: wanted_names_def split: if_splits)
    then show ?thesis
      using member m(2,3,5) carried by blast
  qed
  with names conjunct1[OF conjunct2[OF settled]] show ?thesis
    by fast
qed

section \<open>Two applications on one hostname\<close>

definition shop :: App where
  "shop = demo_spec\<lparr>a_domain := ''example.com'', a_path := ''/api''\<rparr>"

definition shop_db :: db where
  "shop_db = demo_db\<lparr>deployments := map (\<lambda>d. d\<lparr>d_spec := shop\<rparr>) (deployments demo_db)\<rparr>"

definition site :: App where
  "site = default_app\<lparr>a_name := ''site'', a_domain := ''example.com'', a_aliases := [''www.example.com''], a_redirects := [''example.net''], a_port := 80,
     a_proxy := Some \<lparr>px_strip = False, px_headers = [], px_auth = [\<lparr>ba_path = [], ba_username = ''admin'', ba_password = ''correct horse''\<rparr>], px_redirects = []\<rparr>\<rparr>"

definition plan_for :: "App \<Rightarrow> routeMember list \<Rightarrow> routingPlan" where
  "plan_for a ms = \<lparr>rp_app = a_name a, rp_app_id = 1, rp_hosts = hostnamesOf a, rp_members = ms, rp_static_root = []\<rparr>"

definition demo_re :: route_env where
  "demo_re = \<lparr>re_ready = (\<lambda>_. True), re_containers = (\<lambda>_. None), re_names = (\<lambda>_. []), re_key = (\<lambda>a. Some (ba_username a)),
     re_bcrypt = (\<lambda>_ pw. if length pw \<le> 72 then Some (''hash of '' @ pw) else None)\<rparr>"

definition no_hashes :: hashCache where
  "no_hashes = \<lparr>hc_hashes = (\<lambda>_. None), hc_made = 0\<rparr>"

definition agent_route :: Route where
  "agent_route = \<lparr>rt_domain = ''agent.example.org'', rt_aliases = [], rt_redirects = [], rt_backends = [], rt_upstreams = [''127.0.0.1:8080''],
     rt_static_root = [], rt_fallback = [], rt_path = [], rt_strip = False, rt_headers = [], rt_auth = [], rt_path_redirects = []\<rparr>"

theorem no_hostname_twice_witness:
  "\<exists>rs. fst (routesFor demo_re [agent_route] no_hashes [plan_for shop [], plan_for site []]) = [agent_route] @ rs \<and>
    distinct (concat (map route_parts rs))"
proof -
  have "\<forall>p \<in> set [plan_for shop [], plan_for site []]. own_hosts_once p"
    by (simp add: own_hosts_once_def plan_for_def hostnamesOf_def shop_def site_def demo_spec_def default_app_def)
  from no_hostname_twice[OF this] show ?thesis
    by blast
qed

theorem accepted_is_routed_witness:
  "\<exists>r. r \<in> set (fst (routesFor demo_re [agent_route] no_hashes ([plan_for shop []] @ plan_for site [] # []))) \<and>
    rt_domain r = ''example.com'' \<and> rt_path r = [] \<and> rt_aliases r = [''www.example.com''] \<and> rt_redirects r = [''example.net'']"
proof -
  have "map_sum (\<lambda>_. ()) (\<lambda>c. c = None) (checkDomain [agent_route] site shop_db) = Inr True"
    by code_simp
  then have check: "checkDomain [agent_route] site shop_db = Inr None"
    by (cases "checkDomain [agent_route] site shop_db") auto
  have api: "map (\<lambda>a. (app_id a, app_name a, app_active a)) (applications shop_db) = [(1, ''api'', Some 1)]"
    by code_simp
  then obtain a where a: "a \<in> set (applications shop_db)" "app_name a = ''api''" "app_active a = Some 1"
    by auto
  have "map_sum (\<lambda>_. ()) d_spec (GetDeployment 1 shop_db) = Inr shop"
    by code_simp
  then obtain d where d: "GetDeployment 1 shop_db = Inr d" "d_spec d = shop"
    by (cases "GetDeployment 1 shop_db") auto
  have others: "list_all (another_app (a_name site) shop_db) [plan_for shop []]"
    using a d by (auto simp: another_app_def site_def plan_for_def intro!: exI[of _ a])
  have "\<exists>r \<in> set (fst (routesFor demo_re [agent_route] no_hashes ([plan_for shop []] @ plan_for site [] # []))).
      rt_domain r = a_domain site \<and> rt_path r = a_path site \<and>
      rt_aliases r = filter (re_ready demo_re) (a_aliases site) \<and> rt_redirects r = filter (re_ready demo_re) (a_redirects site)"
    by (rule accepted_is_routed[OF check _ _ _ others])
      (simp_all add: site_def default_app_def plan_for_def demo_re_def own_accounts_def)
  then show ?thesis
    by (auto simp: site_def default_app_def demo_re_def)
qed

definition one_member :: routeMember where
  "one_member = (\<lparr>r_deployment = 1, r_index = 1, r_container = ''a'', r_restarts = 0\<rparr>, 8)"

theorem names_follow_readiness_witness:
  "fst (snd (syncRoutes (\<lambda>_. True) Map.empty
     [\<lparr>c_id = ''a'', c_deployment = 1, c_replica = 1, c_running = True, c_job = False, c_named = False\<rparr>] demo_re [] no_hashes [plan_for shop [one_member]])) ''a'' =
   [''api'', ''api_8'']"
proof -
  let ?listed = "[\<lparr>c_id = ''a'', c_deployment = 1, c_replica = 1, c_running = True, c_job = False, c_named = False\<rparr>]"
  let ?plans = "[plan_for shop [one_member]]"
  obtain routes nm bad where "syncRoutes (\<lambda>_. True) Map.empty ?listed demo_re [] no_hashes ?plans = (routes, nm, bad)"
    by (rule prod_cases3)
  moreover obtain rs hc' where "routes = (rs, hc')"
    by (rule prod.exhaust)
  ultimately have sync: "syncRoutes (\<lambda>_. True) Map.empty ?listed demo_re [] no_hashes ?plans = (([] @ rs, hc'), nm, bad)"
    by simp
  have members: "members_of ?plans = [(''api'', one_member)]"
    by (simp add: members_of_def plan_for_def shop_def demo_spec_def default_app_def)
  have "distinct (member_ids (members_of ?plans))"
    by (simp add: members)
  note settled = names_follow_readiness[OF sync this]
  have "bad = []"
    using conjunct1[OF conjunct2[OF settled]] by (cases bad) auto
  have "listContainers ?listed ''a'' = Some (hd ?listed)"
    by (simp add: listContainers_def)
  moreover have "r_container (fst one_member) = ''a''"
    by (simp add: one_member_def)
  ultimately have "nm ''a'' = wanted_names Map.empty ''api'' one_member"
    using conjunct1[OF settled] \<open>bad = []\<close> unfolding members by simp
  also have "\<dots> = [''api'', ''api_8'']"
    by code_simp
  finally show ?thesis
    unfolding sync by simp
qed

end
