(* ===== verification/Go_Encoding.thy ===== *)
theory Go_Encoding
  imports Go_Strings
begin

text \<open>
  Packages \<open>encoding/hex\<close> and \<open>encoding/base64\<close> (\<open>StdEncoding\<close>), as far as the store uses them, and that
  decoding undoes encoding.
\<close>

type_synonym bytes = string

definition byte_of :: "nat \<Rightarrow> char" where
  "byte_of n = char_of n"

lemma byte_val_less [simp]: "byte_val c < 256"
  using of_char_mod_256[where ?'a = nat, of c] by (simp add: byte_val_def mod_eq_self_iff_div_eq_0)

lemma byte_of_val [simp]: "byte_of (byte_val c) = c"
  by (simp add: byte_of_def byte_val_def)

lemma byte_val_of [simp]: "n < 256 \<Longrightarrow> byte_val (byte_of n) = n"
  by (simp add: byte_of_def byte_val_def)

section \<open>Hexadecimal\<close>

definition hex_char :: "nat \<Rightarrow> char" where
  "hex_char n = byte_of (if n < 10 then 48 + n else 87 + n)"

definition hex_val :: "char \<Rightarrow> nat option" where
  "hex_val c =
     (let b = byte_val c
      in if 48 \<le> b \<and> b \<le> 57 then Some (b - 48)
         else if 97 \<le> b \<and> b \<le> 102 then Some (b - 87)
         else if 65 \<le> b \<and> b \<le> 70 then Some (b - 55)
         else None)"

fun hex_encode :: "bytes \<Rightarrow> string" where
  "hex_encode [] = []"
| "hex_encode (c # cs) = hex_char (byte_val c div 16) # hex_char (byte_val c mod 16) # hex_encode cs"

fun hex_decode :: "string \<Rightarrow> bytes option" where
  "hex_decode [] = Some []"
| "hex_decode [c] = None"
| "hex_decode (c # d # cs) =
     (case (hex_val c, hex_val d) of
        (Some m, Some n) \<Rightarrow> map_option (\<lambda>rest. byte_of (16 * m + n) # rest) (hex_decode cs)
      | _ \<Rightarrow> None)"

lemma hex_val_char: "n < 16 \<Longrightarrow> hex_val (hex_char n) = Some n"
  by (simp add: hex_val_def hex_char_def)

lemma hex_decode_encode [simp]: "hex_decode (hex_encode s) = Some s"
proof (induction s)
  case (Cons c s)
  have "byte_val c div 16 < 16"
    using byte_val_less[of c] by linarith
  then show ?case
    using Cons by (simp add: hex_val_char)
qed simp

lemma length_hex_encode [simp]: "length (hex_encode s) = 2 * length s"
  by (induction s) simp_all

lemma hex_decode_length: "hex_decode s = Some k \<Longrightarrow> length s = 2 * length k"
  by (induction s arbitrary: k rule: hex_decode.induct) (auto split: option.splits)

lemma hex_char_visible: "n < 16 \<Longrightarrow> 33 \<le> byte_val (hex_char n) \<and> byte_val (hex_char n) \<le> 126"
  by (simp add: hex_char_def)

lemma hex_encode_visible: "c \<in> set (hex_encode s) \<Longrightarrow> 33 \<le> byte_val c \<and> byte_val c \<le> 126"
proof (induction s)
  case (Cons d s)
  have "byte_val d div 16 < 16"
    using byte_val_less[of d] by linarith
  then show ?case
    using Cons hex_char_visible[of "byte_val d div 16"] hex_char_visible[of "byte_val d mod 16"] by auto
qed simp

section \<open>Base64\<close>

definition b64_char :: "nat \<Rightarrow> char" where
  "b64_char n =
     byte_of (if n < 26 then 65 + n else if n < 52 then 71 + n else if n < 62 then n - 4 else if n = 62 then 43 else 47)"

definition b64_val :: "char \<Rightarrow> nat option" where
  "b64_val c =
     (let b = byte_val c
      in if 65 \<le> b \<and> b \<le> 90 then Some (b - 65)
         else if 97 \<le> b \<and> b \<le> 122 then Some (b - 71)
         else if 48 \<le> b \<and> b \<le> 57 then Some (b + 4)
         else if b = 43 then Some 62
         else if b = 47 then Some 63
         else None)"

fun b64_encode :: "bytes \<Rightarrow> string" where
  "b64_encode [] = []"
| "b64_encode [a] =
     (let n = 16 * byte_val a in [b64_char (n div 64), b64_char (n mod 64), CHR ''='', CHR ''=''])"
| "b64_encode [a, b] =
     (let n = 4 * (256 * byte_val a + byte_val b)
      in [b64_char (n div 4096), b64_char (n div 64 mod 64), b64_char (n mod 64), CHR ''=''])"
| "b64_encode (a # b # c # rest) =
     (let n = 65536 * byte_val a + 256 * byte_val b + byte_val c
      in b64_char (n div 262144) # b64_char (n div 4096 mod 64) # b64_char (n div 64 mod 64) # b64_char (n mod 64) #
         b64_encode rest)"

text \<open>Padding only ends the text; the bits beyond the last byte are not looked at.\<close>

fun b64_quads :: "string \<Rightarrow> bytes option" where
  "b64_quads [] = Some []"
| "b64_quads (a # b # c # d # rest) =
     (case (b64_val a, b64_val b) of
        (Some i, Some j) \<Rightarrow>
          if rest = [] \<and> c = CHR ''='' \<and> d = CHR ''='' then Some [byte_of ((64 * i + j) div 16)]
          else (case b64_val c of
              None \<Rightarrow> None
            | Some k \<Rightarrow>
                if rest = [] \<and> d = CHR ''='' then
                  (let n = (4096 * i + 64 * j + k) div 4 in Some [byte_of (n div 256), byte_of (n mod 256)])
                else (case b64_val d of
                    None \<Rightarrow> None
                  | Some l \<Rightarrow>
                      let n = 262144 * i + 4096 * j + 64 * k + l
                      in map_option (\<lambda>out. byte_of (n div 65536) # byte_of (n div 256 mod 256) # byte_of (n mod 256) # out)
                           (b64_quads rest)))
      | _ \<Rightarrow> None)"
| "b64_quads _ = None"

text \<open>The decoder skips line breaks wherever they are.\<close>

definition b64_decode :: "string \<Rightarrow> bytes option" where
  "b64_decode s = b64_quads (filter (\<lambda>c. byte_val c \<noteq> 10 \<and> byte_val c \<noteq> 13) s)"

lemma b64_val_char: "n < 64 \<Longrightarrow> b64_val (b64_char n) = Some n"
  unfolding b64_val_def b64_char_def Let_def by (simp split: if_split) linarith?

lemma b64_char_pad: "n < 64 \<Longrightarrow> b64_char n \<noteq> CHR ''=''"
  using b64_val_char[of n] by (auto simp: b64_val_def byte_val_def)

lemma b64_char_break: "n < 64 \<Longrightarrow> byte_val (b64_char n) \<noteq> 10 \<and> byte_val (b64_char n) \<noteq> 13"
  using b64_val_char[of n] by (auto simp: b64_val_def)

lemma sextets:
  fixes a b c :: nat
  assumes "a < 256" "b < 256" "c < 256" and n: "n = 65536 * a + 256 * b + c"
  shows "n div 262144 < 64" "262144 * (n div 262144) + 4096 * (n div 4096 mod 64) + 64 * (n div 64 mod 64) + n mod 64 = n"
    "n div 65536 = a" "n div 256 mod 256 = b" "n mod 256 = c"
proof -
  show a: "n div 262144 < 64" "n div 65536 = a"
    using assms by linarith+
  have m: "n = c + (256 * a + b) * 256"
    using n by simp
  show "n mod 256 = c"
    unfolding m mod_mult_self1 using assms(3) by simp
  have "n div 256 = 256 * a + b"
    unfolding m using assms(3) by simp
  then show "n div 256 mod 256 = b"
    using assms(2) by simp
  define q where "q = n div 64"
  define p where "p = q div 64"
  have "n = 64 * q + n mod 64" "q = 64 * p + q mod 64" "p = 64 * (p div 64) + p mod 64"
    unfolding p_def q_def by simp_all
  then have "262144 * (p div 64) + 4096 * (p mod 64) + 64 * (q mod 64) + n mod 64 = n"
    by linarith
  then show "262144 * (n div 262144) + 4096 * (n div 4096 mod 64) + 64 * (n div 64 mod 64) + n mod 64 = n"
    by (simp add: p_def q_def div_mult2_eq[symmetric])
qed

lemma b64_quads_encode: "b64_quads (b64_encode s) = Some s"
proof (induction s rule: b64_encode.induct)
  case (2 a)
  have "16 * byte_val a div 64 < 64"
    using byte_val_less[of a] by linarith
  moreover have "(64 * (16 * byte_val a div 64) + 16 * byte_val a mod 64) div 16 = byte_val a"
    unfolding mult_div_mod_eq by simp
  ultimately show ?case
    by (simp add: Let_def b64_val_char)
next
  case (3 a b)
  define n where "n = 4 * (256 * byte_val a + byte_val b)"
  have x: "n div 4 = byte_val b + byte_val a * 256"
    by (simp add: n_def)
  have "byte_val b + byte_val a * 256 < 65536"
    using byte_val_less[of a] byte_val_less[of b] by linarith
  then have "n div 4096 < 64"
    by (intro less_mult_imp_div_less) (simp add: n_def)
  moreover have "n div 4 div 256 = byte_val a" "n div 4 mod 256 = byte_val b"
    unfolding x by simp_all
  moreover have "4096 * (n div 4096) + 64 * (n div 64 mod 64) + n mod 64 = n"
  proof -
    define q where "q = n div 64"
    have "n = 64 * q + n mod 64"
      by (simp add: q_def)
    moreover have "q = 64 * (q div 64) + q mod 64"
      by simp
    moreover have "q div 64 = n div 4096"
      by (simp add: q_def div_mult2_eq[symmetric])
    ultimately show ?thesis
      unfolding q_def[symmetric] by linarith
  qed
  ultimately show ?case
    unfolding b64_encode.simps Let_def n_def[symmetric] by (simp add: Let_def b64_val_char b64_char_pad)
next
  case (4 a b c rest)
  define n where "n = 65536 * byte_val a + 256 * byte_val b + byte_val c"
  note six = sextets[OF byte_val_less byte_val_less byte_val_less n_def]
  show ?case
    using 4 six unfolding b64_encode.simps Let_def n_def[symmetric] by (simp add: Let_def b64_val_char b64_char_pad)
qed simp

lemma byte_val_pad: "byte_val CHR ''='' = 61"
  by (simp add: byte_val_def)

lemma b64_encode_chars: "c \<in> set (b64_encode s) \<Longrightarrow> byte_val c \<noteq> 10 \<and> byte_val c \<noteq> 13"
proof (induction s rule: b64_encode.induct)
  case (2 a)
  have "16 * byte_val a div 64 < 64"
    using byte_val_less[of a] by linarith
  then show ?case
    using 2 by (auto simp: Let_def b64_char_break byte_val_pad)
next
  case (3 a b)
  have "256 * byte_val a + byte_val b < 65536"
    using byte_val_less[of a] byte_val_less[of b] by linarith
  then have "4 * (256 * byte_val a + byte_val b) div 4096 < 64"
    by (intro less_mult_imp_div_less) simp
  then show ?case
    using 3 by (auto simp: Let_def b64_char_break byte_val_pad)
next
  case (4 a b c' rest)
  have "(65536 * byte_val a + 256 * byte_val b + byte_val c') div 262144 < 64"
    using byte_val_less[of a] byte_val_less[of b] byte_val_less[of c'] by linarith
  then show ?case
    using 4 by (auto simp: Let_def b64_char_break)
qed simp

theorem b64_decode_encode [simp]: "b64_decode (b64_encode s) = Some s"
proof -
  have "filter (\<lambda>c. byte_val c \<noteq> 10 \<and> byte_val c \<noteq> 13) (b64_encode s) = b64_encode s"
    using b64_encode_chars by (simp add: filter_id_conv)
  then show ?thesis
    by (simp add: b64_decode_def b64_quads_encode)
qed

lemma length_b64_encode: "length s \<le> length (b64_encode s)"
  by (induction s rule: b64_encode.induct) (simp_all add: Let_def)

lemma b64_quads_length: "b64_quads s = Some r \<Longrightarrow> length r \<le> length s"
  by (induction s arbitrary: r rule: b64_quads.induct)
    (fastforce simp: Let_def split: option.splits if_splits)+

lemma b64_decode_length: "b64_decode s = Some r \<Longrightarrow> length r \<le> length s"
  unfolding b64_decode_def using b64_quads_length length_filter_le le_trans by metis

lemma has_prefix_length: "has_prefix s p \<Longrightarrow> length p \<le> length s"
  by (induction s p rule: has_prefix.induct) auto

end
