(* ===== verification/Sealing.thy ===== *)
theory Sealing
  imports Go_Encoding App_Spec
begin

text \<open>
  Secrets at rest (\<^verbatim>\<open>src/agent/internal/store/crypto.go\<close>, \<^verbatim>\<open>secrets.go\<close>, \<^verbatim>\<open>registries.go\<close>,
  \<^verbatim>\<open>certificates.go\<close>, \<^verbatim>\<open>references.go\<close>, the keyring of \<^verbatim>\<open>rotation.go\<close>): how a value is sealed under the
  name of its place and opened again, what of a specification is sealed, and the tables of secrets.

  AES-GCM is a parameter \<open>c\<close>. What is relied on is \<open>gcm_ok\<close>: opening undoes sealing under the same key
  and additional data, what opens is no longer than its ciphertext, and another key or other additional data
  does not open what was sealed. The last is the authenticity that GCM has up to a negligible probability. A random
  nonce is the next of a sequence \<open>ns\<close> of strings of twelve bytes (\<open>crypto/rand\<close> does not fail in the
  Go version of the module).
\<close>

section \<open>One value\<close>

record gcm =
  g_seal :: "bytes \<Rightarrow> bytes \<Rightarrow> bytes \<Rightarrow> bytes \<Rightarrow> bytes"
  g_open :: "bytes \<Rightarrow> bytes \<Rightarrow> bytes \<Rightarrow> bytes \<Rightarrow> bytes option"

definition NonceSize :: nat where
  "NonceSize = 12"

definition gcm_ok :: "gcm \<Rightarrow> bool" where
  "gcm_ok c \<longleftrightarrow>
     (\<forall>k n p a. g_open c k n (g_seal c k n p a) a = Some p) \<and>
     (\<forall>k n ct a p. g_open c k n ct a = Some p \<longrightarrow> length p \<le> length ct) \<and>
     (\<forall>k n p a k' n' a'. k' \<noteq> k \<or> a' \<noteq> a \<longrightarrow> g_open c k' n' (g_seal c k n p a) a' = None)"

definition nonces_ok :: "(nat \<Rightarrow> bytes) \<Rightarrow> bool" where
  "nonces_ok ns \<longleftrightarrow> (\<forall>i. length (ns i) = NonceSize)"

definition encPrefix :: string where
  "encPrefix = ''enc1:''"

definition isSealed :: "string \<Rightarrow> bool" where
  "isSealed value = has_prefix value encPrefix"

text \<open>The key in use and the one before the last rotation, if this process has rotated.\<close>

record keyring =
  kr_current :: bytes
  kr_previous :: "bytes option"

definition one_key :: "bytes \<Rightarrow> keyring" where
  "one_key k = \<lparr>kr_current = k, kr_previous = None\<rparr>"

definition rotate :: "bytes \<Rightarrow> keyring \<Rightarrow> keyring" where
  "rotate k ring = \<lparr>kr_current = k, kr_previous = Some (kr_current ring)\<rparr>"

definition keyring_open :: "gcm \<Rightarrow> keyring \<Rightarrow> bytes \<Rightarrow> bytes \<Rightarrow> bytes \<Rightarrow> bytes option" where
  "keyring_open c ring nonce ct a =
     (case g_open c (kr_current ring) nonce ct a of
        Some plain \<Rightarrow> Some plain
      | None \<Rightarrow> (case kr_previous ring of None \<Rightarrow> None | Some k \<Rightarrow> g_open c k nonce ct a))"

definition seal :: "gcm \<Rightarrow> keyring \<Rightarrow> bytes \<Rightarrow> string \<Rightarrow> string \<Rightarrow> string" where
  "seal c ring nonce name value = encPrefix @ b64_encode (nonce @ g_seal c (kr_current ring) nonce value name)"

datatype seal_error = Malformed string | NotAuthentic string | Unencrypted string

definition unseal :: "gcm \<Rightarrow> keyring \<Rightarrow> string \<Rightarrow> string \<Rightarrow> seal_error + string" where
  "unseal c ring name stored =
     (case b64_decode (trim_prefix stored encPrefix) of
        None \<Rightarrow> Inl (Malformed name)
      | Some raw \<Rightarrow>
          if length raw < NonceSize then Inl (Malformed name)
          else (case keyring_open c ring (take NonceSize raw) (drop NonceSize raw) name of
              None \<Rightarrow> Inl (NotAuthentic name)
            | Some plain \<Rightarrow> Inr plain))"

section \<open>A specification\<close>

definition LogSecretOptions :: "string list" where
  "LogSecretOptions = [''splunk-token'']"

definition SecretLogOptions :: "App \<Rightarrow> string list" where
  "SecretLogOptions a =
     (case a_logging a of None \<Rightarrow> [] | Some l \<Rightarrow> filter (\<lambda>n. map_of (lg_options l) n \<noteq> None) LogSecretOptions)"

definition logOptionName :: "string \<Rightarrow> string" where
  "logOptionName opt = ''logging.options.'' @ opt"

definition passwordName :: "nat \<Rightarrow> string" where
  "passwordName i = ''proxy.basic_auth['' @ itoa (int i) @ ''].password''"

text \<open>Every value with the name it is sealed under; the second result counts the nonces that were used.\<close>

fun seal_env :: "gcm \<Rightarrow> keyring \<Rightarrow> (nat \<Rightarrow> bytes) \<Rightarrow> nat \<Rightarrow> (string \<times> string) list \<Rightarrow> (string \<times> string) list \<times> nat" where
  "seal_env c ring ns i [] = ([], i)"
| "seal_env c ring ns i ((name, v) # rest) =
     (case seal_env c ring ns (i + 1) rest of (out, j) \<Rightarrow> ((name, seal c ring (ns i) name v) # out, j))"

fun seal_auth :: "gcm \<Rightarrow> keyring \<Rightarrow> (nat \<Rightarrow> bytes) \<Rightarrow> nat \<Rightarrow> nat \<Rightarrow> BasicAuth list \<Rightarrow> BasicAuth list \<times> nat" where
  "seal_auth c ring ns i pos [] = ([], i)"
| "seal_auth c ring ns i pos (b # rest) =
     (case seal_auth c ring ns (i + 1) (pos + 1) rest of
        (out, j) \<Rightarrow> (b\<lparr>ba_password := seal c ring (ns i) (passwordName pos) (ba_password b)\<rparr> # out, j))"

text \<open>The assignment to a key of a map that has it.\<close>

fun set_option :: "string \<Rightarrow> string \<Rightarrow> (string \<times> string) list \<Rightarrow> (string \<times> string) list" where
  "set_option name v [] = []"
| "set_option name v ((n, x) # opts) = (if n = name then (n, v) # opts else (n, x) # set_option name v opts)"

definition option_value :: "(string \<times> string) list \<Rightarrow> string \<Rightarrow> string" where
  "option_value opts name = (case map_of opts name of None \<Rightarrow> [] | Some v \<Rightarrow> v)"

fun seal_options :: "gcm \<Rightarrow> keyring \<Rightarrow> (nat \<Rightarrow> bytes) \<Rightarrow> nat \<Rightarrow> string list \<Rightarrow> (string \<times> string) list \<Rightarrow> (string \<times> string) list \<times> nat" where
  "seal_options c ring ns i [] opts = (opts, i)"
| "seal_options c ring ns i (n # names) opts =
     seal_options c ring ns (i + 1) names
       (set_option n (seal c ring (ns i) (logOptionName n) (option_value opts n)) opts)"

definition sealSpec :: "gcm \<Rightarrow> keyring \<Rightarrow> (nat \<Rightarrow> bytes) \<Rightarrow> nat \<Rightarrow> App \<Rightarrow> App \<times> nat" where
  "sealSpec c ring ns i a =
     (let (env, i1) = seal_env c ring ns i (a_env a);
          (proxy, i2) = (case a_proxy a of
              None \<Rightarrow> (None, i1)
            | Some p \<Rightarrow> (case seal_auth c ring ns i1 0 (px_auth p) of (auth, j) \<Rightarrow> (Some (p\<lparr>px_auth := auth\<rparr>), j)));
          (logging, i3) = (case a_logging a of
              None \<Rightarrow> (None, i2)
            | Some l \<Rightarrow>
                (case seal_options c ring ns i2 (SecretLogOptions a) (lg_options l) of
                   (opts, j) \<Rightarrow> (Some (l\<lparr>lg_options := opts\<rparr>), j)))
      in (a\<lparr>a_env := env, a_proxy := proxy, a_logging := logging\<rparr>, i3))"

fun open_options :: "gcm \<Rightarrow> keyring \<Rightarrow> string list \<Rightarrow> (string \<times> string) list \<Rightarrow> seal_error + (string \<times> string) list" where
  "open_options c ring [] opts = Inr opts"
| "open_options c ring (n # names) opts =
     (if \<not> isSealed (option_value opts n) then open_options c ring names opts
      else case unseal c ring (logOptionName n) (option_value opts n) of
        Inl er \<Rightarrow> Inl er
      | Inr plain \<Rightarrow> open_options c ring names (set_option n plain opts))"

fun open_env :: "gcm \<Rightarrow> keyring \<Rightarrow> (string \<times> string) list \<Rightarrow> seal_error + (string \<times> string) list" where
  "open_env c ring [] = Inr []"
| "open_env c ring ((name, v) # rest) =
     (if \<not> isSealed v then Inl (Unencrypted name)
      else case unseal c ring name v of
        Inl er \<Rightarrow> Inl er
      | Inr plain \<Rightarrow> (case open_env c ring rest of Inl er \<Rightarrow> Inl er | Inr out \<Rightarrow> Inr ((name, plain) # out)))"

fun open_auth :: "gcm \<Rightarrow> keyring \<Rightarrow> nat \<Rightarrow> BasicAuth list \<Rightarrow> seal_error + BasicAuth list" where
  "open_auth c ring pos [] = Inr []"
| "open_auth c ring pos (b # rest) =
     (if \<not> isSealed (ba_password b) then Inl (Unencrypted (passwordName pos))
      else case unseal c ring (passwordName pos) (ba_password b) of
        Inl er \<Rightarrow> Inl er
      | Inr plain \<Rightarrow>
          (case open_auth c ring (pos + 1) rest of
             Inl er \<Rightarrow> Inl er
           | Inr out \<Rightarrow> Inr (b\<lparr>ba_password := plain\<rparr> # out)))"

definition openLogging :: "gcm \<Rightarrow> keyring \<Rightarrow> App \<Rightarrow> seal_error + App" where
  "openLogging c ring a =
     (case a_logging a of
        None \<Rightarrow> Inr a
      | Some l \<Rightarrow>
          (case open_options c ring (SecretLogOptions a) (lg_options l) of
             Inl er \<Rightarrow> Inl er
           | Inr opts \<Rightarrow> Inr (a\<lparr>a_logging := Some (l\<lparr>lg_options := opts\<rparr>)\<rparr>)))"

definition openSpec :: "gcm \<Rightarrow> keyring \<Rightarrow> App \<Rightarrow> seal_error + App" where
  "openSpec c ring a =
     (case openLogging c ring a of
        Inl er \<Rightarrow> Inl er
      | Inr a1 \<Rightarrow>
          (case open_env c ring (a_env a1) of
             Inl er \<Rightarrow> Inl er
           | Inr env \<Rightarrow>
               (case a_proxy a1 of
                  None \<Rightarrow> Inr (a1\<lparr>a_env := env\<rparr>)
                | Some p \<Rightarrow>
                    (case open_auth c ring 0 (px_auth p) of
                       Inl er \<Rightarrow> Inl er
                     | Inr auth \<Rightarrow> Inr (a1\<lparr>a_env := env, a_proxy := Some (p\<lparr>px_auth := auth\<rparr>)\<rparr>)))))"

section \<open>Opening undoes sealing\<close>

definition holds_key :: "keyring \<Rightarrow> bytes \<Rightarrow> bool" where
  "holds_key ring k \<longleftrightarrow> kr_current ring = k \<or> kr_previous ring = Some k"

lemma holds_own [simp]: "holds_key ring (kr_current ring)" "holds_key (rotate k ring) (kr_current ring)" "holds_key (rotate k ring) k"
  by (simp_all add: holds_key_def rotate_def)

lemma holds_one_key [simp]: "holds_key (one_key k) k' \<longleftrightarrow> k = k'" "kr_current (one_key k) = k" "kr_current (rotate k ring) = k"
  by (auto simp: holds_key_def one_key_def rotate_def)

named_theorems sealing \<open>how sealed values open\<close>

lemma isSealed_seal [sealing]: "isSealed (seal c ring n name v)"
  by (simp add: isSealed_def seal_def)

lemma keyring_open_seal:
  "gcm_ok c \<Longrightarrow> keyring_open c ring n (g_seal c k n v a) a = (if holds_key ring k then Some v else None)"
  unfolding gcm_ok_def holds_key_def keyring_open_def
  by (cases "kr_current ring = k"; cases "kr_previous ring"; simp split: option.splits)

lemma keyring_open_elsewhere: "gcm_ok c \<Longrightarrow> a' \<noteq> a \<Longrightarrow> keyring_open c ring n' (g_seal c k n v a) a' = None"
  by (simp add: gcm_ok_def keyring_open_def split: option.splits)

lemma unseal_seal [sealing]:
  assumes "gcm_ok c" "length n = NonceSize"
  shows "unseal c ring name (seal c ring' n name v) = (if holds_key ring (kr_current ring') then Inr v else Inl (NotAuthentic name))"
  using assms by (simp add: unseal_def seal_def keyring_open_seal)

lemma unseal_elsewhere:
  assumes "gcm_ok c" "length n = NonceSize" "name' \<noteq> name"
  shows "unseal c ring name' (seal c ring' n name v) = Inl (NotAuthentic name')"
  using assms by (simp add: unseal_def seal_def keyring_open_elsewhere)

lemma unseal_shorter:
  assumes "gcm_ok c" "isSealed v" "unseal c ring name v = Inr p"
  shows "length p < length v"
proof -
  obtain raw where raw: "b64_decode (trim_prefix v encPrefix) = Some raw"
    "keyring_open c ring (take NonceSize raw) (drop NonceSize raw) name = Some p"
    using assms(3) by (auto simp: unseal_def split: option.splits if_splits)
  have shorter: "g_open c k n ct a = Some p \<Longrightarrow> length p \<le> length ct" for k n ct a
    using assms(1) unfolding gcm_ok_def by blast
  have "length p \<le> length (drop NonceSize raw)"
    using raw(2) shorter[of _ "take NonceSize raw" "drop NonceSize raw" name]
    unfolding keyring_open_def by (auto split: option.splits)
  also have "\<dots> \<le> length raw"
    by simp
  also have "\<dots> \<le> length (trim_prefix v encPrefix)"
    by (rule b64_decode_length[OF raw(1)])
  also have "\<dots> < length v"
    using assms(2) has_prefix_length[of v encPrefix] by (simp add: isSealed_def trim_prefix_def encPrefix_def)
  finally show ?thesis .
qed

lemma set_option_twice [simp]: "set_option n v (set_option n w opts) = set_option n v opts"
  by (induction opts) auto

lemma map_of_set_option: "map_of (set_option n v opts) m = (if m = n \<and> map_of opts n \<noteq> None then Some v else map_of opts m)"
  by (induction opts) auto

lemma set_option_same: "map_of opts n = Some v \<Longrightarrow> set_option n v opts = opts"
  by (induction opts) auto

lemma open_env_seal [sealing]:
  assumes "gcm_ok c" "nonces_ok ns"
  shows "holds_key ring (kr_current ring') \<Longrightarrow> open_env c ring (fst (seal_env c ring' ns i env)) = Inr env"
  by (induction env arbitrary: i) (use assms in \<open>auto simp: sealing nonces_ok_def split_beta\<close>)

lemma open_auth_seal [sealing]:
  assumes "gcm_ok c" "nonces_ok ns"
  shows "holds_key ring (kr_current ring') \<Longrightarrow> open_auth c ring pos (fst (seal_auth c ring' ns i pos auth)) = Inr auth"
  by (induction auth arbitrary: i pos) (use assms in \<open>auto simp: sealing nonces_ok_def split_beta\<close>)

lemma open_options_seal:
  assumes "gcm_ok c" "nonces_ok ns" "holds_key ring (kr_current ring')" "names = [] \<or> names = [n] \<and> map_of opts n \<noteq> None"
  shows "open_options c ring names (fst (seal_options c ring' ns i names opts)) = Inr opts"
  using assms by (auto simp: sealing nonces_ok_def option_value_def map_of_set_option set_option_same)

lemma secret_options: "SecretLogOptions a = [] \<or>
  (\<exists>l. a_logging a = Some l \<and> SecretLogOptions a = [''splunk-token''] \<and> map_of (lg_options l) ''splunk-token'' \<noteq> None)"
  by (auto simp: SecretLogOptions_def LogSecretOptions_def split: option.splits)


text \<open>The parts of a specification that \<open>sealSpec\<close> and \<open>openSpec\<close> touch, one at a time.\<close>

lemma sealSpec_parts:
  "\<exists>j1 j2. fst (sealSpec c ring ns i a) =
     a\<lparr>a_env := fst (seal_env c ring ns i (a_env a)),
       a_proxy := map_option (\<lambda>p. p\<lparr>px_auth := fst (seal_auth c ring ns j1 0 (px_auth p))\<rparr>) (a_proxy a),
       a_logging := map_option (\<lambda>l. l\<lparr>lg_options := fst (seal_options c ring ns j2 (SecretLogOptions a) (lg_options l))\<rparr>) (a_logging a)\<rparr>"
  by (auto simp: sealSpec_def Let_def split_beta split: option.splits)

lemma set_option_keys: "map_of (set_option n v opts) m = None \<longleftrightarrow> map_of opts m = None"
  by (simp add: map_of_set_option)

lemma seal_options_keys: "map_of (fst (seal_options c ring ns i names opts)) m = None \<longleftrightarrow> map_of opts m = None"
  by (induction names arbitrary: i opts) (simp_all add: set_option_keys)

lemma openSpec_sealSpec:
  assumes "gcm_ok c" "nonces_ok ns" "holds_key ring (kr_current ring')"
  shows "openSpec c ring (fst (sealSpec c ring' ns i a)) = Inr a"
proof -
  obtain i1 i2 where parts: "fst (sealSpec c ring' ns i a) =
     a\<lparr>a_env := fst (seal_env c ring' ns i (a_env a)),
       a_proxy := map_option (\<lambda>p. p\<lparr>px_auth := fst (seal_auth c ring' ns i1 0 (px_auth p))\<rparr>) (a_proxy a),
       a_logging := map_option (\<lambda>l. l\<lparr>lg_options := fst (seal_options c ring' ns i2 (SecretLogOptions a) (lg_options l))\<rparr>) (a_logging a)\<rparr>"
    (is "_ = ?a'")
    using sealSpec_parts[of c ring' ns i a] by (elim exE) (rule that)
  have names: "SecretLogOptions ?a' = SecretLogOptions a"
    by (cases "a_logging a") (simp_all add: SecretLogOptions_def seal_options_keys del: not_None_eq)
  have "openLogging c ring ?a' = Inr (?a'\<lparr>a_logging := a_logging a\<rparr>)"
  proof (cases "a_logging a")
    case None
    then show ?thesis
      by (simp add: openLogging_def)
  next
    case (Some l)
    then have "SecretLogOptions a = [] \<or> SecretLogOptions a = [''splunk-token''] \<and> map_of (lg_options l) ''splunk-token'' \<noteq> None"
      using secret_options[of a] by auto
    from open_options_seal[OF assms this] show ?thesis
      unfolding openLogging_def names by (simp add: Some)
  qed
  then show ?thesis
    unfolding parts openSpec_def using assms by (auto simp: sealing split: option.splits)
qed

section \<open>A cipher that obeys the laws\<close>

text \<open>For concrete inputs: the ciphertext names its key and its additional data.\<close>

definition marked :: "string \<Rightarrow> string" where
  "marked s = replicate (length s) (CHR ''1'') @ CHR ''0'' # s"

definition demo_gcm :: gcm where
  "demo_gcm = \<lparr>g_seal = (\<lambda>k n p a. marked k @ marked a @ p),
     g_open = (\<lambda>k n ct a. if has_prefix ct (marked k @ marked a) then Some (drop (length (marked k @ marked a)) ct) else None)\<rparr>"

lemma has_prefix_take: "has_prefix s p \<longleftrightarrow> (\<exists>t. s = p @ t)"
  by (induction s p rule: has_prefix.induct) auto

lemma unary_inject: "replicate m (CHR ''1'') @ CHR ''0'' # x = replicate n (CHR ''1'') @ CHR ''0'' # y \<longleftrightarrow> m = n \<and> x = y"
proof (induction m arbitrary: n)
  case 0
  then show ?case by (cases n) auto
next
  case (Suc m)
  then show ?case by (cases n) auto
qed

lemma marked_inject: "marked s @ x = marked t @ y \<longleftrightarrow> s = t \<and> x = y"
  by (auto simp: marked_def unary_inject)

lemma demo_gcm_ok: "gcm_ok demo_gcm"
  unfolding gcm_ok_def demo_gcm_def by (auto simp: has_prefix_take marked_inject)

definition demo_nonces :: "nat \<Rightarrow> bytes" where
  "demo_nonces i = replicate 12 (CHR ''n'')"

lemma demo_nonces_ok: "nonces_ok demo_nonces"
  by (simp add: nonces_ok_def demo_nonces_def NonceSize_def)

end
