(* ===== verification/Secret_Tables.thy ===== *)
theory Secret_Tables
  imports Sealing
begin

text \<open>
  The tables whose values are sealed (\<^verbatim>\<open>src/agent/internal/store/secrets.go\<close>, \<^verbatim>\<open>registries.go\<close>,
  \<^verbatim>\<open>certificates.go\<close>, \<^verbatim>\<open>references.go\<close>): setting, reading and deleting, with the bounds on their
  sizes, and which secret an application sees. \<open>aead\<close> is None for a database in memory without a key.
  The JSON text of a deployment's references is kept as it is.
\<close>

section \<open>Tables\<close>

record secret_row =
  sr_application :: string
  sr_name :: string
  sr_label :: string
  sr_value :: string
  sr_created :: go_time
  sr_updated :: go_time

record registry_row =
  rg_registry :: string
  rg_username :: string
  rg_password :: string
  rg_created :: go_time
  rg_updated :: go_time

record certificate_row =
  ce_hostname :: string
  ce_certificate :: string
  ce_key :: string
  ce_created :: go_time
  ce_updated :: go_time

record sealed_db =
  sd_secrets :: "secret_row list"
  sd_registries :: "registry_row list"
  sd_certificates :: "certificate_row list"
  sd_references :: "(string \<times> string) list"
  sd_specs :: "(int \<times> App) list"

datatype table_error = TooMany | NoSuchRow | SealProblem seal_error

definition MaxSecrets :: nat where "MaxSecrets = 500"
definition MaxRegistries :: nat where "MaxRegistries = 50"
definition MaxCertificates :: nat where "MaxCertificates = 50"

text \<open>\<open>INSERT ... ON CONFLICT DO UPDATE\<close>, and the count of the other rows before it.\<close>

definition upsert :: "('r \<Rightarrow> bool) \<Rightarrow> 'r \<Rightarrow> ('r \<Rightarrow> 'r) \<Rightarrow> 'r list \<Rightarrow> 'r list" where
  "upsert hit new upd rows = (if list_ex hit rows then map (\<lambda>r. if hit r then upd r else r) rows else rows @ [new])"

definition bounded_upsert :: "nat \<Rightarrow> ('r \<Rightarrow> bool) \<Rightarrow> 'r \<Rightarrow> ('r \<Rightarrow> 'r) \<Rightarrow> 'r list \<Rightarrow> table_error + 'r list" where
  "bounded_upsert limit hit new upd rows =
     (if limit \<le> length (filter (\<lambda>r. \<not> hit r) rows) then Inl TooMany else Inr (upsert hit new upd rows))"

definition delete_rows :: "('r \<Rightarrow> bool) \<Rightarrow> 'r list \<Rightarrow> table_error + 'r list" where
  "delete_rows hit rows = (if list_ex hit rows then Inr (filter (\<lambda>r. \<not> hit r) rows) else Inl NoSuchRow)"

definition stored_form :: "gcm \<Rightarrow> keyring option \<Rightarrow> bytes \<Rightarrow> string \<Rightarrow> string \<Rightarrow> string" where
  "stored_form c aead n name value = (case aead of None \<Rightarrow> value | Some ring \<Rightarrow> seal c ring n name value)"

definition plain_form :: "gcm \<Rightarrow> keyring option \<Rightarrow> string \<Rightarrow> string \<Rightarrow> table_error + string" where
  "plain_form c aead name stored =
     (case aead of
        None \<Rightarrow> Inr stored
      | Some ring \<Rightarrow>
          if \<not> isSealed stored then Inl (SealProblem (Unencrypted name))
          else (case unseal c ring name stored of Inl er \<Rightarrow> Inl (SealProblem er) | Inr plain \<Rightarrow> Inr plain))"

section \<open>Secrets\<close>

definition secretLabel :: "string \<Rightarrow> string \<Rightarrow> string" where
  "secretLabel application name =
     (if application = [] then name else ''applications/'' @ application @ ''/secrets/'' @ name)"

definition is_secret :: "string \<Rightarrow> string \<Rightarrow> secret_row \<Rightarrow> bool" where
  "is_secret application name r \<longleftrightarrow> sr_application r = application \<and> sr_name r = name"

definition SetSecret :: "gcm \<Rightarrow> keyring option \<Rightarrow> bytes \<Rightarrow> string \<Rightarrow> string \<Rightarrow> string \<Rightarrow> go_time \<Rightarrow> sealed_db \<Rightarrow> table_error + sealed_db" where
  "SetSecret c aead n application name value now s =
     (let label = secretLabel application name; stored = stored_form c aead n label value
      in case bounded_upsert MaxSecrets (is_secret application name)
           \<lparr>sr_application = application, sr_name = name, sr_label = label, sr_value = stored, sr_created = now, sr_updated = now\<rparr>
           (\<lambda>r. r\<lparr>sr_value := stored, sr_updated := now\<rparr>) (sd_secrets s) of
         Inl er \<Rightarrow> Inl er
       | Inr rows \<Rightarrow> Inr (s\<lparr>sd_secrets := rows\<rparr>))"

definition DeleteSecret :: "string \<Rightarrow> string \<Rightarrow> sealed_db \<Rightarrow> table_error + sealed_db" where
  "DeleteSecret application name s =
     (case delete_rows (is_secret application name) (sd_secrets s) of
        Inl er \<Rightarrow> Inl er | Inr rows \<Rightarrow> Inr (s\<lparr>sd_secrets := rows\<rparr>))"

text \<open>\<open>ORDER BY application DESC LIMIT 1\<close>: the first of the rows with the greatest application.\<close>

fun latest :: "secret_row option \<Rightarrow> secret_row list \<Rightarrow> secret_row option" where
  "latest best [] = best"
| "latest best (r # rs) =
     latest (case best of
         None \<Rightarrow> Some r
       | Some b \<Rightarrow> if string_compare (sr_application b) (sr_application r) < 0 then Some r else Some b) rs"

definition resolve_secret :: "gcm \<Rightarrow> keyring option \<Rightarrow> string \<Rightarrow> string \<Rightarrow> sealed_db \<Rightarrow> table_error + (string \<times> string) option" where
  "resolve_secret c aead application name s =
     (case latest None (filter (\<lambda>r. sr_name r = name \<and> sr_application r \<in> {application, []}) (sd_secrets s)) of
        None \<Rightarrow> Inr None
      | Some r \<Rightarrow>
          (case plain_form c aead (secretLabel (sr_application r) name) (sr_value r) of
             Inl er \<Rightarrow> Inl er | Inr v \<Rightarrow> Inr (Some (v, sr_application r))))"

text \<open>The value and the owner of each name that has one.\<close>

fun GetSecrets :: "gcm \<Rightarrow> keyring option \<Rightarrow> string \<Rightarrow> string list \<Rightarrow> sealed_db \<Rightarrow> table_error + (string \<times> string \<times> string) list" where
  "GetSecrets c aead application [] s = Inr []"
| "GetSecrets c aead application (name # names) s =
     (case resolve_secret c aead application name s of
        Inl er \<Rightarrow> Inl er
      | Inr hit \<Rightarrow>
          (case GetSecrets c aead application names s of
             Inl er \<Rightarrow> Inl er
           | Inr out \<Rightarrow> Inr ((case hit of None \<Rightarrow> [] | Some (v, owner) \<Rightarrow> [(name, v, owner)]) @ out)))"

section \<open>Registries, certificates, references\<close>

definition registryPasswordName :: "string \<Rightarrow> string" where
  "registryPasswordName registry = ''registry:'' @ registry"

definition SetRegistry :: "gcm \<Rightarrow> keyring option \<Rightarrow> bytes \<Rightarrow> string \<Rightarrow> string \<Rightarrow> string \<Rightarrow> go_time \<Rightarrow> sealed_db \<Rightarrow> table_error + sealed_db" where
  "SetRegistry c aead n registry username password now s =
     (let stored = stored_form c aead n (registryPasswordName registry) password
      in case bounded_upsert MaxRegistries (\<lambda>r. rg_registry r = registry)
           \<lparr>rg_registry = registry, rg_username = username, rg_password = stored, rg_created = now, rg_updated = now\<rparr>
           (\<lambda>r. r\<lparr>rg_username := username, rg_password := stored, rg_updated := now\<rparr>) (sd_registries s) of
         Inl er \<Rightarrow> Inl er
       | Inr rows \<Rightarrow> Inr (s\<lparr>sd_registries := rows\<rparr>))"

definition DeleteRegistry :: "string \<Rightarrow> sealed_db \<Rightarrow> table_error + sealed_db" where
  "DeleteRegistry registry s =
     (case delete_rows (\<lambda>r. rg_registry r = registry) (sd_registries s) of
        Inl er \<Rightarrow> Inl er | Inr rows \<Rightarrow> Inr (s\<lparr>sd_registries := rows\<rparr>))"

definition RegistryCredential :: "gcm \<Rightarrow> keyring option \<Rightarrow> string \<Rightarrow> sealed_db \<Rightarrow> table_error + (string \<times> string) option" where
  "RegistryCredential c aead registry s =
     (case find (\<lambda>r. rg_registry r = registry) (sd_registries s) of
        None \<Rightarrow> Inr None
      | Some r \<Rightarrow>
          (case plain_form c aead (registryPasswordName registry) (rg_password r) of
             Inl er \<Rightarrow> Inl er | Inr v \<Rightarrow> Inr (Some (rg_username r, v))))"

definition keyLabel :: "string \<Rightarrow> string" where
  "keyLabel hostname = ''certificate:'' @ hostname"

definition SetCertificate :: "gcm \<Rightarrow> keyring option \<Rightarrow> bytes \<Rightarrow> string \<Rightarrow> string \<Rightarrow> string \<Rightarrow> go_time \<Rightarrow> sealed_db \<Rightarrow> table_error + sealed_db" where
  "SetCertificate c aead n hostname certPEM keyPEM now s =
     (let stored = stored_form c aead n (keyLabel hostname) keyPEM
      in case bounded_upsert MaxCertificates (\<lambda>r. ce_hostname r = hostname)
           \<lparr>ce_hostname = hostname, ce_certificate = certPEM, ce_key = stored, ce_created = now, ce_updated = now\<rparr>
           (\<lambda>r. r\<lparr>ce_certificate := certPEM, ce_key := stored, ce_updated := now\<rparr>) (sd_certificates s) of
         Inl er \<Rightarrow> Inl er
       | Inr rows \<Rightarrow> Inr (s\<lparr>sd_certificates := rows\<rparr>))"

definition DeleteCertificate :: "string \<Rightarrow> sealed_db \<Rightarrow> table_error + sealed_db" where
  "DeleteCertificate hostname s =
     (case delete_rows (\<lambda>r. ce_hostname r = hostname) (sd_certificates s) of
        Inl er \<Rightarrow> Inl er | Inr rows \<Rightarrow> Inr (s\<lparr>sd_certificates := rows\<rparr>))"

definition referencesName :: "string \<Rightarrow> string" where
  "referencesName deploymentID = ''deployments/'' @ deploymentID @ ''/references''"

text \<open>An empty set of references has no row.\<close>

definition insertReferences :: "gcm \<Rightarrow> keyring option \<Rightarrow> bytes \<Rightarrow> int \<Rightarrow> string option \<Rightarrow> sealed_db \<Rightarrow> sealed_db" where
  "insertReferences c aead n i refs s =
     (case refs of
        None \<Rightarrow> s
      | Some text \<Rightarrow> s\<lparr>sd_references := sd_references s @ [(itoa i, stored_form c aead n (referencesName (itoa i)) text)]\<rparr>)"

definition DeploymentReferences :: "gcm \<Rightarrow> keyring option \<Rightarrow> int \<Rightarrow> sealed_db \<Rightarrow> table_error + string option" where
  "DeploymentReferences c aead i s =
     (case find (\<lambda>(k, _). k = itoa i) (sd_references s) of
        None \<Rightarrow> Inr None
      | Some (_, stored) \<Rightarrow>
          (case aead of
             None \<Rightarrow> Inr (Some stored)
           | Some ring \<Rightarrow>
               (case unseal c ring (referencesName (itoa i)) stored of
                  Inl er \<Rightarrow> Inl (SealProblem er) | Inr plain \<Rightarrow> Inr (Some plain))))"

section \<open>Which secret answers\<close>

lemma plain_stored:
  assumes "gcm_ok c" "length n = NonceSize"
  shows "plain_form c aead name (stored_form c aead n name v) = Inr v"
  using assms by (simp add: plain_form_def stored_form_def sealing split: option.splits)

lemma compare_empty: "string_compare [] s < 0 \<longleftrightarrow> s \<noteq> []" "\<not> string_compare s [] < 0"
  by (cases s; simp)+

lemma latest_own:
  assumes "\<forall>r \<in> set rs. sr_application r \<in> {app, []}" "\<forall>b. best = Some b \<longrightarrow> sr_application b \<in> {app, []}"
  shows "latest best rs =
    (case best of
       Some b \<Rightarrow> (if sr_application b = app then Some b
                  else case find (\<lambda>r. sr_application r = app) rs of Some r \<Rightarrow> Some r | None \<Rightarrow> Some b)
     | None \<Rightarrow> (case find (\<lambda>r. sr_application r = app) rs of Some r \<Rightarrow> Some r | None \<Rightarrow> find (\<lambda>r. sr_application r = []) rs))"
  using assms
proof (induction rs arbitrary: best)
  case (Cons r rs)
  have r: "sr_application r = app \<or> sr_application r = []"
    using Cons.prems(1) by auto
  show ?case
  proof (cases best)
    case None
    then show ?thesis
      using r Cons.prems Cons.IH[of "Some r"] by (auto split: option.splits)
  next
    case (Some b)
    then have "sr_application b = app \<or> sr_application b = []"
      using Cons.prems(2) by auto
    then show ?thesis
      using Some r Cons.prems Cons.IH[of "Some b"] Cons.IH[of "Some r"] by (auto simp: compare_empty split: option.splits)
  qed
qed (simp split: option.splits)

lemma resolve_nearest:
  "resolve_secret c aead app name s =
     (case (case find (is_secret app name) (sd_secrets s) of Some r \<Rightarrow> Some r | None \<Rightarrow> find (is_secret [] name) (sd_secrets s)) of
        None \<Rightarrow> Inr None
      | Some r \<Rightarrow>
          (case plain_form c aead (secretLabel (sr_application r) name) (sr_value r) of
             Inl er \<Rightarrow> Inl er | Inr v \<Rightarrow> Inr (Some (v, sr_application r))))"
proof -
  let ?P = "\<lambda>r. sr_name r = name \<and> sr_application r \<in> {app, []}"
  have own: "(\<lambda>r. ?P r \<and> sr_application r = app) = is_secret app name"
    and server: "(\<lambda>r. ?P r \<and> sr_application r = []) = is_secret [] name"
    by (auto simp: is_secret_def fun_eq_iff)
  have "latest None (filter ?P (sd_secrets s)) =
    (case find (is_secret app name) (sd_secrets s) of Some r \<Rightarrow> Some r | None \<Rightarrow> find (is_secret [] name) (sd_secrets s))"
    using latest_own[of "filter ?P (sd_secrets s)" app None] unfolding find_filter own server by (simp split: option.splits)
  then show ?thesis
    by (simp only: resolve_secret_def)
qed

lemma find_upsert_hit:
  assumes "hit new" "\<And>r. hit r \<Longrightarrow> hit (upd r)"
  shows "\<exists>r. find hit (upsert hit new upd rows) = Some r \<and> (r = new \<or> (\<exists>x \<in> set rows. hit x \<and> r = upd x))"
proof (cases "list_ex hit rows")
  case True
  have "find hit (map (\<lambda>r. if hit r then upd r else r) rows) = map_option upd (find hit rows)"
    using assms(2) by (induction rows) auto
  moreover obtain x where "find hit rows = Some x" "x \<in> set rows" "hit x"
    using True by (cases "find hit rows") (auto simp: find_None_iff list_ex_iff dest: find_SomeD split: if_splits)
  ultimately show ?thesis
    using True by (auto simp: upsert_def)
next
  case False
  then have "find hit rows = None"
    by (auto simp: find_None_iff list_ex_iff)
  then have "find hit (rows @ [new]) = Some new"
    using assms(1) by (induction rows) (auto split: if_splits)
  then show ?thesis
    using False by (auto simp: upsert_def)
qed

lemma find_upsert_miss:
  assumes "\<not> P new" "\<And>r. hit r \<Longrightarrow> \<not> P r \<and> \<not> P (upd r)"
  shows "find P (upsert hit new upd rows) = find P rows"
proof -
  have "find P (map (\<lambda>r. if hit r then upd r else r) rows) = find P rows"
    using assms(2) by (induction rows) auto
  moreover have "find P (rows @ [new]) = find P rows"
    using assms(1) by (induction rows) auto
  ultimately show ?thesis
    by (simp add: upsert_def)
qed

text \<open>The row an application's name resolves to, before and after \<open>SetSecret\<close>.\<close>

lemma SetSecret_rows:
  assumes "SetSecret c aead n application name v now s = Inr s'"
  defines "stored \<equiv> stored_form c aead n (secretLabel application name) v"
  shows "\<exists>r. find (is_secret application name) (sd_secrets s') = Some r \<and> sr_application r = application \<and> sr_value r = stored"
    and "(app, m) \<noteq> (application, name) \<Longrightarrow> find (is_secret app m) (sd_secrets s') = find (is_secret app m) (sd_secrets s)"
proof -
  define new :: secret_row where "new = \<lparr>sr_application = application, sr_name = name, sr_label = secretLabel application name,
    sr_value = stored, sr_created = now, sr_updated = now\<rparr>"
  define upd :: "secret_row \<Rightarrow> secret_row" where "upd = (\<lambda>r. r\<lparr>sr_value := stored, sr_updated := now\<rparr>)"
  have s': "sd_secrets s' = upsert (is_secret application name) new upd (sd_secrets s)"
    using assms(1) by (auto simp: SetSecret_def bounded_upsert_def Let_def new_def upd_def stored_def split: if_splits)
  obtain r where r: "find (is_secret application name) (sd_secrets s') = Some r"
    "r = new \<or> (\<exists>x \<in> set (sd_secrets s). is_secret application name x \<and> r = upd x)"
    using find_upsert_hit[of "is_secret application name" new upd "sd_secrets s"] unfolding s'
    by (auto simp: new_def upd_def is_secret_def)
  then have "sr_application r = application \<and> sr_value r = stored"
    by (auto simp: new_def upd_def is_secret_def)
  with r show "\<exists>r. find (is_secret application name) (sd_secrets s') = Some r \<and> sr_application r = application \<and> sr_value r = stored"
    by blast
  assume "(app, m) \<noteq> (application, name)"
  then show "find (is_secret app m) (sd_secrets s') = find (is_secret app m) (sd_secrets s)"
    unfolding s' by (intro find_upsert_miss) (auto simp: new_def upd_def is_secret_def)
qed

text \<open>
  C39: After a secret was stored, an application that asks for it is answered with the stored value if the
  secret is its own, or if it is the server's and the application has none of its own; every other
  question of every application is answered as before.
\<close>

theorem nearest_secret_answers:
  assumes "gcm_ok c" "length n = NonceSize" "SetSecret c aead n application name v now s = Inr s'"
  shows "resolve_secret c aead app m s' =
    (if m = name \<and> (app = application \<or> application = [] \<and> find (is_secret app name) (sd_secrets s) = None)
     then Inr (Some (v, application))
     else resolve_secret c aead app m s)"
proof -
  obtain r where r: "find (is_secret application name) (sd_secrets s') = Some r" "sr_application r = application"
    "sr_value r = stored_form c aead n (secretLabel application name) v"
    using SetSecret_rows(1)[OF assms(3)] by blast
  note other = SetSecret_rows(2)[OF assms(3)]
  have "plain_form c aead (secretLabel application name) (sr_value r) = Inr v"
    using plain_stored[OF assms(1,2)] r(3) by simp
  then show ?thesis
    unfolding resolve_nearest using r(1,2) other[of app m] other[of "[]" m]
    by (cases "m = name"; cases "app = application"; cases "application = []") (auto split: option.splits)
qed

lemma split_at_slash: "CHR ''/'' \<notin> set a \<Longrightarrow> CHR ''/'' \<notin> set b \<Longrightarrow> a @ CHR ''/'' # x = b @ CHR ''/'' # y \<longleftrightarrow> a = b \<and> x = y"
proof (induction a arbitrary: b)
  case Nil
  then show ?case by (cases b) auto
next
  case (Cons c a)
  then show ?case by (cases b) auto
qed

lemma secretLabel_inject:
  assumes "CHR ''/'' \<notin> set a \<union> set b \<union> set m \<union> set n"
  shows "secretLabel a m = secretLabel b n \<longleftrightarrow> a = b \<and> m = n"
proof -
  have "''applications/'' @ x \<noteq> y" if "CHR ''/'' \<notin> set y" for x y
    using that by auto
  then show ?thesis
    using assms split_at_slash[of a b "''secrets/'' @ m" "''secrets/'' @ n"] by (auto simp: secretLabel_def)
qed

text \<open>
  C40: A sealed secret that is moved to the row of another secret, of the same or of another
  application, does not open there, whatever the keys in use are.
\<close>

theorem moved_secret_stays_shut:
  assumes "gcm_ok c" "length nonce = NonceSize" "CHR ''/'' \<notin> set a \<union> set b \<union> set m \<union> set n" "(a, m) \<noteq> (b, n)"
  shows "plain_form c (Some ring) (secretLabel b n) (stored_form c (Some ring') nonce (secretLabel a m) v)
    = Inl (SealProblem (NotAuthentic (secretLabel b n)))"
proof -
  have "secretLabel b n \<noteq> secretLabel a m"
    using secretLabel_inject[of b a n m] assms(3,4) by auto
  then show ?thesis
    using unseal_elsewhere[OF assms(1,2)] by (simp add: plain_form_def stored_form_def isSealed_seal)
qed

text \<open>Concrete inputs.\<close>

definition demo_ring :: keyring where
  "demo_ring = one_key (replicate 32 (CHR ''k''))"

definition empty_sealed :: sealed_db where
  "empty_sealed = \<lparr>sd_secrets = [], sd_registries = [], sd_certificates = [], sd_references = [], sd_specs = []\<rparr>"

theorem nearest_secret_answers_witness:
  "\<exists>s1 s2. SetSecret demo_gcm (Some demo_ring) (demo_nonces 0) [] ''TOKEN'' ''shared'' 0 empty_sealed = Inr s1 \<and>
     SetSecret demo_gcm (Some demo_ring) (demo_nonces 1) ''web'' ''TOKEN'' ''own'' 0 s1 = Inr s2 \<and>
     resolve_secret demo_gcm (Some demo_ring) ''web'' ''TOKEN'' s2 = Inr (Some (''own'', ''web'')) \<and>
     resolve_secret demo_gcm (Some demo_ring) ''api'' ''TOKEN'' s2 = Inr (Some (''shared'', []))"
proof -
  have n: "length (demo_nonces i) = NonceSize" for i
    using demo_nonces_ok by (simp add: nonces_ok_def)
  obtain s1 where s1: "SetSecret demo_gcm (Some demo_ring) (demo_nonces 0) [] ''TOKEN'' ''shared'' 0 empty_sealed = Inr s1"
    by (simp add: SetSecret_def bounded_upsert_def empty_sealed_def MaxSecrets_def Let_def)
  then have "length (sd_secrets s1) = 1"
    by (auto simp: SetSecret_def bounded_upsert_def empty_sealed_def MaxSecrets_def Let_def upsert_def)
  then have few: "\<not> 500 \<le> length (filter P (sd_secrets s1))" for P
    using length_filter_le[of P "sd_secrets s1"] by simp
  then obtain s2 where s2: "SetSecret demo_gcm (Some demo_ring) (demo_nonces 1) ''web'' ''TOKEN'' ''own'' 0 s1 = Inr s2"
    by (simp add: SetSecret_def bounded_upsert_def MaxSecrets_def Let_def few)
  note one = nearest_secret_answers[OF demo_gcm_ok n s1] and two = nearest_secret_answers[OF demo_gcm_ok n s2]
  have "find (is_secret ''api'' ''TOKEN'') (sd_secrets empty_sealed) = None"
    by (simp add: empty_sealed_def)
  then show ?thesis
    using s1 s2 two[of "''web''" "''TOKEN''"] two[of "''api''" "''TOKEN''"] one[of "''api''" "''TOKEN''"] by auto
qed

theorem moved_secret_stays_shut_witness:
  "plain_form demo_gcm (Some demo_ring) (secretLabel ''api'' ''TOKEN'')
     (stored_form demo_gcm (Some demo_ring) (demo_nonces 0) (secretLabel ''web'' ''TOKEN'') ''v'')
   = Inl (SealProblem (NotAuthentic (secretLabel ''api'' ''TOKEN'')))"
  by (rule moved_secret_stays_shut[OF demo_gcm_ok]) (simp_all add: demo_nonces_def NonceSize_def)

end
