(* ===== verification/Key_Rotation.thy ===== *)
theory Key_Rotation
  imports Secret_Tables
begin

text \<open>
  Rotating the encryption key (\<^verbatim>\<open>src/agent/internal/store/rotation.go\<close>), the start of the agent that
  settles what a rotation left (\<open>Open\<close> of \<^verbatim>\<open>store.go\<close>, \<^verbatim>\<open>config/encryption.go\<close>) and the pass over
  values from before encryption (\<open>encryptLegacyEnv\<close> of \<^verbatim>\<open>crypto.go\<close>).

  The disk is the key file, the pending key next to it and the committed database. Every call that reaches
  the disk takes the next call number; the environment says whether it works, fails or is the last thing
  the process does, and in the latter cases whether it took effect. A write of a key file that does not
  work may leave any beginning of the text. A database in memory, which only tests use, has no key and
  no key file.
\<close>

section \<open>What is sealed\<close>

datatype sealedColumn = SecretValues | RegistryPasswords | CertificateKeys | References

definition sealedColumns :: "sealedColumn list" where
  "sealedColumns = [SecretValues, RegistryPasswords, CertificateKeys, References]"

fun column_name :: "sealedColumn \<Rightarrow> string \<Rightarrow> string" where
  "column_name SecretValues key = key"
| "column_name RegistryPasswords key = registryPasswordName key"
| "column_name CertificateKeys key = keyLabel key"
| "column_name References key = referencesName key"

text \<open>The rows of a column as pairs of key and value; the order of the rows does not matter.\<close>

fun readColumn :: "sealed_db \<Rightarrow> sealedColumn \<Rightarrow> (string \<times> string) list" where
  "readColumn s SecretValues = map (\<lambda>r. (sr_label r, sr_value r)) (sd_secrets s)"
| "readColumn s RegistryPasswords = map (\<lambda>r. (rg_registry r, rg_password r)) (sd_registries s)"
| "readColumn s CertificateKeys = map (\<lambda>r. (ce_hostname r, ce_key r)) (sd_certificates s)"
| "readColumn s References = sd_references s"

fun writeColumn :: "sealedColumn \<Rightarrow> string \<Rightarrow> string \<Rightarrow> sealed_db \<Rightarrow> sealed_db" where
  "writeColumn SecretValues key v s =
     s\<lparr>sd_secrets := map (\<lambda>r. if sr_label r = key then r\<lparr>sr_value := v\<rparr> else r) (sd_secrets s)\<rparr>"
| "writeColumn RegistryPasswords key v s =
     s\<lparr>sd_registries := map (\<lambda>r. if rg_registry r = key then r\<lparr>rg_password := v\<rparr> else r) (sd_registries s)\<rparr>"
| "writeColumn CertificateKeys key v s =
     s\<lparr>sd_certificates := map (\<lambda>r. if ce_hostname r = key then r\<lparr>ce_key := v\<rparr> else r) (sd_certificates s)\<rparr>"
| "writeColumn References key v s =
     s\<lparr>sd_references := map (\<lambda>(k, x). if k = key then (k, v) else (k, x)) (sd_references s)\<rparr>"

fun reencryptColumn ::
    "gcm \<Rightarrow> keyring \<Rightarrow> keyring \<Rightarrow> (nat \<Rightarrow> bytes) \<Rightarrow> sealedColumn \<Rightarrow> nat \<Rightarrow> (string \<times> string) list \<Rightarrow> sealed_db \<Rightarrow> seal_error + sealed_db \<times> nat" where
  "reencryptColumn c old nxt ns col i [] s = Inr (s, i)"
| "reencryptColumn c old nxt ns col i ((key, stored) # values) s =
     (case unseal c old (column_name col key) stored of
        Inl er \<Rightarrow> Inl er
      | Inr plain \<Rightarrow>
          reencryptColumn c old nxt ns col (i + 1) values (writeColumn col key (seal c nxt (ns i) (column_name col key) plain) s))"

fun reencryptColumns ::
    "gcm \<Rightarrow> keyring \<Rightarrow> keyring \<Rightarrow> (nat \<Rightarrow> bytes) \<Rightarrow> sealedColumn list \<Rightarrow> nat \<Rightarrow> sealed_db \<Rightarrow> seal_error + sealed_db \<times> nat" where
  "reencryptColumns c old nxt ns [] i s = Inr (s, i)"
| "reencryptColumns c old nxt ns (col # cols) i s =
     (case reencryptColumn c old nxt ns col i (readColumn s col) s of
        Inl er \<Rightarrow> Inl er
      | Inr (s', j) \<Rightarrow> reencryptColumns c old nxt ns cols j s')"

text \<open>
  A stored specification: the fields that opening changed are replaced by what sealing made of them, the
  others stay as they are. Opening changes no other field than these three.
\<close>

definition reencryptSpec ::
    "gcm \<Rightarrow> keyring \<Rightarrow> keyring \<Rightarrow> (nat \<Rightarrow> bytes) \<Rightarrow> nat \<Rightarrow> App \<Rightarrow> seal_error + App \<times> nat" where
  "reencryptSpec c old nxt ns i stored =
     (case openSpec c old stored of
        Inl er \<Rightarrow> Inl er
      | Inr opened \<Rightarrow>
          (case sealSpec c nxt ns i opened of
             (resealed, j) \<Rightarrow>
               Inr (stored\<lparr>a_env := (if a_env opened = a_env stored then a_env stored else a_env resealed),
                 a_proxy := (if a_proxy opened = a_proxy stored then a_proxy stored else a_proxy resealed),
                 a_logging := (if a_logging opened = a_logging stored then a_logging stored else a_logging resealed)\<rparr>, j)))"

fun reencryptSpecs ::
    "gcm \<Rightarrow> keyring \<Rightarrow> keyring \<Rightarrow> (nat \<Rightarrow> bytes) \<Rightarrow> nat \<Rightarrow> (int \<times> App) list \<Rightarrow> seal_error + (int \<times> App) list \<times> nat" where
  "reencryptSpecs c old nxt ns i [] = Inr ([], i)"
| "reencryptSpecs c old nxt ns i ((d, a) # rest) =
     (case reencryptSpec c old nxt ns i a of
        Inl er \<Rightarrow> Inl er
      | Inr (a', j) \<Rightarrow>
          (case reencryptSpecs c old nxt ns j rest of
             Inl er \<Rightarrow> Inl er
           | Inr (out, k) \<Rightarrow> Inr ((d, a') # out, k)))"

definition reencrypt :: "gcm \<Rightarrow> bytes \<Rightarrow> bytes \<Rightarrow> (nat \<Rightarrow> bytes) \<Rightarrow> sealed_db \<Rightarrow> seal_error + sealed_db" where
  "reencrypt c old nxt ns s =
     (case reencryptColumns c (one_key old) (one_key nxt) ns sealedColumns 0 s of
        Inl er \<Rightarrow> Inl er
      | Inr (s1, i) \<Rightarrow>
          (case reencryptSpecs c (one_key old) (one_key nxt) ns i (sd_specs s1) of
             Inl er \<Rightarrow> Inl er
           | Inr (specs, _) \<Rightarrow> Inr (s1\<lparr>sd_specs := specs\<rparr>)))"

definition opens_as :: "gcm \<Rightarrow> keyring \<Rightarrow> string \<Rightarrow> string \<Rightarrow> bool" where
  "opens_as c ring name stored = (case unseal c ring name stored of Inl _ \<Rightarrow> False | Inr _ \<Rightarrow> True)"

definition keyFits :: "gcm \<Rightarrow> bytes \<Rightarrow> sealed_db \<Rightarrow> bool" where
  "keyFits c k s \<longleftrightarrow>
     list_all (\<lambda>col. list_all (\<lambda>(key, stored). opens_as c (one_key k) (column_name col key) stored) (readColumn s col)) sealedColumns \<and>
     list_all (\<lambda>(d, a). case openSpec c (one_key k) a of Inl _ \<Rightarrow> False | Inr _ \<Rightarrow> True) (sd_specs s)"

section \<open>Disk and calls\<close>

record disk =
  dk_key :: "string option"
  dk_pending :: "string option"
  dk_db :: sealed_db

text \<open>The boolean says whether a call that does not work took effect all the same.\<close>

datatype outcome = Works | Fails bool | Crashes bool

record rot_env =
  re_outcome :: "nat \<Rightarrow> outcome"
  re_torn :: "nat \<Rightarrow> nat option"
  re_key :: "nat \<Rightarrow> bytes"
  re_nonces :: "nat \<Rightarrow> bytes"

datatype status = Done | Failed | Crashed

text \<open>\<open>half\<close> is what is left of a call that does not work and does not take effect.\<close>

definition perform :: "rot_env \<Rightarrow> (nat \<Rightarrow> disk \<Rightarrow> disk) \<Rightarrow> (disk \<Rightarrow> disk) \<Rightarrow> disk \<times> nat \<Rightarrow> status \<times> disk \<times> nat" where
  "perform e half full = (\<lambda>(d, n).
     case re_outcome e n of
       Works \<Rightarrow> (Done, full d, n + 1)
     | Fails effect \<Rightarrow> (Failed, (if effect then full d else half n d), n + 1)
     | Crashes effect \<Rightarrow> (Crashed, (if effect then full d else half n d), n + 1))"

definition access :: "rot_env \<Rightarrow> disk \<times> nat \<Rightarrow> status \<times> disk \<times> nat" where
  "access e = perform e (\<lambda>_ d. d) (\<lambda>d. d)"

definition key_text :: "bytes \<Rightarrow> string" where
  "key_text k = hex_encode k @ [byte_of 10]"

definition torn :: "rot_env \<Rightarrow> nat \<Rightarrow> string \<Rightarrow> string option \<Rightarrow> string option" where
  "torn e n text before = (case re_torn e n of None \<Rightarrow> before | Some j \<Rightarrow> Some (take j text))"

text \<open>\<open>writeKeyFile\<close> for the pending key, \<open>os.Remove\<close> of it, \<open>os.Rename\<close> over the key file, \<open>Commit\<close>.\<close>

definition writePending :: "rot_env \<Rightarrow> bytes \<Rightarrow> disk \<times> nat \<Rightarrow> status \<times> disk \<times> nat" where
  "writePending e k =
     perform e (\<lambda>n d. d\<lparr>dk_pending := torn e n (key_text k) (dk_pending d)\<rparr>) (\<lambda>d. d\<lparr>dk_pending := Some (key_text k)\<rparr>)"

definition removePending :: "rot_env \<Rightarrow> disk \<times> nat \<Rightarrow> status \<times> disk \<times> nat" where
  "removePending e = perform e (\<lambda>_ d. d) (\<lambda>d. d\<lparr>dk_pending := None\<rparr>)"

definition renamePending :: "rot_env \<Rightarrow> disk \<times> nat \<Rightarrow> status \<times> disk \<times> nat" where
  "renamePending e = perform e (\<lambda>_ d. d) (\<lambda>d. d\<lparr>dk_key := dk_pending d, dk_pending := None\<rparr>)"

definition commitTx :: "rot_env \<Rightarrow> sealed_db \<Rightarrow> disk \<times> nat \<Rightarrow> status \<times> disk \<times> nat" where
  "commitTx e s = perform e (\<lambda>_ d. d) (\<lambda>d. d\<lparr>dk_db := s\<rparr>)"

definition EncryptionKeySize :: nat where
  "EncryptionKeySize = 32"

definition ParseEncryptionKey :: "string \<Rightarrow> bytes option" where
  "ParseEncryptionKey s =
     (case hex_decode s of None \<Rightarrow> None | Some k \<Rightarrow> if length k = EncryptionKeySize then Some k else None)"

section \<open>Rotation\<close>

record store =
  st_ring :: "keyring option"
  st_keyFile :: bool
  st_fromEnv :: bool

datatype rot_err =
    Dead | ErrNotEncrypted | ErrRotationPending | KeyNotWritten | NotReencrypted | KeyNotMoved
  | BadKey | ReadFailed | KeyMismatch | KeptOldKeyInEnvironment | NotSaved

text \<open>
  A rotation whose transaction did not succeed: the pending key goes, unless the commit was reached and
  the old key does not open the data any more.
\<close>

definition give_up :: "gcm \<Rightarrow> rot_env \<Rightarrow> bytes \<Rightarrow> bool \<Rightarrow> disk \<times> nat \<Rightarrow> rot_err \<times> disk \<times> nat" where
  "give_up c e old committed w =
     (if \<not> committed then (case removePending e w of (st, w') \<Rightarrow> (if st = Crashed then Dead else NotReencrypted, w'))
      else case access e w of (st, w1) \<Rightarrow>
        if st = Crashed then (Dead, w1)
        else if st = Done \<and> keyFits c old (dk_db (fst w1))
        then (case removePending e w1 of (st', w') \<Rightarrow> (if st' = Crashed then Dead else NotReencrypted, w'))
        else (NotReencrypted, w1))"

definition RotateKey :: "gcm \<Rightarrow> rot_env \<Rightarrow> store \<Rightarrow> disk \<times> nat \<Rightarrow> (rot_err + unit) \<times> store \<times> disk \<times> nat" where
  "RotateKey c e s w =
     (case st_ring s of
        None \<Rightarrow> (Inl ErrNotEncrypted, s, w)
      | Some ring \<Rightarrow>
          if \<not> st_keyFile s then (Inl ErrNotEncrypted, s, w)
          else
            let key = re_key e (snd w); old = kr_current ring
            in if length key \<noteq> EncryptionKeySize then (Inl BadKey, s, w)
            else case (if st_fromEnv s then access e w else (Failed, w)) of (seen, w1) \<Rightarrow>
            if seen = Crashed then (Inl Dead, s, w1)
            else if seen = Done \<and> dk_pending (fst w1) \<noteq> None then (Inl ErrRotationPending, s, w1)
            else case writePending e key w1 of (st2, w2) \<Rightarrow>
            if st2 = Crashed then (Inl Dead, s, w2)
            else if st2 = Failed then (Inl KeyNotWritten, s, w2)
            else case access e w2 of (st3, w3) \<Rightarrow>
            if st3 = Crashed then (Inl Dead, s, w3)
            else case (if st3 = Failed then None
                       else (case reencrypt c old key (re_nonces e) (dk_db (fst w3)) of Inl _ \<Rightarrow> None | Inr t \<Rightarrow> Some t)) of
              None \<Rightarrow> (case give_up c e old False w3 of (er, w4) \<Rightarrow> (Inl er, s, w4))
            | Some t \<Rightarrow>
                (case commitTx e t w3 of (st4, w4) \<Rightarrow>
                 if st4 = Crashed then (Inl Dead, s, w4)
                 else if st4 = Failed then (case give_up c e old True w4 of (er, w5) \<Rightarrow> (Inl er, s, w5))
                 else
                   let s' = s\<lparr>st_ring := Some (rotate key ring)\<rparr>
                   in if st_fromEnv s then (Inr (), s', w4)
                      else case renamePending e w4 of (st5, w5) \<Rightarrow>
                        (if st5 = Crashed then Inl Dead else if st5 = Failed then Inl KeyNotMoved else Inr (), s', w5)))"

section \<open>Start\<close>

text \<open>\<open>ResolveEncryptionKey\<close>: the key given in the environment (an empty variable counts as none), the key file's, or a new one.\<close>

definition ResolveEncryptionKey :: "rot_env \<Rightarrow> string option \<Rightarrow> disk \<times> nat \<Rightarrow> (rot_err + bytes) \<times> disk \<times> nat" where
  "ResolveEncryptionKey e cfg w =
     (case cfg of
        Some text \<Rightarrow> ((case ParseEncryptionKey text of None \<Rightarrow> Inl BadKey | Some k \<Rightarrow> Inr k), w)
      | None \<Rightarrow>
          (case access e w of (st, w1) \<Rightarrow>
             if st = Crashed then (Inl Dead, w1)
             else if st = Failed then (Inl ReadFailed, w1)
             else case dk_key (fst w1) of
                 Some text \<Rightarrow> ((case ParseEncryptionKey (trim_space text) of None \<Rightarrow> Inl BadKey | Some k \<Rightarrow> Inr k), w1)
               | None \<Rightarrow>
                   let k = re_key e (snd w1)
                   in case perform e (\<lambda>n d. d\<lparr>dk_key := torn e n (key_text k) (dk_key d)\<rparr>) (\<lambda>d. d\<lparr>dk_key := Some (key_text k)\<rparr>) w1 of
                        (st2, w2) \<Rightarrow> (if st2 = Crashed then Inl Dead else if st2 = Failed then Inl NotSaved else Inr k, w2)))"

definition settleRotation :: "gcm \<Rightarrow> rot_env \<Rightarrow> store \<Rightarrow> disk \<times> nat \<Rightarrow> (rot_err + store) \<times> disk \<times> nat" where
  "settleRotation c e s w =
     (case st_ring s of
        None \<Rightarrow> (Inr s, w)
      | Some ring \<Rightarrow>
          if \<not> st_keyFile s then (Inr s, w)
          else case access e w of (st, w1) \<Rightarrow>
          if st = Crashed then (Inl Dead, w1)
          else if st = Failed then (Inl ReadFailed, w1)
          else case dk_pending (fst w1) of
            None \<Rightarrow> (Inr s, w1)
          | Some text \<Rightarrow>
              (case access e w1 of (st2, w2) \<Rightarrow>
               if st2 = Crashed then (Inl Dead, w2)
               else if st2 = Done \<and> keyFits c (kr_current ring) (dk_db (fst w2)) then
                 (case removePending e w2 of (st3, w3) \<Rightarrow>
                    (if st3 = Crashed then Inl Dead else if st3 = Failed then Inl NotSaved else Inr s, w3))
               else case ParseEncryptionKey (trim_space text) of
                 None \<Rightarrow> (Inl KeyMismatch, w2)
               | Some k \<Rightarrow>
                   (case access e w2 of (st3, w3) \<Rightarrow>
                    if st3 = Crashed then (Inl Dead, w3)
                    else if st3 = Failed \<or> \<not> keyFits c k (dk_db (fst w3)) then (Inl KeyMismatch, w3)
                    else if st_fromEnv s then (Inl KeptOldKeyInEnvironment, w3)
                    else case renamePending e w3 of (st4, w4) \<Rightarrow>
                      (if st4 = Crashed then Inl Dead else if st4 = Failed then Inl NotSaved
                       else Inr (s\<lparr>st_ring := Some (rotate k ring)\<rparr>), w4))))"

text \<open>\<open>encryptLegacyEnv\<close>: values without the prefix are sealed, the others prove the key.\<close>

fun legacy_env :: "gcm \<Rightarrow> keyring \<Rightarrow> (nat \<Rightarrow> bytes) \<Rightarrow> nat \<Rightarrow> (string \<times> string) list \<Rightarrow> seal_error + (string \<times> string) list \<times> nat" where
  "legacy_env c ring ns i [] = Inr ([], i)"
| "legacy_env c ring ns i ((name, v) # rest) =
     (case (if isSealed v then (case unseal c ring name v of Inl er \<Rightarrow> Inl er | Inr _ \<Rightarrow> Inr (v, i))
            else Inr (seal c ring (ns i) name v, i + 1)) of
        Inl er \<Rightarrow> Inl er
      | Inr (v', j) \<Rightarrow>
          (case legacy_env c ring ns j rest of Inl er \<Rightarrow> Inl er | Inr (out, k) \<Rightarrow> Inr ((name, v') # out, k)))"

fun legacy_specs :: "gcm \<Rightarrow> keyring \<Rightarrow> (nat \<Rightarrow> bytes) \<Rightarrow> nat \<Rightarrow> (int \<times> App) list \<Rightarrow> seal_error + (int \<times> App) list" where
  "legacy_specs c ring ns i [] = Inr []"
| "legacy_specs c ring ns i ((d, a) # rest) =
     (case legacy_env c ring ns i (a_env a) of
        Inl er \<Rightarrow> Inl er
      | Inr (env, j) \<Rightarrow>
          (case legacy_specs c ring ns j rest of Inl er \<Rightarrow> Inl er | Inr out \<Rightarrow> Inr ((d, a\<lparr>a_env := env\<rparr>) # out)))"

definition encryptLegacyEnv :: "gcm \<Rightarrow> rot_env \<Rightarrow> store \<Rightarrow> disk \<times> nat \<Rightarrow> (rot_err + unit) \<times> disk \<times> nat" where
  "encryptLegacyEnv c e s w =
     (case st_ring s of
        None \<Rightarrow> (Inr (), w)
      | Some ring \<Rightarrow>
          (case access e w of (st, w1) \<Rightarrow>
             if st = Crashed then (Inl Dead, w1)
             else if st = Failed then (Inl ReadFailed, w1)
             else case legacy_specs c ring (re_nonces e) 0 (sd_specs (dk_db (fst w1))) of
               Inl er \<Rightarrow> (Inl KeyMismatch, w1)
             | Inr specs \<Rightarrow>
                 (case commitTx e ((dk_db (fst w1))\<lparr>sd_specs := specs\<rparr>) w1 of (st2, w2) \<Rightarrow>
                    (if st2 = Crashed then Inl Dead else if st2 = Failed then Inl NotSaved else Inr (), w2))))"

text \<open>The start of the agent up to the open store; \<open>cfg\<close> is the key in the environment.\<close>

definition Open :: "gcm \<Rightarrow> rot_env \<Rightarrow> string option \<Rightarrow> disk \<times> nat \<Rightarrow> (rot_err + store) \<times> disk \<times> nat" where
  "Open c e cfg w =
     (case ResolveEncryptionKey e cfg w of
        (Inl er, w1) \<Rightarrow> (Inl er, w1)
      | (Inr key, w1) \<Rightarrow>
          if length key \<noteq> EncryptionKeySize then (Inl BadKey, w1)
          else case settleRotation c e \<lparr>st_ring = Some (one_key key), st_keyFile = True, st_fromEnv = cfg \<noteq> None\<rparr> w1 of
            (Inl er, w2) \<Rightarrow> (Inl er, w2)
          | (Inr s, w2) \<Rightarrow>
              (case encryptLegacyEnv c e s w2 of
                 (Inl er, w3) \<Rightarrow> (Inl er, w3)
               | (Inr _, w3) \<Rightarrow> (Inr s, w3)))"

section \<open>Data under a key\<close>

text \<open>
  \<open>shows_as\<close>: what the columns and the specifications read as with a keyring. \<open>honest\<close>: every sealed
  value was made by sealing with the key, under the name of its place. \<open>under\<close>: both, for one key.
\<close>

type_synonym plain_view = "(sealedColumn \<Rightarrow> (string \<times> string) list) \<times> (int \<times> App) list"

definition shows_as :: "gcm \<Rightarrow> keyring \<Rightarrow> sealed_db \<Rightarrow> plain_view \<Rightarrow> bool" where
  "shows_as c ring s P \<longleftrightarrow>
     (\<forall>col. list_all2 (\<lambda>(key, v) (key', p). key = key' \<and> unseal c ring (column_name col key) v = Inr p) (readColumn s col) (fst P col)) \<and>
     list_all2 (\<lambda>(d, a) (d', b). d = d' \<and> openSpec c ring a = Inr b) (sd_specs s) (snd P)"

definition honest_value :: "gcm \<Rightarrow> bytes \<Rightarrow> string \<Rightarrow> string \<Rightarrow> bool" where
  "honest_value c k name v \<longleftrightarrow> (\<exists>n p. length n = NonceSize \<and> v = seal c (one_key k) n name p)"

definition log_names :: "Logging \<Rightarrow> string list" where
  "log_names l = filter (\<lambda>n. map_of (lg_options l) n \<noteq> None) LogSecretOptions"

definition honest_env :: "gcm \<Rightarrow> bytes \<Rightarrow> (string \<times> string) list \<Rightarrow> bool" where
  "honest_env c k env \<longleftrightarrow> (\<forall>(name, v) \<in> set env. honest_value c k name v)"

definition honest_px :: "gcm \<Rightarrow> bytes \<Rightarrow> Proxy option \<Rightarrow> bool" where
  "honest_px c k px \<longleftrightarrow>
     (\<forall>p. px = Some p \<longrightarrow> (\<forall>i < length (px_auth p). honest_value c k (passwordName i) (ba_password (px_auth p ! i))))"

definition honest_lg :: "gcm \<Rightarrow> bytes \<Rightarrow> Logging option \<Rightarrow> bool" where
  "honest_lg c k lg \<longleftrightarrow>
     (\<forall>l. lg = Some l \<longrightarrow> (\<forall>n \<in> set (log_names l). isSealed (option_value (lg_options l) n) \<longrightarrow>
        honest_value c k (logOptionName n) (option_value (lg_options l) n)))"

definition honest_app :: "gcm \<Rightarrow> bytes \<Rightarrow> App \<Rightarrow> bool" where
  "honest_app c k a \<longleftrightarrow> honest_env c k (a_env a) \<and> honest_px c k (a_proxy a) \<and> honest_lg c k (a_logging a)"

definition honest :: "gcm \<Rightarrow> bytes \<Rightarrow> sealed_db \<Rightarrow> bool" where
  "honest c k s \<longleftrightarrow>
     (\<forall>col. \<forall>(key, v) \<in> set (readColumn s col). honest_value c k (column_name col key) v) \<and>
     (\<forall>(d, a) \<in> set (sd_specs s). honest_app c k a)"

definition under :: "gcm \<Rightarrow> bytes \<Rightarrow> sealed_db \<Rightarrow> plain_view \<Rightarrow> bool" where
  "under c k s P \<longleftrightarrow> honest c k s \<and> shows_as c (one_key k) s P"

text \<open>The keys of each column are unique, as its table demands.\<close>

definition keys_distinct :: "sealed_db \<Rightarrow> bool" where
  "keys_distinct s \<longleftrightarrow> (\<forall>col. distinct (map fst (readColumn s col)))"

lemma honest_value_isSealed: "honest_value c k name v \<Longrightarrow> isSealed v"
  by (auto simp: honest_value_def isSealed_seal)

lemma honest_value_seal [simp]: "length n = NonceSize \<Longrightarrow> honest_value c (kr_current ring) name (seal c ring n name p)"
  by (auto simp: honest_value_def seal_def one_key_def)

text \<open>Another key opens none of it.\<close>

lemma honest_value_shut: "gcm_ok c \<Longrightarrow> honest_value c k name v \<Longrightarrow> \<not> holds_key ring k \<Longrightarrow> \<exists>er. unseal c ring name v = Inl er"
  by (auto simp: honest_value_def sealing)

lemma unseal_current: "unseal c (one_key (kr_current ring)) name v = Inr p \<Longrightarrow> unseal c ring name v = Inr p"
  by (auto simp: unseal_def keyring_open_def one_key_def split: option.splits if_splits)

subsection \<open>The fields of a specification\<close>

definition open_px :: "gcm \<Rightarrow> keyring \<Rightarrow> Proxy option \<Rightarrow> seal_error + Proxy option" where
  "open_px c ring px =
     (case px of
        None \<Rightarrow> Inr None
      | Some p \<Rightarrow> (case open_auth c ring 0 (px_auth p) of Inl er \<Rightarrow> Inl er | Inr auth \<Rightarrow> Inr (Some (p\<lparr>px_auth := auth\<rparr>))))"

definition open_lg :: "gcm \<Rightarrow> keyring \<Rightarrow> Logging option \<Rightarrow> seal_error + Logging option" where
  "open_lg c ring lg =
     (case lg of
        None \<Rightarrow> Inr None
      | Some l \<Rightarrow>
          (case open_options c ring (log_names l) (lg_options l) of
             Inl er \<Rightarrow> Inl er | Inr opts \<Rightarrow> Inr (Some (l\<lparr>lg_options := opts\<rparr>))))"

lemma openSpec_fields:
  "openSpec c ring a = Inr b \<longleftrightarrow>
     (\<exists>env px lg. open_env c ring (a_env a) = Inr env \<and> open_px c ring (a_proxy a) = Inr px \<and> open_lg c ring (a_logging a) = Inr lg \<and>
        b = a\<lparr>a_env := env, a_proxy := px, a_logging := lg\<rparr>)"
  unfolding openSpec_def openLogging_def open_px_def open_lg_def SecretLogOptions_def log_names_def
  by (cases "a_logging a"; cases "a_proxy a") (auto split: sum.splits)

lemma log_names_cases: "log_names l = [] \<or> log_names l = [''splunk-token'']"
  by (simp add: log_names_def LogSecretOptions_def)

text \<open>Opening with a keyring whose current key is the right one.\<close>

lemma open_env_current: "open_env c (one_key (kr_current ring)) env = Inr out \<Longrightarrow> open_env c ring env = Inr out"
  by (induction env arbitrary: out) (auto dest!: unseal_current split: if_splits sum.splits)

lemma open_auth_current: "open_auth c (one_key (kr_current ring)) pos auth = Inr out \<Longrightarrow> open_auth c ring pos auth = Inr out"
  by (induction auth arbitrary: out pos) (auto dest!: unseal_current split: if_splits sum.splits)

lemma open_options_current: "open_options c (one_key (kr_current ring)) names opts = Inr out \<Longrightarrow> open_options c ring names opts = Inr out"
  by (induction names arbitrary: opts) (auto dest!: unseal_current split: if_splits sum.splits)

lemma openSpec_current: "openSpec c (one_key (kr_current ring)) a = Inr b \<Longrightarrow> openSpec c ring a = Inr b"
  unfolding openSpec_fields open_px_def open_lg_def
  by (cases "a_proxy a"; cases "a_logging a") (fastforce dest: open_env_current open_auth_current open_options_current split: sum.splits)+

lemma shows_as_current: "shows_as c (one_key (kr_current ring)) s P \<Longrightarrow> shows_as c ring s P"
  unfolding shows_as_def
  by (fastforce elim!: list_all2_mono dest: unseal_current openSpec_current)

text \<open>A field that opening leaves as it is holds nothing sealed, and every key opens it.\<close>

lemma open_env_unchanged: "gcm_ok c \<Longrightarrow> open_env c ring env = Inr env \<Longrightarrow> env = []"
  by (cases env) (auto dest: unseal_shorter split: if_splits sum.splits)

lemma open_auth_unchanged: "gcm_ok c \<Longrightarrow> open_auth c ring pos auth = Inr auth \<Longrightarrow> auth = []"
proof (cases auth)
  case (Cons b rest)
  assume "gcm_ok c" "open_auth c ring pos auth = Inr auth"
  then have "isSealed (ba_password b)" "unseal c ring (passwordName pos) (ba_password b) = Inr (ba_password b)"
    using Cons by (auto split: if_splits sum.splits) (metis BasicAuth.select_convs(3) BasicAuth.surjective BasicAuth.update_convs(3))
  then show ?thesis
    using unseal_shorter[OF \<open>gcm_ok c\<close>] by blast
qed

lemma log_names_value: "n \<in> set (log_names l) \<Longrightarrow> map_of (lg_options l) n = Some (option_value (lg_options l) n)"
  by (auto simp: log_names_def option_value_def)

lemma open_options_one:
  assumes "names = [] \<or> names = [n]"
  shows "open_options c ring names opts =
    (if names = [] \<or> \<not> isSealed (option_value opts n) then Inr opts
     else case unseal c ring (logOptionName n) (option_value opts n) of Inl er \<Rightarrow> Inl er | Inr p \<Rightarrow> Inr (set_option n p opts))"
  using assms by (auto split: sum.splits)

lemma open_lg_unchanged:
  assumes "gcm_ok c" "open_lg c ring lg = Inr lg"
  shows "open_lg c ring' lg = Inr lg" "honest_lg c k lg"
proof -
  let ?t = "''splunk-token''"
  have plain: "log_names l = [] \<or> \<not> isSealed (option_value (lg_options l) ?t)" if l: "lg = Some l" for l
  proof (rule ccontr)
    assume sealed: "\<not> ?thesis"
    then have t: "?t \<in> set (log_names l)"
      using log_names_cases[of l] by auto
    obtain p where p: "unseal c ring (logOptionName ?t) (option_value (lg_options l) ?t) = Inr p"
      "l\<lparr>lg_options := set_option ?t p (lg_options l)\<rparr> = l"
    proof (cases "unseal c ring (logOptionName ?t) (option_value (lg_options l) ?t)")
      case (Inl er)
      then show ?thesis
        using assms(2) sealed unfolding l open_lg_def option.case open_options_one[OF log_names_cases] by simp
    next
      case (Inr p)
      then show ?thesis
        using assms(2) sealed unfolding l open_lg_def option.case open_options_one[OF log_names_cases] by (intro that) simp_all
    qed
    have "set_option ?t p (lg_options l) = lg_options l"
      using arg_cong[OF p(2), of lg_options] by simp
    moreover have "map_of (set_option ?t p (lg_options l)) ?t = Some p"
      by (simp only: map_of_set_option log_names_value[OF t]) simp
    ultimately have "map_of (lg_options l) ?t = Some p"
      by (simp only:)
    then have "p = option_value (lg_options l) ?t"
      by (simp add: option_value_def)
    then show False
      using unseal_shorter[OF assms(1) _ p(1)] sealed by simp
  qed
  show "open_lg c ring' lg = Inr lg"
    by (cases lg) (use plain in \<open>auto simp: open_lg_def open_options_one[OF log_names_cases]\<close>)
  show "honest_lg c k lg"
    unfolding honest_lg_def
  proof (intro allI ballI impI)
    fix l n
    assume "lg = Some l" "n \<in> set (log_names l)" "isSealed (option_value (lg_options l) n)"
    then show "honest_value c k (logOptionName n) (option_value (lg_options l) n)"
      using plain[of l] log_names_cases[of l] by auto
  qed
qed

lemma open_px_unchanged:
  assumes "gcm_ok c" "open_px c ring px = Inr px"
  shows "open_px c ring' px = Inr px" "honest_px c k px"
proof -
  have "px_auth p = []" if p: "px = Some p" for p
  proof -
    obtain auth where auth: "open_auth c ring 0 (px_auth p) = Inr auth" "p\<lparr>px_auth := auth\<rparr> = p"
      using assms(2) unfolding p open_px_def by (auto split: sum.splits)
    have "px_auth p = auth"
      using arg_cong[OF auth(2), of px_auth] by simp
    then show ?thesis
      using open_auth_unchanged[OF assms(1), of ring 0 auth] auth(1) by simp
  qed
  then show "open_px c ring' px = Inr px" "honest_px c k px"
    by (cases px; auto simp: open_px_def honest_px_def)+
qed

subsection \<open>What sealing makes is honest\<close>

lemma seal_env_honest:
  assumes "nonces_ok ns"
  shows "honest_env c (kr_current ring) (fst (seal_env c ring ns i env))"
proof -
  have "length (ns i) = NonceSize" for i
    using assms by (simp add: nonces_ok_def)
  then have "(name, v) \<in> set (fst (seal_env c ring ns i env)) \<Longrightarrow> honest_value c (kr_current ring) name v" for name v
    by (induction env arbitrary: i) (auto simp: split_beta)
  then show ?thesis
    by (auto simp: honest_env_def)
qed

lemma seal_auth_honest:
  assumes "nonces_ok ns"
  shows "j < length (fst (seal_auth c ring ns i pos auth)) \<Longrightarrow>
    honest_value c (kr_current ring) (passwordName (pos + j)) (ba_password (fst (seal_auth c ring ns i pos auth) ! j))"
proof (induction auth arbitrary: i pos j)
  case (Cons b auth)
  then show ?case
    using assms Cons.IH[of "j - 1" "Suc i" "Suc pos"] by (cases j) (auto simp: split_beta nonces_ok_def)
qed simp

lemma seal_options_honest:
  assumes "nonces_ok ns" "names = [] \<or> names = [n] \<and> map_of opts n \<noteq> None" "m \<in> set names"
  shows "honest_value c (kr_current ring) (logOptionName m) (option_value (fst (seal_options c ring ns i names opts)) m)"
  using assms by (auto simp: option_value_def map_of_set_option nonces_ok_def)

lemma SecretLogOptions_names: "SecretLogOptions a = (case a_logging a of None \<Rightarrow> [] | Some l \<Rightarrow> log_names l)"
  by (simp add: SecretLogOptions_def log_names_def split: option.splits)

lemma sealSpec_honest:
  assumes "nonces_ok ns"
  shows "honest_app c (kr_current ring) (fst (sealSpec c ring ns i a))"
proof -
  obtain j1 j2 where parts: "fst (sealSpec c ring ns i a) =
     a\<lparr>a_env := fst (seal_env c ring ns i (a_env a)),
       a_proxy := map_option (\<lambda>p. p\<lparr>px_auth := fst (seal_auth c ring ns j1 0 (px_auth p))\<rparr>) (a_proxy a),
       a_logging := map_option (\<lambda>l. l\<lparr>lg_options := fst (seal_options c ring ns j2 (SecretLogOptions a) (lg_options l))\<rparr>) (a_logging a)\<rparr>"
    using sealSpec_parts[of c ring ns i a] by (elim exE) (rule that)
  have "honest_px c (kr_current ring) (map_option (\<lambda>p. p\<lparr>px_auth := fst (seal_auth c ring ns j1 0 (px_auth p))\<rparr>) (a_proxy a))"
    using seal_auth_honest[OF assms, of _ c ring j1 0] by (auto simp: honest_px_def)
  moreover have "honest_lg c (kr_current ring)
      (map_option (\<lambda>l. l\<lparr>lg_options := fst (seal_options c ring ns j2 (SecretLogOptions a) (lg_options l))\<rparr>) (a_logging a))"
  proof (cases "a_logging a")
    case (Some l)
    let ?opts = "fst (seal_options c ring ns j2 (log_names l) (lg_options l))"
    have names: "log_names (l\<lparr>lg_options := ?opts\<rparr>) = log_names l"
      by (simp add: log_names_def seal_options_keys del: not_None_eq)
    have one: "log_names l = [] \<or> log_names l = [''splunk-token''] \<and> map_of (lg_options l) ''splunk-token'' \<noteq> None"
      using log_names_cases[of l] log_names_value[of "''splunk-token''" l] by auto
    show ?thesis
      unfolding SecretLogOptions_names Some
      by (simp add: honest_lg_def names) (use seal_options_honest[OF assms one] in blast)
  qed (simp add: honest_lg_def)
  ultimately show ?thesis
    unfolding parts honest_app_def using seal_env_honest[OF assms] by simp
qed

subsection \<open>From one key to the next\<close>

lemma openSpec_fieldsD:
  assumes "openSpec c ring r = Inr b"
  shows "open_env c ring (a_env r) = Inr (a_env b)" "open_px c ring (a_proxy r) = Inr (a_proxy b)"
    "open_lg c ring (a_logging r) = Inr (a_logging b)" "b = r\<lparr>a_env := a_env b, a_proxy := a_proxy b, a_logging := a_logging b\<rparr>"
proof -
  obtain env px lg where f: "open_env c ring (a_env r) = Inr env" "open_px c ring (a_proxy r) = Inr px" "open_lg c ring (a_logging r) = Inr lg"
    "b = r\<lparr>a_env := env, a_proxy := px, a_logging := lg\<rparr>"
    using assms unfolding openSpec_fields by blast
  then show "open_env c ring (a_env r) = Inr (a_env b)" "open_px c ring (a_proxy r) = Inr (a_proxy b)"
    "open_lg c ring (a_logging r) = Inr (a_logging b)" "b = r\<lparr>a_env := a_env b, a_proxy := a_proxy b, a_logging := a_logging b\<rparr>"
    by simp_all
qed

lemma reencryptSpec_ok:
  assumes "gcm_ok c" "nonces_ok ns" "openSpec c (one_key old) a = Inr b"
  shows "\<exists>a' j. reencryptSpec c (one_key old) (one_key nxt) ns i a = Inr (a', j) \<and> openSpec c (one_key nxt) a' = Inr b \<and> honest_app c nxt a'"
proof -
  obtain r j where r: "sealSpec c (one_key nxt) ns i b = (r, j)"
    by fastforce
  have "openSpec c (one_key nxt) r = Inr b" and h: "honest_app c nxt r"
    using openSpec_sealSpec[OF assms(1,2), of "one_key nxt" "one_key nxt" i b] sealSpec_honest[OF assms(2), of c "one_key nxt" i b] r by simp_all
  note fr = openSpec_fieldsD[OF this(1)] and fa = openSpec_fieldsD[OF assms(3)]
  define a' where "a' = a\<lparr>a_env := (if a_env b = a_env a then a_env a else a_env r),
      a_proxy := (if a_proxy b = a_proxy a then a_proxy a else a_proxy r),
      a_logging := (if a_logging b = a_logging a then a_logging a else a_logging r)\<rparr>"
  have env: "open_env c (one_key nxt) (a_env a') = Inr (a_env b) \<and> honest_env c nxt (a_env a')"
  proof (cases "a_env b = a_env a")
    case True
    then have "a_env a = []"
      using open_env_unchanged[OF assms(1)] fa(1) by simp
    then show ?thesis
      using True by (simp add: a'_def honest_env_def)
  next
    case False
    then show ?thesis
      using fr(1) h by (simp add: a'_def honest_app_def)
  qed
  have px: "open_px c (one_key nxt) (a_proxy a') = Inr (a_proxy b) \<and> honest_px c nxt (a_proxy a')"
  proof (cases "a_proxy b = a_proxy a")
    case True
    then show ?thesis
      using open_px_unchanged[OF assms(1), of "one_key old" "a_proxy a"] fa(2) by (simp add: a'_def)
  next
    case False
    then show ?thesis
      using fr(2) h by (simp add: a'_def honest_app_def)
  qed
  have lg: "open_lg c (one_key nxt) (a_logging a') = Inr (a_logging b) \<and> honest_lg c nxt (a_logging a')"
  proof (cases "a_logging b = a_logging a")
    case True
    then show ?thesis
      using open_lg_unchanged[OF assms(1), of "one_key old" "a_logging a"] fa(3) by (simp add: a'_def)
  next
    case False
    then show ?thesis
      using fr(3) h by (simp add: a'_def honest_app_def)
  qed
  have "b = a'\<lparr>a_env := a_env b, a_proxy := a_proxy b, a_logging := a_logging b\<rparr>"
    using fa(4) by (simp add: a'_def)
  then have "openSpec c (one_key nxt) a' = Inr b"
    unfolding openSpec_fields using env px lg by blast
  moreover have "reencryptSpec c (one_key old) (one_key nxt) ns i a = Inr (a', j)"
    by (simp add: reencryptSpec_def assms(3) r a'_def)
  ultimately show ?thesis
    using env px lg by (simp add: honest_app_def)
qed

lemma reencryptSpecs_ok:
  assumes "gcm_ok c" "nonces_ok ns"
  shows "list_all2 (\<lambda>(d, a) (d', b). d = d' \<and> openSpec c (one_key old) a = Inr b) specs S \<Longrightarrow>
    \<exists>specs' j. reencryptSpecs c (one_key old) (one_key nxt) ns i specs = Inr (specs', j) \<and>
      list_all2 (\<lambda>(d, a) (d', b). d = d' \<and> openSpec c (one_key nxt) a = Inr b) specs' S \<and>
      (\<forall>(d, a) \<in> set specs'. honest_app c nxt a)"
proof (induction specs arbitrary: i S)
  case (Cons x specs)
  obtain d a where x: "x = (d, a)"
    by fastforce
  then obtain b S' where S: "S = (d, b) # S'" "openSpec c (one_key old) a = Inr b"
    "list_all2 (\<lambda>(d, a) (d', b). d = d' \<and> openSpec c (one_key old) a = Inr b) specs S'"
    using Cons.prems by (auto simp: list_all2_Cons1)
  obtain a' j where a': "reencryptSpec c (one_key old) (one_key nxt) ns i a = Inr (a', j)" "openSpec c (one_key nxt) a' = Inr b" "honest_app c nxt a'"
    using reencryptSpec_ok[OF assms S(2)] by blast
  obtain specs' k where rest: "reencryptSpecs c (one_key old) (one_key nxt) ns j specs = Inr (specs', k)"
    "list_all2 (\<lambda>(d, a) (d', b). d = d' \<and> openSpec c (one_key nxt) a = Inr b) specs' S'" "\<forall>(d, a) \<in> set specs'. honest_app c nxt a"
    using Cons.IH[OF S(3)] by blast
  show ?case
    using a' rest by (intro exI[of _ "(d, a') # specs'"]) (simp add: x S(1))
qed simp

lemma readColumn_write:
  "readColumn (writeColumn col key v s) col' =
     (if col' = col then map (\<lambda>(k, x). if k = key then (k, v) else (k, x)) (readColumn s col) else readColumn s col')"
  by (cases col; cases col') (auto split: prod.splits)

lemma writeColumn_specs [simp]: "sd_specs (writeColumn col key v s) = sd_specs s"
  by (cases col) simp_all

lemma map_other_keys: "key \<notin> fst ` set rows \<Longrightarrow> map (\<lambda>(k, x). if k = key then (k, v) else (k, x)) rows = rows"
  by (induction rows) auto

abbreviation rows_show :: "gcm \<Rightarrow> bytes \<Rightarrow> sealedColumn \<Rightarrow> (string \<times> string) list \<Rightarrow> (string \<times> string) list \<Rightarrow> bool" where
  "rows_show c k col \<equiv> list_all2 (\<lambda>(key, v) (key', p). key = key' \<and> unseal c (one_key k) (column_name col key) v = Inr p)"

lemma reencryptColumn_ok:
  assumes "gcm_ok c" "nonces_ok ns"
  shows "rows_show c old col vals P \<Longrightarrow> readColumn s col = before @ vals \<Longrightarrow> distinct (map fst (readColumn s col)) \<Longrightarrow>
    \<exists>s' j new. reencryptColumn c (one_key old) (one_key nxt) ns col i vals s = Inr (s', j) \<and>
      readColumn s' col = before @ new \<and> rows_show c nxt col new P \<and> (\<forall>(key, v) \<in> set new. honest_value c nxt (column_name col key) v) \<and>
      map fst new = map fst vals \<and> (\<forall>col'. col' \<noteq> col \<longrightarrow> readColumn s' col' = readColumn s col') \<and> sd_specs s' = sd_specs s"
proof (induction vals arbitrary: P before s i)
  case Nil
  then show ?case by auto
next
  case (Cons x rest)
  obtain key v where x: "x = (key, v)"
    by fastforce
  then obtain p P' where P: "P = (key, p) # P'" "unseal c (one_key old) (column_name col key) v = Inr p" "rows_show c old col rest P'"
    using Cons.prems(1) by (auto simp: list_all2_Cons1)
  define w where "w = seal c (one_key nxt) (ns i) (column_name col key) p"
  have n: "length (ns i) = NonceSize"
    using assms(2) by (simp add: nonces_ok_def)
  have w: "unseal c (one_key nxt) (column_name col key) w = Inr p" "honest_value c nxt (column_name col key) w"
    using unseal_seal[OF assms(1) n] honest_value_seal[OF n, of c "one_key nxt"] by (simp_all add: w_def)
  have keys: "key \<notin> fst ` set before" "key \<notin> fst ` set rest"
    using Cons.prems(2,3) x by auto
  have read: "readColumn (writeColumn col key w s) col = (before @ [(key, w)]) @ rest"
    using keys by (simp add: readColumn_write Cons.prems(2) x map_other_keys)
  moreover have "distinct (map fst (readColumn (writeColumn col key w s) col))"
    unfolding read using Cons.prems(2,3) x by simp
  ultimately obtain s' j new where IH: "reencryptColumn c (one_key old) (one_key nxt) ns col (i + 1) rest (writeColumn col key w s) = Inr (s', j)"
    "readColumn s' col = (before @ [(key, w)]) @ new" "rows_show c nxt col new P'"
    "\<forall>(key, v) \<in> set new. honest_value c nxt (column_name col key) v" "map fst new = map fst rest"
    "\<forall>col'. col' \<noteq> col \<longrightarrow> readColumn s' col' = readColumn (writeColumn col key w s) col'"
    "sd_specs s' = sd_specs (writeColumn col key w s)"
    using Cons.IH[OF P(3)] by blast
  show ?case
    using IH w by (intro exI[of _ s'] exI[of _ j] exI[of _ "(key, w) # new"]) (auto simp: x P readColumn_write w_def[symmetric])
qed

lemma reencryptColumns_ok:
  assumes "gcm_ok c" "nonces_ok ns"
  shows "distinct cols \<Longrightarrow> \<forall>col \<in> set cols. rows_show c old col (readColumn s col) (C col) \<Longrightarrow> keys_distinct s \<Longrightarrow>
    \<exists>s' j. reencryptColumns c (one_key old) (one_key nxt) ns cols i s = Inr (s', j) \<and>
      (\<forall>col \<in> set cols. rows_show c nxt col (readColumn s' col) (C col) \<and>
         (\<forall>(key, v) \<in> set (readColumn s' col). honest_value c nxt (column_name col key) v)) \<and>
      (\<forall>col. col \<notin> set cols \<longrightarrow> readColumn s' col = readColumn s col) \<and> keys_distinct s' \<and> sd_specs s' = sd_specs s"
proof (induction cols arbitrary: s i)
  case Nil
  then show ?case by auto
next
  case (Cons col cols)
  have here: "rows_show c old col (readColumn s col) (C col)" "distinct (map fst (readColumn s col))"
    using Cons.prems by (auto simp: keys_distinct_def)
  obtain s1 j new where s1: "reencryptColumn c (one_key old) (one_key nxt) ns col i (readColumn s col) s = Inr (s1, j)"
    "readColumn s1 col = new" "rows_show c nxt col new (C col)" "\<forall>(key, v) \<in> set new. honest_value c nxt (column_name col key) v"
    "map fst new = map fst (readColumn s col)" "\<forall>col'. col' \<noteq> col \<longrightarrow> readColumn s1 col' = readColumn s col'" "sd_specs s1 = sd_specs s"
    using reencryptColumn_ok[OF assms here(1) _ here(2), of "[]" nxt i] by auto
  have "distinct (map fst (readColumn s1 col'))" for col'
    using s1(2,5,6) Cons.prems(3) by (cases "col' = col") (simp_all add: keys_distinct_def)
  then have "keys_distinct s1"
    by (simp add: keys_distinct_def)
  moreover have "\<forall>col' \<in> set cols. rows_show c old col' (readColumn s1 col') (C col')"
    using Cons.prems(1,2) s1(6) by auto
  ultimately obtain s' j' where s': "reencryptColumns c (one_key old) (one_key nxt) ns cols j s1 = Inr (s', j')"
    "\<forall>col \<in> set cols. rows_show c nxt col (readColumn s' col) (C col) \<and>
       (\<forall>(key, v) \<in> set (readColumn s' col). honest_value c nxt (column_name col key) v)"
    "\<forall>col. col \<notin> set cols \<longrightarrow> readColumn s' col = readColumn s1 col" "keys_distinct s'" "sd_specs s' = sd_specs s1"
    using Cons.IH[of s1 j] Cons.prems(1) by auto
  have "readColumn s' col = new"
    using s'(3) s1(2) Cons.prems(1) by simp
  then show ?case
    using s1 s' by (intro exI[of _ s'] exI[of _ j']) auto
qed

lemma set_sealedColumns: "set sealedColumns = UNIV" "distinct sealedColumns"
  using sealedColumn.exhaust by (auto simp: sealedColumns_def)

lemma readColumn_specs [simp]: "readColumn (s\<lparr>sd_specs := x\<rparr>) col = readColumn s col"
  by (cases col) simp_all

lemma reencrypt_ok:
  assumes "gcm_ok c" "nonces_ok ns" "under c old s P" "keys_distinct s"
  shows "\<exists>s'. reencrypt c old nxt ns s = Inr s' \<and> under c nxt s' P \<and> keys_distinct s'"
proof -
  have shown: "shows_as c (one_key old) s P"
    using assms(3) by (simp add: under_def)
  obtain s1 j where s1: "reencryptColumns c (one_key old) (one_key nxt) ns sealedColumns 0 s = Inr (s1, j)"
    "\<forall>col. rows_show c nxt col (readColumn s1 col) (fst P col) \<and> (\<forall>(key, v) \<in> set (readColumn s1 col). honest_value c nxt (column_name col key) v)"
    "keys_distinct s1" "sd_specs s1 = sd_specs s"
    using reencryptColumns_ok[OF assms(1,2) set_sealedColumns(2) _ assms(4), of old "fst P" nxt 0] shown
    unfolding shows_as_def set_sealedColumns(1) by auto
  obtain specs' k where specs: "reencryptSpecs c (one_key old) (one_key nxt) ns j (sd_specs s) = Inr (specs', k)"
    "list_all2 (\<lambda>(d, a) (d', b). d = d' \<and> openSpec c (one_key nxt) a = Inr b) specs' (snd P)" "\<forall>(d, a) \<in> set specs'. honest_app c nxt a"
    using reencryptSpecs_ok[OF assms(1,2), of old "sd_specs s" "snd P" nxt j] shown unfolding shows_as_def by blast
  have "reencrypt c old nxt ns s = Inr (s1\<lparr>sd_specs := specs'\<rparr>)"
    using s1(1,4) specs(1) by (simp add: reencrypt_def)
  moreover have "under c nxt (s1\<lparr>sd_specs := specs'\<rparr>) P"
    using s1(2) specs(2,3) by (simp add: under_def shows_as_def honest_def)
  moreover have "keys_distinct (s1\<lparr>sd_specs := specs'\<rparr>)"
    using s1(3) by (simp add: keys_distinct_def)
  ultimately show ?thesis
    by blast
qed

subsection \<open>Which key fits\<close>

lemma list_all2_lefts: "list_all2 P xs ys \<Longrightarrow> x \<in> set xs \<Longrightarrow> \<exists>y. P x y"
  by (induction rule: list_all2_induct) auto

lemma keyFits_under:
  assumes "under c k s P"
  shows "keyFits c k s"
proof -
  have "opens_as c (one_key k) (column_name col key) v" if "(key, v) \<in> set (readColumn s col)" for col key v
  proof -
    have "rows_show c k col (readColumn s col) (fst P col)"
      using assms by (simp add: under_def shows_as_def)
    from list_all2_lefts[OF this that] show ?thesis
      by (auto simp: opens_as_def)
  qed
  moreover have "\<exists>b. openSpec c (one_key k) a = Inr b" if "(d, a) \<in> set (sd_specs s)" for d a
  proof -
    have "list_all2 (\<lambda>(d, a) (d', b). d = d' \<and> openSpec c (one_key k) a = Inr b) (sd_specs s) (snd P)"
      using assms by (simp add: under_def shows_as_def)
    from list_all2_lefts[OF this that] show ?thesis
      by auto
  qed
  ultimately show ?thesis
    unfolding keyFits_def list_all_iff by fastforce
qed

lemma openSpec_other:
  assumes "gcm_ok c" "honest_app c k a" "k' \<noteq> k" "openSpec c (one_key k') a = Inr b"
  shows "openSpec c (one_key k) a = Inr b" "honest_app c k' a"
proof -
  note f = openSpec_fieldsD[OF assms(4)]
  have shut: "honest_value c k name v \<Longrightarrow> unseal c (one_key k') name v \<noteq> Inr p" for name v p
    using honest_value_shut[OF assms(1), of k name v "one_key k'"] assms(3) by auto
  have no_env: "a_env a = []"
    using f(1) assms(2) shut by (cases "a_env a") (auto simp: honest_app_def honest_env_def split: if_splits sum.splits)
  then have env: "open_env c (one_key k) (a_env a) = Inr (a_env b)"
    using f(1) by simp
  have no_auth: "px_auth p = []" if p: "a_proxy a = Some p" for p
  proof (cases "px_auth p")
    case (Cons x xs)
    then have "honest_value c k (passwordName 0) (ba_password x)"
      using assms(2) p by (auto simp: honest_app_def honest_px_def)
    then show ?thesis
      using f(2) p Cons shut by (auto simp: open_px_def split: if_splits sum.splits)
  qed simp
  then have px: "open_px c (one_key k) (a_proxy a) = Inr (a_proxy b)"
    using f(2) by (auto simp: open_px_def split: option.splits)
  have no_secret: "log_names l = [] \<or> \<not> isSealed (option_value (lg_options l) ''splunk-token'')" if l: "a_logging a = Some l" for l
  proof (rule ccontr)
    assume n: "\<not> ?thesis"
    then have "honest_value c k (logOptionName ''splunk-token'') (option_value (lg_options l) ''splunk-token'')"
      using assms(2) l log_names_cases[of l] by (auto simp: honest_app_def honest_lg_def)
    then show False
      using f(3) n shut unfolding l open_lg_def option.case open_options_one[OF log_names_cases] by (auto split: sum.splits)
  qed
  have lg: "open_lg c (one_key k) (a_logging a) = Inr (a_logging b)"
  proof (cases "a_logging a")
    case (Some l)
    then show ?thesis
      using f(3) no_secret unfolding Some open_lg_def option.case open_options_one[OF log_names_cases] by (auto split: sum.splits)
  qed (use f(3) in \<open>simp add: open_lg_def\<close>)
  show "openSpec c (one_key k) a = Inr b"
    unfolding openSpec_fields using env px lg f(4) by blast
  have "honest_lg c k' (a_logging a)"
    unfolding honest_lg_def
  proof (intro allI ballI impI)
    fix l n
    assume "a_logging a = Some l" "n \<in> set (log_names l)" "isSealed (option_value (lg_options l) n)"
    then show "honest_value c k' (logOptionName n) (option_value (lg_options l) n)"
      using no_secret[of l] log_names_cases[of l] by auto
  qed
  then show "honest_app c k' a"
    using no_env no_auth by (simp add: honest_app_def honest_env_def honest_px_def)
qed

lemma keyFits_other_empty:
  assumes "gcm_ok c" "under c k s P" "keyFits c k' s" "k' \<noteq> k"
  shows "readColumn s col = []"
proof (cases "readColumn s col")
  case (Cons x xs)
  obtain key v where x: "x = (key, v)"
    by fastforce
  then have "honest_value c k (column_name col key) v"
    using assms(2) Cons by (fastforce simp: under_def honest_def dest: spec[of _ col])
  moreover have "opens_as c (one_key k') (column_name col key) v"
    using assms(3) Cons x unfolding keyFits_def list_all_iff set_sealedColumns(1) by fastforce
  ultimately show ?thesis
    using honest_value_shut[OF assms(1), of k "column_name col key" v "one_key k'"] assms(4) by (auto simp: opens_as_def)
qed simp

lemma keyFits_other:
  assumes "gcm_ok c" "under c k s P" "keyFits c k' s"
  shows "under c k' s P"
proof (cases "k' = k")
  case False
  note empty = keyFits_other_empty[OF assms False]
  have specs: "honest_app c k a" "\<exists>b. openSpec c (one_key k') a = Inr b" if "(d, a) \<in> set (sd_specs s)" for d a
  proof -
    show "honest_app c k a"
      using that assms(2) by (auto simp: under_def honest_def)
    show "\<exists>b. openSpec c (one_key k') a = Inr b"
      using that assms(3) unfolding keyFits_def list_all_iff by (cases "openSpec c (one_key k') a") auto
  qed
  have same: "openSpec c (one_key k') a = openSpec c (one_key k) a \<and> honest_app c k' a" if "(d, a) \<in> set (sd_specs s)" for d a
    using specs[OF that] openSpec_other[OF assms(1) _ False] by fastforce
  have "honest c k' s"
    using same by (auto simp: honest_def empty)
  moreover have "shows_as c (one_key k') s P"
  proof -
    have "list_all2 (\<lambda>(d, a) (d', b). d = d' \<and> openSpec c (one_key k) a = Inr b) (sd_specs s) (snd P)"
      using assms(2) by (simp add: under_def shows_as_def)
    then have "list_all2 (\<lambda>(d, a) (d', b). d = d' \<and> openSpec c (one_key k') a = Inr b) (sd_specs s) (snd P)"
      using same by (auto simp: list_all2_conv_all_nth split_beta) (metis nth_mem prod.collapse)+
    then show ?thesis
      using assms(2) by (simp add: under_def shows_as_def empty)
  qed
  ultimately show ?thesis
    by (simp add: under_def)
qed (use assms(2) in simp)

lemma legacy_env_sealed:
  "open_env c (one_key (kr_current ring)) env = Inr out \<Longrightarrow> legacy_env c ring ns i env = Inr (env, i)"
  by (induction env arbitrary: out) (auto dest!: unseal_current split: if_splits sum.splits)

lemma legacy_specs_sealed:
  "list_all2 (\<lambda>(d, a) (d', b). d = d' \<and> openSpec c (one_key (kr_current ring)) a = Inr b) specs S \<Longrightarrow>
    legacy_specs c ring ns i specs = Inr specs"
proof (induction specs arbitrary: S)
  case (Cons x specs)
  obtain d a where x: "x = (d, a)"
    by fastforce
  obtain b S' where "openSpec c (one_key (kr_current ring)) a = Inr b"
    "list_all2 (\<lambda>(d, a) (d', b). d = d' \<and> openSpec c (one_key (kr_current ring)) a = Inr b) specs S'"
    using Cons.prems by (auto simp: x list_all2_Cons1)
  then show ?case
    using legacy_env_sealed[OF openSpec_fieldsD(1)] Cons.IH by (simp add: x)
qed simp

section \<open>No key is lost\<close>

text \<open>
  \<open>held\<close> is the key the next start begins with, \<open>pending_key\<close> the one next to the key file. A disk is
  \<open>recoverable\<close> if the data reads as \<open>P\<close> under one of the two.
\<close>

definition held :: "string option \<Rightarrow> disk \<Rightarrow> bytes option" where
  "held cfg d =
     (case cfg of
        Some text \<Rightarrow> ParseEncryptionKey text
      | None \<Rightarrow> (case dk_key d of None \<Rightarrow> None | Some text \<Rightarrow> ParseEncryptionKey (trim_space text)))"

definition pending_key :: "disk \<Rightarrow> bytes option" where
  "pending_key d = (case dk_pending d of None \<Rightarrow> None | Some text \<Rightarrow> ParseEncryptionKey (trim_space text))"

definition recoverable :: "gcm \<Rightarrow> string option \<Rightarrow> plain_view \<Rightarrow> disk \<Rightarrow> bool" where
  "recoverable c cfg P d \<longleftrightarrow> keys_distinct (dk_db d) \<and>
     (\<exists>k. held cfg d = Some k \<and> (under c k (dk_db d) P \<or> (\<exists>k1. pending_key d = Some k1 \<and> under c k1 (dk_db d) P)))"

text \<open>A process whose store was opened with \<open>cfg\<close>: without a pending key it runs on the key that is held.\<close>

definition running :: "string option \<Rightarrow> store \<Rightarrow> disk \<Rightarrow> bool" where
  "running cfg s d \<longleftrightarrow> st_keyFile s \<and> st_fromEnv s = (cfg \<noteq> None) \<and>
     (\<exists>ring. st_ring s = Some ring \<and> (dk_pending d = None \<longrightarrow> held cfg d = Some (kr_current ring)))"

definition env_ok :: "rot_env \<Rightarrow> bool" where
  "env_ok e \<longleftrightarrow> nonces_ok (re_nonces e) \<and> (\<forall>n. length (re_key e n) = EncryptionKeySize)"

lemma trim_left_visible: "s \<noteq> [] \<Longrightarrow> 33 \<le> byte_val (hd s) \<Longrightarrow> byte_val (hd s) \<le> 126 \<Longrightarrow> trim_left_space s = s"
  by (cases s) (simp_all add: space_width_def split: list.splits)

lemma trim_key_text: "k \<noteq> [] \<Longrightarrow> trim_space (key_text k) = hex_encode k"
proof -
  assume k: "k \<noteq> []"
  let ?h = "hex_encode k"
  have h: "?h \<noteq> []"
    using k by (cases k) simp_all
  have v: "c \<in> set ?h \<Longrightarrow> 33 \<le> byte_val c \<and> byte_val c \<le> 126" for c
    by (rule hex_encode_visible)
  have "trim_left_space (key_text k) = key_text k"
    using h v[of "hd ?h"] by (intro trim_left_visible) (simp_all add: key_text_def)
  moreover have "trim_right_space (key_text k) = trim_right_space ?h"
    by (subst trim_right_space.simps) (simp add: key_text_def space_suffix_def space_width_def)
  moreover have "trim_right_space ?h = ?h"
  proof -
    have "list_all visible ?h"
      using v by (auto simp: list_all_iff visible_def)
    then show ?thesis
      using trim_space_visible[of ?h] trim_left_visible[of ?h] h v[of "hd ?h"] by (simp add: trim_space_def)
  qed
  ultimately show ?thesis
    by (simp add: trim_space_def)
qed

lemma parse_key_text: "length k = EncryptionKeySize \<Longrightarrow> ParseEncryptionKey (trim_space (key_text k)) = Some k"
  by (cases "k = []") (simp_all add: ParseEncryptionKey_def trim_key_text EncryptionKeySize_def)

lemma perform_cases:
  assumes "perform e half full w = (st, w')"
  shows "st = Done \<Longrightarrow> fst w' = full (fst w)" "fst w' = full (fst w) \<or> fst w' = half (snd w) (fst w)"
    "re_outcome e (snd w) = Works \<Longrightarrow> st = Done"
  using assms by (auto simp: perform_def split: prod.splits outcome.splits)

lemma access_cases:
  assumes "access e w = (st, w')"
  shows "fst w' = fst w" "re_outcome e (snd w) = Works \<Longrightarrow> st = Done"
  using perform_cases[OF assms[unfolded access_def]] by auto

lemma held_pending [simp]: "held cfg (d\<lparr>dk_pending := x\<rparr>) = held cfg d" "held cfg (d\<lparr>dk_db := y\<rparr>) = held cfg d"
  by (simp_all add: held_def split: option.splits)

lemma pending_key_simps [simp]: "pending_key (d\<lparr>dk_db := y\<rparr>) = pending_key d" "pending_key (d\<lparr>dk_key := z\<rparr>) = pending_key d"
  by (simp_all add: pending_key_def)

lemma pending_key_written: "length k = EncryptionKeySize \<Longrightarrow> dk_pending d = Some (key_text k) \<Longrightarrow> pending_key d = Some k"
  by (simp add: pending_key_def parse_key_text)

lemma recoverable_held: "held cfg d = Some k \<Longrightarrow> under c k (dk_db d) P \<Longrightarrow> keys_distinct (dk_db d) \<Longrightarrow> recoverable c cfg P d"
  by (auto simp: recoverable_def)

lemma recoverable_pending:
  "held cfg d = Some k \<Longrightarrow> pending_key d = Some k1 \<Longrightarrow> under c k1 (dk_db d) P \<Longrightarrow> keys_distinct (dk_db d) \<Longrightarrow> recoverable c cfg P d"
  by (auto simp: recoverable_def)

text \<open>
  Giving up: what is left is the state before, or the state before without the pending key; after a commit
  that was reached, the latter only if the old key opens the data.
\<close>

lemma give_up_cases:
  assumes "give_up c e old committed w = (er, w')"
  shows "fst w' = fst w \<or> fst w' = (fst w)\<lparr>dk_pending := None\<rparr> \<and> (committed \<longrightarrow> keyFits c old (dk_db (fst w)))"
  using assms unfolding give_up_def removePending_def
  by (auto split: if_splits prod.splits dest!: access_cases(1) perform_cases(2))

lemma rename_held:
  assumes "length k = EncryptionKeySize" "dk_pending d = Some (key_text k)"
  shows "held None (d\<lparr>dk_key := dk_pending d, dk_pending := None\<rparr>) = Some k"
  using assms by (simp add: held_def parse_key_text)

lemma rotate_keeps_key:
  assumes c: "gcm_ok c" and e: "env_ok e" and rec: "recoverable c cfg P d" and run: "running cfg s d" and none: "dk_pending d = None"
    and rot: "RotateKey c e s (d, n) = (res, s', w')"
  shows "recoverable c cfg P (fst w') \<and> running cfg s' (fst w')"
proof -
  obtain ring where ring: "st_ring s = Some ring" "st_keyFile s" "st_fromEnv s = (cfg \<noteq> None)" "held cfg d = Some (kr_current ring)"
    using run none by (auto simp: running_def)
  define old where "old = kr_current ring"
  have u: "under c old (dk_db d) P" "keys_distinct (dk_db d)" and h: "held cfg d = Some old"
    using rec none ring(4) by (auto simp: recoverable_def pending_key_def old_def)
  define key where "key = re_key e n"
  have len: "length key = EncryptionKeySize" and ns: "nonces_ok (re_nonces e)"
    using e by (simp_all add: env_ok_def key_def)
  obtain t where t: "reencrypt c old key (re_nonces e) (dk_db d) = Inr t" "under c key t P" "keys_distinct t"
    using reencrypt_ok[OF c ns u] by blast
  text \<open>The states the process and the disk can be left in.\<close>
  have before: "recoverable c cfg P d' \<and> running cfg s d'" if "d' = d\<lparr>dk_pending := x\<rparr>" for d' x
    using that u h ring by (auto simp: old_def running_def intro!: recoverable_held)
  have written: "recoverable c cfg P d' \<and> running cfg s d' \<and> running cfg (s\<lparr>st_ring := Some (rotate key ring)\<rparr>) d'"
    if "d' = d\<lparr>dk_pending := Some (key_text key), dk_db := t\<rparr>" for d'
  proof -
    have "pending_key d' = Some key" "held cfg d' = Some old" "dk_db d' = t" "dk_pending d' \<noteq> None"
      using that h by (simp_all add: pending_key_written[OF len])
    then show ?thesis
      using t(2,3) ring by (auto simp: running_def intro: recoverable_pending)
  qed
  have moved: "recoverable c None P d' \<and> running None (s\<lparr>st_ring := Some (rotate key ring)\<rparr>) d'"
    if "d' = d\<lparr>dk_key := Some (key_text key), dk_pending := None, dk_db := t\<rparr>" "cfg = None" for d'
  proof -
    have "held None d' = Some key"
      using that(1) len by (simp add: held_def parse_key_text)
    then show ?thesis
      using that t(2,3) ring by (auto simp: running_def intro!: recoverable_held)
  qed
  have gave_up: "recoverable c cfg P d' \<and> running cfg s d'"
    if "d' = d\<lparr>dk_pending := None, dk_db := t\<rparr>" "keyFits c old t" for d'
  proof -
    have "under c old t P"
      by (rule keyFits_other[OF c t(2) that(2)])
    then show ?thesis
      using that(1) h t(3) ring by (auto simp: running_def old_def intro!: recoverable_held)
  qed
  obtain seen w1 where w1: "(if st_fromEnv s then access e (d, n) else (Failed, (d, n))) = (seen, w1)"
    by (rule prod.exhaust)
  then have d1: "fst w1 = d"
    by (auto split: if_splits dest: access_cases(1))
  obtain st2 w2 where w2: "writePending e key w1 = (st2, w2)"
    by (rule prod.exhaust)
  then have d2: "st2 = Done \<Longrightarrow> fst w2 = d\<lparr>dk_pending := Some (key_text key)\<rparr>" "\<exists>x. fst w2 = d\<lparr>dk_pending := x\<rparr>"
    using perform_cases[OF w2[unfolded writePending_def]] d1 by auto
  obtain st3 w3 where w3: "access e w2 = (st3, w3)"
    by (rule prod.exhaust)
  have d3: "fst w3 = fst w2"
    by (rule access_cases(1)[OF w3])
  have rot': "(if seen = Crashed then (Inl Dead, s, w1)
      else if st2 = Crashed then (Inl Dead, s, w2)
      else if st2 = Failed then (Inl KeyNotWritten, s, w2)
      else if st3 = Crashed then (Inl Dead, s, w3)
      else case (if st3 = Failed then None else Some t) of
          None \<Rightarrow> (case give_up c e old False w3 of (er, w4) \<Rightarrow> (Inl er, s, w4))
        | Some t \<Rightarrow>
            (case commitTx e t w3 of (st4, w4) \<Rightarrow>
             if st4 = Crashed then (Inl Dead, s, w4)
             else if st4 = Failed then (case give_up c e old True w4 of (er, w5) \<Rightarrow> (Inl er, s, w5))
             else
               let s' = s\<lparr>st_ring := Some (rotate key ring)\<rparr>
               in if st_fromEnv s then (Inr (), s', w4)
                  else case renamePending e w4 of (st5, w5) \<Rightarrow>
                    (if st5 = Crashed then Inl Dead else if st5 = Failed then Inl KeyNotMoved else Inr (), s', w5))) = (res, s', w')"
  proof -
    have "st2 \<noteq> Crashed \<Longrightarrow> st2 \<noteq> Failed \<Longrightarrow> dk_db (fst w3) = dk_db d"
      using d2(1) d3 by (cases st2) simp_all
    then show ?thesis
      using rot none by (simp add: RotateKey_def ring(1,2) Let_def key_def[symmetric] old_def[symmetric] len w1 w2 w3 d1 t(1) cong: if_cong)
  qed
  consider (early) "s' = s" "fst w' = d \<or> fst w' = fst w2" | (late) "st2 = Done" "seen \<noteq> Crashed" "st3 \<noteq> Crashed"
    using rot' d1 d3 by (cases st2; cases "seen = Crashed"; cases "st3 = Crashed") auto
  then show ?thesis
  proof cases
    case early
    then show ?thesis
      using before[of d "dk_pending d"] d2(2) before by auto
  next
    case late
    then have w3': "fst w3 = d\<lparr>dk_pending := Some (key_text key)\<rparr>"
      using d2(1) d3 by simp
    show ?thesis
    proof (cases "st3 = Failed")
      case True
      obtain er w4 where w4: "give_up c e old False w3 = (er, w4)"
        by (rule prod.exhaust)
      then have "s' = s" "w' = w4"
        using rot' late True by simp_all
      then show ?thesis
        using give_up_cases[OF w4] before w3' by auto
    next
      case False
      obtain st4 w4 where w4: "commitTx e t w3 = (st4, w4)"
        by (rule prod.exhaust)
      have d4: "st4 = Done \<Longrightarrow> fst w4 = d\<lparr>dk_pending := Some (key_text key), dk_db := t\<rparr>"
        "fst w4 = d\<lparr>dk_pending := Some (key_text key), dk_db := t\<rparr> \<or> fst w4 = d\<lparr>dk_pending := Some (key_text key)\<rparr>"
        using perform_cases[OF w4[unfolded commitTx_def]] w3' by auto
      show ?thesis
      proof (cases st4)
        case Crashed
        then have "s' = s" "w' = w4"
          using rot' late False w4 by simp_all
        then show ?thesis
          using d4(2) before written by blast
      next
        case Failed
        obtain er w5 where w5: "give_up c e old True w4 = (er, w5)"
          by (rule prod.exhaust)
        then have s': "s' = s" "w' = w5"
          using rot' late False w4 Failed by simp_all
        show ?thesis
          using d4(2)
        proof
          assume w4': "fst w4 = d\<lparr>dk_pending := Some (key_text key), dk_db := t\<rparr>"
          then have "fst w5 = d\<lparr>dk_pending := Some (key_text key), dk_db := t\<rparr> \<or>
              fst w5 = d\<lparr>dk_pending := None, dk_db := t\<rparr> \<and> keyFits c old t"
            using give_up_cases[OF w5] by auto
          then show ?thesis
            using written gave_up s' by blast
        next
          assume "fst w4 = d\<lparr>dk_pending := Some (key_text key)\<rparr>"
          then show ?thesis
            using give_up_cases[OF w5] before s' by auto
        qed
      next
        case Done
        then have w4': "fst w4 = d\<lparr>dk_pending := Some (key_text key), dk_db := t\<rparr>"
          by (rule d4(1))
        show ?thesis
        proof (cases "cfg = None")
          case False
          then have "s' = s\<lparr>st_ring := Some (rotate key ring)\<rparr>" "w' = w4"
            using rot' late \<open>st3 \<noteq> Failed\<close> w4 Done ring(3) by simp_all
          then show ?thesis
            using written w4' by blast
        next
          case True
          obtain st5 w5 where w5: "renamePending e w4 = (st5, w5)"
            by (rule prod.exhaust)
          then have s': "s' = s\<lparr>st_ring := Some (rotate key ring)\<rparr>" "w' = w5"
            using rot' late False w4 Done ring(3) True by simp_all
          have "fst w5 = d\<lparr>dk_key := Some (key_text key), dk_pending := None, dk_db := t\<rparr> \<or>
              fst w5 = d\<lparr>dk_pending := Some (key_text key), dk_db := t\<rparr>"
            using perform_cases(2)[OF w5[unfolded renamePending_def]] w4' by auto
          then show ?thesis
            using written moved s' True by blast
        qed
      qed
    qed
  qed
qed

subsection \<open>The start\<close>

lemma resolve_held:
  assumes "held cfg d = Some k" "ResolveEncryptionKey e cfg (d, n) = (res, w')"
  shows "fst w' = d" "res = Inr k' \<Longrightarrow> k' = k" "(\<And>m. re_outcome e m = Works) \<Longrightarrow> res = Inr k"
proof -
  obtain st w1 where w1: "access e (d, n) = (st, w1)"
    by (rule prod.exhaust)
  note a = access_cases[OF w1]
  have r: "fst w' = d \<and> (res = Inr k \<or> (\<exists>er. res = Inl er) \<and> (st = Crashed \<or> st = Failed))"
  proof (cases cfg)
    case None
    then obtain content where "dk_key d = Some content" "ParseEncryptionKey (trim_space content) = Some k"
      using assms(1) by (auto simp: held_def split: option.splits)
    then show ?thesis
      using assms(2) a(1) None by (auto simp: ResolveEncryptionKey_def w1 split: if_splits)
  next
    case (Some content)
    then show ?thesis
      using assms by (auto simp: ResolveEncryptionKey_def held_def)
  qed
  then show "fst w' = d" "res = Inr k' \<Longrightarrow> k' = k"
    by auto
  show "res = Inr k" if "\<And>m. re_outcome e m = Works"
    using r a(2) that by simp
qed

text \<open>
  How \<open>settleRotation\<close> ends: with an error and the disk as it was, or short of the pending key that
  the current key has made superfluous, or with the pending key in the place of the key file; or with the
  store and a current key under which the data is.
\<close>

definition settled :: "gcm \<Rightarrow> string option \<Rightarrow> plain_view \<Rightarrow> rot_err + store \<Rightarrow> disk \<Rightarrow> bool" where
  "settled c cfg P res d \<longleftrightarrow> recoverable c cfg P d \<and>
    (\<forall>s. res = Inr s \<longrightarrow> dk_pending d = None \<and> running cfg s d \<and> (\<exists>ring. st_ring s = Some ring \<and> under c (kr_current ring) (dk_db d) P))"

definition opened_or_told :: "gcm \<Rightarrow> string option \<Rightarrow> plain_view \<Rightarrow> rot_err + store \<Rightarrow> disk \<Rightarrow> bool" where
  "opened_or_told c cfg P res d \<longleftrightarrow>
    (\<exists>s. res = Inr s) \<or> cfg \<noteq> None \<and> res = Inl KeptOldKeyInEnvironment \<and> (\<exists>k1. pending_key d = Some k1 \<and> under c k1 (dk_db d) P)"

lemma settle_keeps_key:
  fixes s0 :: store
  assumes c: "gcm_ok c" and rec: "recoverable c cfg P d" and h: "held cfg d = Some k" and len: "length k = EncryptionKeySize"
    and s0: "s0 = \<lparr>st_ring = Some (one_key k), st_keyFile = True, st_fromEnv = cfg \<noteq> None\<rparr>"
    and settle: "settleRotation c e s0 (d, n) = (res, w')"
  shows "settled c cfg P res (fst w') \<and> ((\<forall>m. re_outcome e m = Works) \<longrightarrow> opened_or_told c cfg P res (fst w'))"
proof -
  obtain k0 where k0: "keys_distinct (dk_db d)" "under c k0 (dk_db d) P" "k0 = k \<or> pending_key d = Some k0"
    using rec h by (auto simp: recoverable_def)
  have fits: "under c k' (dk_db d) P" if "keyFits c k' (dk_db d)" for k'
    by (rule keyFits_other[OF c k0(2) that])
  have here: "recoverable c cfg P d'" if "d' = d" for d'
    using rec that by simp
  have mine_ok: "recoverable c cfg P d' \<and> dk_pending d' = None \<and> running cfg s0 d' \<and> (\<exists>ring. st_ring s0 = Some ring \<and> under c (kr_current ring) (dk_db d') P)"
    if "d' = d\<lparr>dk_pending := None\<rparr>" "under c k (dk_db d) P" for d'
    using that h k0(1) by (auto simp: s0 running_def intro!: recoverable_held)
  obtain st1 w1 where w1: "access e (d, n) = (st1, w1)"
    by (rule prod.exhaust)
  note a1 = access_cases[OF w1]
  show ?thesis
  proof (cases "dk_pending d")
    case None
    then have "under c k (dk_db d) P"
      using k0(2,3) by (auto simp: pending_key_def)
    moreover have "d = d\<lparr>dk_pending := None\<rparr>"
      using None by simp
    ultimately have "recoverable c cfg P d \<and> dk_pending d = None \<and> running cfg s0 d \<and> (\<exists>ring. st_ring s0 = Some ring \<and> under c (kr_current ring) (dk_db d) P)"
      by (intro mine_ok)
    moreover have "settleRotation c e s0 (d, n) = (if st1 = Crashed then (Inl Dead, w1) else if st1 = Failed then (Inl ReadFailed, w1) else (Inr s0, w1))"
      by (simp add: settleRotation_def s0 w1 a1(1) None)
    ultimately show ?thesis
      using settle a1 by (auto simp: settled_def opened_or_told_def split: if_splits)
  next
    case (Some content)
    obtain st2 w2 where w2: "access e w1 = (st2, w2)"
      by (rule prod.exhaust)
    obtain st3 w3 where w3: "removePending e w2 = (st3, w3)"
      by (rule prod.exhaust)
    obtain st4 w4 where w4: "access e w2 = (st4, w4)"
      by (rule prod.exhaust)
    obtain st5 w5 where w5: "renamePending e w4 = (st5, w5)"
      by (rule prod.exhaust)
    note a2 = access_cases[OF w2] and a4 = access_cases[OF w4] and p3 = perform_cases[OF w3[unfolded removePending_def]]
      and p5 = perform_cases[OF w5[unfolded renamePending_def]]
    have d: "fst w1 = d" "fst w2 = d" "fst w4 = d" "fst w3 = d \<or> fst w3 = d\<lparr>dk_pending := None\<rparr>" "st3 = Done \<Longrightarrow> fst w3 = d\<lparr>dk_pending := None\<rparr>"
      "fst w5 = d \<or> fst w5 = d\<lparr>dk_key := dk_pending d, dk_pending := None\<rparr>" "st5 = Done \<Longrightarrow> fst w5 = d\<lparr>dk_key := dk_pending d, dk_pending := None\<rparr>"
      using a1(1) a2(1) a4(1) p3(1,2) p5(1,2) by auto
    have moved_ok: "recoverable c cfg P d' \<and> dk_pending d' = None \<and> running cfg s d' \<and> (\<exists>ring. st_ring s = Some ring \<and> under c (kr_current ring) (dk_db d') P)"
      if "d' = d\<lparr>dk_key := dk_pending d, dk_pending := None\<rparr>" "pending_key d = Some k1" "keyFits c k1 (dk_db d)" "cfg = None"
        "s = s0\<lparr>st_ring := Some (rotate k1 (one_key k))\<rparr>" for d' k1 s
    proof -
      have "held None d' = Some k1"
        using that(1,2) by (simp add: held_def pending_key_def split: option.splits)
      then show ?thesis
        using that fits[OF that(3)] k0(1) by (auto simp: s0 running_def intro!: recoverable_held)
    qed
    have eq: "settleRotation c e s0 (d, n) =
      (if st1 = Crashed then (Inl Dead, w1) else if st1 = Failed then (Inl ReadFailed, w1)
       else if st2 = Crashed then (Inl Dead, w2)
       else if st2 = Done \<and> keyFits c k (dk_db d) then (if st3 = Crashed then Inl Dead else if st3 = Failed then Inl NotSaved else Inr s0, w3)
       else case pending_key d of
           None \<Rightarrow> (Inl KeyMismatch, w2)
         | Some k1 \<Rightarrow>
             if st4 = Crashed then (Inl Dead, w4)
             else if st4 = Failed \<or> \<not> keyFits c k1 (dk_db d) then (Inl KeyMismatch, w4)
             else if cfg \<noteq> None then (Inl KeptOldKeyInEnvironment, w4)
             else (if st5 = Crashed then Inl Dead else if st5 = Failed then Inl NotSaved else Inr (s0\<lparr>st_ring := Some (rotate k1 (one_key k))\<rparr>), w5))"
      unfolding settleRotation_def s0 using Some d
      by (simp only: w1 w2 w3 w4 w5 store.simps option.case prod.case one_key_def keyring.simps pending_key_def if_False not_True_eq_False
          split: option.splits)
    consider (same) er where "res = Inl er" "fst w' = d"
      | (mine) "keyFits c k (dk_db d)" "(\<exists>er. res = Inl er) \<and> (fst w' = d \<or> fst w' = d\<lparr>dk_pending := None\<rparr>) \<or> res = Inr s0 \<and> fst w' = d\<lparr>dk_pending := None\<rparr>"
      | (moved) k1 where "pending_key d = Some k1" "keyFits c k1 (dk_db d)" "cfg = None"
        "(\<exists>er. res = Inl er) \<and> (fst w' = d \<or> fst w' = d\<lparr>dk_key := dk_pending d, dk_pending := None\<rparr>) \<or>
         res = Inr (s0\<lparr>st_ring := Some (rotate k1 (one_key k))\<rparr>) \<and> fst w' = d\<lparr>dk_key := dk_pending d, dk_pending := None\<rparr>"
    proof (cases "st1 = Done \<and> st2 \<noteq> Crashed")
      case False
      then show ?thesis
        using settle[unfolded eq] d(1,2) same by (cases st1; cases st2) auto
    next
      case reads: True
      show ?thesis
      proof (cases "st2 = Done \<and> keyFits c k (dk_db d)")
        case True
        then show ?thesis
          using settle[unfolded eq] reads d(4,5) mine by (cases st3) auto
      next
        case other: False
        show ?thesis
        proof (cases "pending_key d")
          case None
          then show ?thesis
            using settle[unfolded eq] reads other d(2) same by auto
        next
          case (Some k1)
          show ?thesis
          proof (cases "st4 = Done \<and> keyFits c k1 (dk_db d) \<and> cfg = None")
            case True
            then show ?thesis
              using settle[unfolded eq] reads other Some d(6,7) moved by (cases st5) auto
          next
            case False
            then show ?thesis
              using settle[unfolded eq] reads other Some d(3) same by (cases st4) (auto split: if_splits)
          qed
        qed
      qed
    qed
    then have "settled c cfg P res (fst w')"
    proof cases
      case same
      then show ?thesis
        using rec by (simp add: settled_def)
    next
      case mine
      then show ?thesis
        using here mine_ok[OF _ fits[OF mine(1)]] unfolding settled_def by (elim disjE conjE exE) simp_all
    next
      case moved
      then show ?thesis
        using here moved_ok[OF _ moved(1-3) refl] unfolding settled_def by (elim disjE conjE exE) (simp_all add: moved(3))
    qed
    moreover have "opened_or_told c cfg P res (fst w')" if w: "\<forall>m. re_outcome e m = Works"
    proof -
      have "st1 = Done" "st2 = Done" "st3 = Done" "st4 = Done" "st5 = Done"
        using w a1(2) a2(2) a4(2) p3(3) p5(3) by blast+
      moreover have "keyFits c k (dk_db d) \<or> (\<exists>k1. pending_key d = Some k1 \<and> keyFits c k1 (dk_db d))"
        using keyFits_under[OF k0(2)] k0(3) by auto
      ultimately show ?thesis
        using settle[unfolded eq] d(3) fits by (auto simp: opened_or_told_def split: if_splits)
    qed
    ultimately show ?thesis
      by blast
  qed
qed

lemma held_length: "held cfg d = Some k \<Longrightarrow> length k = EncryptionKeySize"
  by (auto simp: held_def ParseEncryptionKey_def split: option.splits if_splits)

lemma legacy_keeps:
  assumes "st_ring s = Some ring" "under c (kr_current ring) (dk_db (fst w)) P" "encryptLegacyEnv c e s w = (res, w')"
  shows "fst w' = fst w" "(\<And>m. re_outcome e m = Works) \<Longrightarrow> res = Inr ()"
proof -
  obtain st w1 where w1: "access e w = (st, w1)"
    by (rule prod.exhaust)
  note a = access_cases[OF w1]
  have "legacy_specs c ring (re_nonces e) 0 (sd_specs (dk_db (fst w))) = Inr (sd_specs (dk_db (fst w)))"
    using assms(2) by (intro legacy_specs_sealed) (auto simp: under_def shows_as_def)
  then have eq: "encryptLegacyEnv c e s w =
     (if st = Crashed then (Inl Dead, w1) else if st = Failed then (Inl ReadFailed, w1)
      else case commitTx e (dk_db (fst w)) w1 of (st2, w2) \<Rightarrow> (if st2 = Crashed then Inl Dead else if st2 = Failed then Inl NotSaved else Inr (), w2))"
    by (simp add: encryptLegacyEnv_def assms(1) w1 a(1) cong: if_cong)
  obtain st2 w2 where w2: "commitTx e (dk_db (fst w)) w1 = (st2, w2)"
    by (rule prod.exhaust)
  note b = perform_cases[OF w2[unfolded commitTx_def]]
  have d: "fst w2 = fst w"
    using b(2) a(1) by auto
  show "fst w' = fst w"
    using assms(3) a(1) d unfolding eq w2 by (auto split: if_splits)
  show "res = Inr ()" if "\<And>m. re_outcome e m = Works"
    using assms(3) a(2) b(3) that unfolding eq w2 by simp
qed

lemma open_keeps_key:
  assumes c: "gcm_ok c" and rec: "recoverable c cfg P d" and op: "Open c e cfg (d, n) = (res, w')"
  shows "settled c cfg P res (fst w') \<and> ((\<forall>m. re_outcome e m = Works) \<longrightarrow> opened_or_told c cfg P res (fst w'))"
proof -
  obtain k where h: "held cfg d = Some k"
    using rec by (auto simp: recoverable_def)
  have len: "length k = EncryptionKeySize"
    by (rule held_length[OF h])
  obtain r1 w1 where w1: "ResolveEncryptionKey e cfg (d, n) = (r1, w1)"
    by (rule prod.exhaust)
  note res1 = resolve_held[OF h w1]
  show ?thesis
  proof (cases r1)
    case (Inl er)
    then have "res = Inl er" "fst w' = d"
      using op res1(1) by (auto simp: Open_def w1)
    then show ?thesis
      using rec res1(3) Inl by (auto simp: settled_def)
  next
    case (Inr k')
    have k': "k' = k"
      using res1(2) Inr by blast
    define s0 where "s0 = \<lparr>st_ring = Some (one_key k), st_keyFile = True, st_fromEnv = cfg \<noteq> None\<rparr>"
    obtain r2 w2 where w2: "settleRotation c e s0 (d, snd w1) = (r2, w2)"
      by (rule prod.exhaust)
    have w1': "w1 = (d, snd w1)"
      using res1(1) by (cases w1) simp
    note settle = settle_keeps_key[OF c rec h len s0_def w2]
    have op': "Open c e cfg (d, n) = (case r2 of Inl er \<Rightarrow> (Inl er, w2) | Inr s \<Rightarrow>
       (case encryptLegacyEnv c e s w2 of (Inl er, w3) \<Rightarrow> (Inl er, w3) | (Inr _, w3) \<Rightarrow> (Inr s, w3)))"
      using w2 w1' by (simp add: Open_def w1 Inr k' len s0_def split: sum.splits)
    show ?thesis
    proof (cases r2)
      case (Inl er)
      then show ?thesis
        using op op' settle by (auto simp: settled_def opened_or_told_def)
    next
      case s: (Inr s)
      then obtain ring where ring: "st_ring s = Some ring" "under c (kr_current ring) (dk_db (fst w2)) P"
        using settle by (auto simp: settled_def)
      obtain r3 w3 where w3: "encryptLegacyEnv c e s w2 = (r3, w3)"
        by (rule prod.exhaust)
      note l = legacy_keeps[OF ring w3]
      have "(res, w') = (case r3 of Inl er \<Rightarrow> (Inl er, w3) | Inr _ \<Rightarrow> (Inr s, w3))"
        using op op' s w3 by (simp split: sum.splits)
      then show ?thesis
        using settle s l by (cases r3) (auto simp: settled_def opened_or_told_def)
    qed
  qed
qed

subsection \<open>The life of an installation\<close>

text \<open>
  The disk and the process, if one runs, through a history: the agent starts, rotates the key, and stops or dies
  at any time, and every call may fail. A start of an agent that runs and a rotation without one do nothing.
\<close>

datatype life_event = Start rot_env nat | Rotate rot_env nat | Halt

fun life_step :: "gcm \<Rightarrow> string option \<Rightarrow> life_event \<Rightarrow> disk \<times> store option \<Rightarrow> disk \<times> store option" where
  "life_step c cfg (Start e n) (d, None) = (case Open c e cfg (d, n) of (Inl _, w) \<Rightarrow> (fst w, None) | (Inr s, w) \<Rightarrow> (fst w, Some s))"
| "life_step c cfg (Rotate e n) (d, Some s) =
     (case RotateKey c e s (d, n) of (res, s', w) \<Rightarrow> (fst w, if res = Inl Dead then None else Some s'))"
| "life_step c cfg Halt (d, p) = (d, None)"
| "life_step c cfg _ x = x"

definition life :: "gcm \<Rightarrow> string option \<Rightarrow> life_event list \<Rightarrow> disk \<times> store option \<Rightarrow> disk \<times> store option" where
  "life c cfg evs x = fold (life_step c cfg) evs x"

text \<open>
  A careful history: a rotation is begun only when no pending key lies there, or is refused because of it, which
  takes a key from the environment and a look at the file that works. The code does not ensure this.
\<close>

fun careful_event :: "life_event \<Rightarrow> disk \<times> store option \<Rightarrow> bool" where
  "careful_event (Rotate e n) (d, Some s) \<longleftrightarrow> dk_pending d = None \<or> st_fromEnv s \<and> re_outcome e n = Works"
| "careful_event _ x \<longleftrightarrow> True"

fun event_env_ok :: "life_event \<Rightarrow> bool" where
  "event_env_ok (Start e n) \<longleftrightarrow> env_ok e"
| "event_env_ok (Rotate e n) \<longleftrightarrow> env_ok e"
| "event_env_ok Halt \<longleftrightarrow> True"

fun careful :: "gcm \<Rightarrow> string option \<Rightarrow> life_event list \<Rightarrow> disk \<times> store option \<Rightarrow> bool" where
  "careful c cfg [] x \<longleftrightarrow> True"
| "careful c cfg (ev # evs) x \<longleftrightarrow> careful_event ev x \<and> careful c cfg evs (life_step c cfg ev x)"

definition alive_ok :: "gcm \<Rightarrow> string option \<Rightarrow> plain_view \<Rightarrow> disk \<times> store option \<Rightarrow> bool" where
  "alive_ok c cfg P x \<longleftrightarrow> recoverable c cfg P (fst x) \<and> (\<forall>s. snd x = Some s \<longrightarrow> running cfg s (fst x))"

lemma rotate_refused:
  assumes "env_ok e" "running cfg s d" "dk_pending d \<noteq> None" "st_fromEnv s" "re_outcome e n = Works"
  shows "\<exists>w'. RotateKey c e s (d, n) = (Inl ErrRotationPending, s, w') \<and> fst w' = d"
  using assms by (auto simp: running_def RotateKey_def access_def perform_def env_ok_def Let_def)

lemma rotation_keeps:
  assumes "gcm_ok c" "env_ok e" "careful_event (Rotate e n) (d, Some s)" "RotateKey c e s (d, n) = (res, s', w')"
    and "recoverable c cfg P d" "running cfg s d"
  shows "recoverable c cfg P (fst w') \<and> running cfg s' (fst w')"
proof (cases "dk_pending d = None")
  case True
  then show ?thesis
    by (rule rotate_keeps_key[OF assms(1,2,5,6) _ assms(4)])
next
  case False
  with assms(3) have "st_fromEnv s" "re_outcome e n = Works"
    by auto
  from rotate_refused[OF assms(2,6) False this, of c]
  obtain w2 where "RotateKey c e s (d, n) = (Inl ErrRotationPending, s, w2)" "fst w2 = d"
    by (elim exE conjE)
  then show ?thesis
    using assms(4-6) by simp
qed

lemma life_step_keeps:
  assumes "gcm_ok c" "event_env_ok ev" "careful_event ev x" "alive_ok c cfg P x"
  shows "alive_ok c cfg P (life_step c cfg ev x)"
proof (cases ev)
  case (Start e n)
  show ?thesis
  proof (cases "snd x")
    case None
    obtain d where x: "x = (d, None)"
      using None by (cases x) simp
    obtain res w' where o: "Open c e cfg (d, n) = (res, w')"
      by (rule prod.exhaust)
    from assms(4) have "recoverable c cfg P d"
      unfolding x by (simp add: alive_ok_def)
    from open_keeps_key[OF assms(1) this o] show ?thesis
      by (cases res) (auto simp: Start x o alive_ok_def settled_def)
  qed (use assms(4) Start in \<open>cases x, simp\<close>)
next
  case (Rotate e n)
  show ?thesis
  proof (cases "snd x")
    case (Some s)
    obtain d where x: "x = (d, Some s)"
      using Some by (cases x) simp
    obtain res s' w' where r: "RotateKey c e s (d, n) = (res, s', w')"
      by (rule prod_cases3)
    have "recoverable c cfg P d" "running cfg s d"
      using assms(4) unfolding x by (simp_all add: alive_ok_def)
    from rotation_keeps[OF assms(1) _ _ r this] show ?thesis
      using assms(2,3) unfolding x Rotate by (auto simp: r alive_ok_def)
  qed (use assms(4) Rotate in \<open>cases x, simp\<close>)
next
  case Halt
  then show ?thesis
    using assms(4) by (cases x) (simp add: alive_ok_def)
qed

lemma life_keeps:
  assumes "gcm_ok c" "list_all event_env_ok evs" "careful c cfg evs x" "alive_ok c cfg P x"
  shows "alive_ok c cfg P (life c cfg evs x)"
  using assms(2-4)
proof (induction evs arbitrary: x)
  case (Cons ev evs)
  then show ?case
    using life_step_keeps[OF assms(1), of ev x cfg P] Cons.IH[of "life_step c cfg ev x"] by (simp add: life_def)
qed (simp add: life_def)

text \<open>
  C31: After every careful history of starts, rotations, failures and crashes at any point, the next start that
  nothing disturbs opens the store and reads the data as it was; or, where the key comes from the environment
  and was rotated, it says so, and the key the data is under lies in the pending file. Careful: no rotation
  is begun while the pending file of an earlier one is there, but for one that is refused because of it.
\<close>

theorem rotation_loses_nothing:
  assumes "gcm_ok c" "recoverable c cfg P d" "list_all event_env_ok evs" "careful c cfg evs (d, None)"
    and "life c cfg evs (d, None) = (d', p)" "\<And>m. re_outcome e m = Works" "Open c e cfg (d', n) = (res, w')"
  shows "(\<exists>s ring. res = Inr s \<and> st_ring s = Some ring \<and> shows_as c ring (dk_db (fst w')) P \<and> dk_pending (fst w') = None) \<or>
    cfg \<noteq> None \<and> res = Inl KeptOldKeyInEnvironment \<and> (\<exists>k. pending_key (fst w') = Some k \<and> shows_as c (one_key k) (dk_db (fst w')) P)"
proof -
  have "alive_ok c cfg P (d, None)"
    using assms(2) by (simp add: alive_ok_def)
  from life_keeps[OF assms(1,3,4) this, unfolded assms(5)]
  have "recoverable c cfg P d'"
    by (simp add: alive_ok_def)
  note o = open_keeps_key[OF assms(1) this assms(7)]
  have settled: "settled c cfg P res (fst w')"
    by (rule conjunct1[OF o])
  have told: "opened_or_told c cfg P res (fst w')"
    by (rule mp[OF conjunct2[OF o] allI[OF assms(6)]])
  show ?thesis
  proof (cases res)
    case (Inr s)
    then obtain ring where ring: "st_ring s = Some ring" "under c (kr_current ring) (dk_db (fst w')) P" "dk_pending (fst w') = None"
      using settled unfolding settled_def by blast
    have "shows_as c ring (dk_db (fst w')) P"
      by (rule shows_as_current) (use ring(2) in \<open>simp add: under_def\<close>)
    then show ?thesis
      using Inr ring(1,3) by blast
  next
    case (Inl er)
    then show ?thesis
      using told by (auto simp: opened_or_told_def under_def)
  qed
qed

section \<open>A second rotation after one whose key could not be moved\<close>

lemma under_rows: "under c k s P \<Longrightarrow> length (readColumn s col) = length (fst P col)"
  by (auto simp: under_def shows_as_def dest: list_all2_lengthD)

text \<open>
  C32: A history that is not careful can lose the key. When the key is kept in the key file, something is
  sealed, and a rotation's last call, the move of the new key into the key file, fails, the store goes on under the new
  key, which lies only in the pending file. A second rotation overwrites that file without looking, and if its
  transaction then fails before the commit, it removes it: no file holds the key the data is under. (A second
  rotation that gets through loses nothing.)
\<close>

theorem second_rotation_loses_key:
  assumes "gcm_ok c" "env_ok e" "st_ring s = Some ring" "st_keyFile s" "\<not> st_fromEnv s" "held None d = Some (kr_current ring)"
    and "under c (kr_current ring) (dk_db d) P" "keys_distinct (dk_db d)" "sd_secrets (dk_db d) \<noteq> []" "re_key e n \<noteq> kr_current ring"
    and "\<And>i. re_outcome e i = (if i = n + 3 \<or> i = n + 5 then Fails False else Works)"
  shows "\<exists>s1 s2 d1 d2. RotateKey c e s (d, n) = (Inl KeyNotMoved, s1, d1, n + 4) \<and>
    RotateKey c e s1 (d1, n + 4) = (Inl NotReencrypted, s2, d2, n + 7) \<and>
    under c (re_key e n) (dk_db d2) P \<and> held None d2 = Some (kr_current ring) \<and> pending_key d2 = None \<and>
    \<not> keyFits c (kr_current ring) (dk_db d2)"
proof -
  have e: "length (re_key e i) = EncryptionKeySize" "nonces_ok (re_nonces e)" for i
    using assms(2) by (simp_all add: env_ok_def)
  obtain t where t: "reencrypt c (kr_current ring) (re_key e n) (re_nonces e) (dk_db d) = Inr t" "under c (re_key e n) t P" "keys_distinct t"
    using reencrypt_ok[OF assms(1) e(2) assms(7,8)] by blast
  define s1 where "s1 = s\<lparr>st_ring := Some (rotate (re_key e n) ring)\<rparr>"
  define d1 where "d1 = d\<lparr>dk_pending := Some (key_text (re_key e n)), dk_db := t\<rparr>"
  have first: "RotateKey c e s (d, n) = (Inl KeyNotMoved, s1, d1, n + 4)"
    by (simp add: RotateKey_def assms(3-5,11) e Let_def writePending_def access_def commitTx_def renamePending_def perform_def t(1) s1_def d1_def)
  have second: "RotateKey c e s1 (d1, n + 4) = (Inl NotReencrypted, s1, d1\<lparr>dk_pending := None\<rparr>, n + 7)"
    by (simp add: RotateKey_def assms(3-5,11) e Let_def writePending_def access_def give_up_def removePending_def perform_def s1_def d1_def)
  have "\<not> keyFits c (kr_current ring) t"
    using keyFits_other_empty[OF assms(1) t(2) _ assms(10)[symmetric], of SecretValues] under_rows[OF t(2), of SecretValues]
      under_rows[OF assms(7), of SecretValues] assms(9) by auto
  then show ?thesis
    using first second t(2) assms(6)
    by (intro exI[of _ s1] exI[of _ "d1\<lparr>dk_pending := None\<rparr>"] exI[of _ d1]) (auto simp: d1_def pending_key_def)
qed

section \<open>Concrete inputs\<close>

definition demo_key :: bytes where
  "demo_key = replicate 32 (CHR ''k'')"

definition demo_store :: store where
  "demo_store = \<lparr>st_ring = Some (one_key demo_key), st_keyFile = True, st_fromEnv = False\<rparr>"

definition demo_disk :: disk where
  "demo_disk = \<lparr>dk_key = Some (key_text demo_key), dk_pending = None,
     dk_db = empty_sealed\<lparr>sd_secrets := [\<lparr>sr_application = [], sr_name = ''TOKEN'', sr_label = ''TOKEN'',
       sr_value = seal demo_gcm (one_key demo_key) (demo_nonces 0) ''TOKEN'' ''secret'', sr_created = 0, sr_updated = 0\<rparr>]\<rparr>\<rparr>"

definition demo_env :: "(nat \<Rightarrow> outcome) \<Rightarrow> rot_env" where
  "demo_env f = \<lparr>re_outcome = f, re_torn = (\<lambda>_. Some 3), re_key = (\<lambda>_. replicate 32 (CHR ''n'')), re_nonces = demo_nonces\<rparr>"

definition demo_view :: plain_view where
  "demo_view = ((\<lambda>col. if col = SecretValues then [(''TOKEN'', ''secret'')] else []), [])"

lemma demo_env_ok: "env_ok (demo_env f)"
  by (simp add: env_ok_def demo_env_def demo_nonces_ok EncryptionKeySize_def)

lemma demo_key_length: "length demo_key = EncryptionKeySize"
  by (simp add: demo_key_def EncryptionKeySize_def)

lemma demo_held: "held None demo_disk = Some demo_key"
  by (simp add: held_def demo_disk_def parse_key_text[OF demo_key_length])

lemma demo_under: "under demo_gcm demo_key (dk_db demo_disk) demo_view"
proof -
  have n: "length (demo_nonces 0) = NonceSize"
    using demo_nonces_ok by (simp add: nonces_ok_def)
  have h: "honest_value demo_gcm demo_key ''TOKEN'' (seal demo_gcm (one_key demo_key) (demo_nonces 0) ''TOKEN'' ''secret'')"
    using honest_value_seal[OF n, of demo_gcm "one_key demo_key"] by simp
  have "readColumn (dk_db demo_disk) col = (if col = SecretValues then
      [(''TOKEN'', seal demo_gcm (one_key demo_key) (demo_nonces 0) ''TOKEN'' ''secret'')] else [])" for col
    by (cases col) (simp_all add: demo_disk_def empty_sealed_def)
  moreover have "sd_specs (dk_db demo_disk) = []"
    by (simp add: demo_disk_def empty_sealed_def)
  ultimately show ?thesis
    using h unseal_seal[OF demo_gcm_ok n] by (simp add: under_def honest_def shows_as_def demo_view_def)
qed

lemma demo_keys_distinct: "keys_distinct (dk_db demo_disk)"
proof -
  have "distinct (map fst (readColumn (dk_db demo_disk) col))" for col
    by (cases col) (simp_all add: demo_disk_def empty_sealed_def)
  then show ?thesis
    by (simp add: keys_distinct_def)
qed

theorem second_rotation_loses_key_witness:
  "\<exists>s1 s2 d1 d2. RotateKey demo_gcm (demo_env (\<lambda>i. if i = 3 \<or> i = 5 then Fails False else Works)) demo_store (demo_disk, 0) =
      (Inl KeyNotMoved, s1, d1, 4) \<and>
    RotateKey demo_gcm (demo_env (\<lambda>i. if i = 3 \<or> i = 5 then Fails False else Works)) s1 (d1, 4) = (Inl NotReencrypted, s2, d2, 7) \<and>
    under demo_gcm (replicate 32 (CHR ''n'')) (dk_db d2) demo_view \<and> held None d2 = Some demo_key \<and> pending_key d2 = None \<and>
    \<not> keyFits demo_gcm demo_key (dk_db d2)"
  using second_rotation_loses_key[OF demo_gcm_ok demo_env_ok[of "\<lambda>i. if i = 3 \<or> i = 5 then Fails False else Works"],
      of demo_store "one_key demo_key" demo_disk demo_view 0] demo_held demo_under demo_keys_distinct
  by (simp add: demo_store_def demo_env_def) (simp add: demo_key_def demo_disk_def)

lemma demo_recoverable: "recoverable demo_gcm None demo_view demo_disk"
  by (rule recoverable_held[OF demo_held demo_under demo_keys_distinct])

definition demo_crash :: rot_env where
  "demo_crash = demo_env (\<lambda>i. if i = 2 then Crashes True else Works)"

definition demo_events :: "life_event list" where
  "demo_events = [Start (demo_env (\<lambda>_. Works)) 0, Rotate demo_crash 0]"

lemma demo_life:
  "\<exists>t. life demo_gcm None demo_events (demo_disk, None) = (demo_disk\<lparr>dk_pending := Some (key_text (replicate 32 (CHR ''n''))), dk_db := t\<rparr>, None) \<and>
    careful demo_gcm None demo_events (demo_disk, None) \<and> under demo_gcm (replicate 32 (CHR ''n'')) t demo_view"
proof -
  let ?e = "demo_env (\<lambda>_. Works)"
  have none: "dk_key demo_disk = Some (key_text demo_key)" "dk_pending demo_disk = None" "sd_specs (dk_db demo_disk) = []"
    "demo_disk\<lparr>dk_db := dk_db demo_disk\<lparr>sd_specs := []\<rparr>\<rparr> = demo_disk"
    by (simp_all add: demo_disk_def empty_sealed_def)
  have one: "Open demo_gcm ?e None (demo_disk, 0) = (Inr demo_store, demo_disk, 4)"
    using none parse_key_text[OF demo_key_length] demo_key_length
    by (simp add: Open_def ResolveEncryptionKey_def access_def perform_def demo_env_def settleRotation_def encryptLegacyEnv_def commitTx_def
        demo_store_def)
  obtain t where t: "reencrypt demo_gcm demo_key (replicate 32 (CHR ''n'')) demo_nonces (dk_db demo_disk) = Inr t"
    "under demo_gcm (replicate 32 (CHR ''n'')) t demo_view"
    using reencrypt_ok[OF demo_gcm_ok demo_nonces_ok demo_under demo_keys_distinct] by blast
  have two: "RotateKey demo_gcm demo_crash demo_store (demo_disk, 0) =
      (Inl Dead, demo_store, demo_disk\<lparr>dk_pending := Some (key_text (replicate 32 (CHR ''n''))), dk_db := t\<rparr>, 3)"
    by (simp add: RotateKey_def demo_store_def demo_crash_def demo_env_def EncryptionKeySize_def Let_def writePending_def access_def commitTx_def perform_def t(1))
  show ?thesis
    using none(2) t(2) by (intro exI[of _ t]) (simp add: life_def demo_events_def one two)
qed

theorem rotation_loses_nothing_witness:
  "\<exists>d' s ring w'. life demo_gcm None demo_events (demo_disk, None) = (d', None) \<and> dk_pending d' \<noteq> None \<and>
    Open demo_gcm (demo_env (\<lambda>_. Works)) None (d', 0) = (Inr s, w') \<and> st_ring s = Some ring \<and>
    shows_as demo_gcm ring (dk_db (fst w')) demo_view \<and> dk_pending (fst w') = None"
proof -
  obtain t where t: "life demo_gcm None demo_events (demo_disk, None) =
      (demo_disk\<lparr>dk_pending := Some (key_text (replicate 32 (CHR ''n''))), dk_db := t\<rparr>, None)"
      "careful demo_gcm None demo_events (demo_disk, None)"
    using demo_life by blast
  let ?d = "demo_disk\<lparr>dk_pending := Some (key_text (replicate 32 (CHR ''n''))), dk_db := t\<rparr>"
  obtain res w' where o: "Open demo_gcm (demo_env (\<lambda>_. Works)) None (?d, 0) = (res, w')"
    by (rule prod.exhaust)
  have w: "re_outcome (demo_env (\<lambda>_. Works)) m = Works" for m
    by (simp add: demo_env_def)
  have env: "list_all event_env_ok demo_events"
    by (simp add: demo_events_def demo_crash_def demo_env_ok)
  have "\<exists>s ring. res = Inr s \<and> st_ring s = Some ring \<and> shows_as demo_gcm ring (dk_db (fst w')) demo_view \<and> dk_pending (fst w') = None"
    using rotation_loses_nothing[OF demo_gcm_ok demo_recoverable env t(2,1) w o] by simp
  then show ?thesis
    using t(1) o by (intro exI[of _ ?d]) auto
qed

end
