(* ===== verification/Access_Rules.thy ===== *)
theory Access_Rules
  imports Spec_Domains
begin

text \<open>
  Who may do what (\<^verbatim>\<open>src/pkg/api/tokens.go\<close>, \<^verbatim>\<open>access.go\<close>, \<^verbatim>\<open>signin.go\<close>): roles and what they cover, the limit
  of a caller to some applications, the names and addresses that rules are written for, and what the rules give
  a person. An error is None; its wording is left out.
\<close>

section \<open>Roles and callers\<close>

datatype Role = RoleRead | RoleDeploy | RoleAdmin | UnknownRole string

definition roleOrder :: "Role list" where
  "roleOrder = [RoleRead, RoleDeploy, RoleAdmin]"

text \<open>\<open>slices.Index\<close>.\<close>

fun index_from :: "int \<Rightarrow> 'a \<Rightarrow> 'a list \<Rightarrow> int" where
  "index_from i x [] = -1"
| "index_from i x (y # ys) = (if y = x then i else index_from (i + 1) x ys)"

definition Covers :: "Role \<Rightarrow> Role \<Rightarrow> bool" where
  "Covers r required \<longleftrightarrow> index_from 0 r roleOrder \<ge> index_from 0 required roleOrder"

definition role_valid :: "Role \<Rightarrow> bool" where
  "role_valid r \<longleftrightarrow> r \<in> set roleOrder"

datatype caller_kind = ActorToken | ActorUser

record TokenIdentity =
  id_kind :: caller_kind
  id_name :: string
  id_role :: Role
  id_applications :: "string list"
  id_expiresAt :: "go_time option"

definition Limited :: "TokenIdentity \<Rightarrow> bool" where
  "Limited t \<longleftrightarrow> id_applications t \<noteq> [] \<and> id_role t \<noteq> RoleAdmin"

definition Allows :: "TokenIdentity \<Rightarrow> string \<Rightarrow> bool" where
  "Allows t application \<longleftrightarrow> \<not> Limited t \<or> application \<in> set (id_applications t)"

definition RootTokenName :: string where
  "RootTokenName = ''root''"

definition ValidateTokenName :: "string \<Rightarrow> bool" where
  "ValidateTokenName name \<longleftrightarrow> label_pattern 40 name \<and> name \<noteq> RootTokenName"

definition MaxTokenApplications :: nat where
  "MaxTokenApplications = 50"

text \<open>\<open>slices.Sort\<close> of strings: bytewise.\<close>

fun insert_string :: "string \<Rightarrow> string list \<Rightarrow> string list" where
  "insert_string s [] = [s]"
| "insert_string s (t # ts) = (if string_compare s t \<le> 0 then s # t # ts else t # insert_string s ts)"

definition sort_strings :: "string list \<Rightarrow> string list" where
  "sort_strings ss = foldr insert_string ss []"

text \<open>\<open>append\<close> of what is not there yet.\<close>

definition add_new :: "string list \<Rightarrow> string list \<Rightarrow> string list" where
  "add_new out names = fold (\<lambda>n out. if n \<in> set out then out else out @ [n]) names out"

definition ValidateTokenApplications :: "Role \<Rightarrow> string list \<Rightarrow> string list option" where
  "ValidateTokenApplications role applications =
     (if applications = [] then Some []
      else if role \<noteq> RoleDeploy then None
      else if \<not> list_all ValidateName applications then None
      else let out = add_new [] applications in if length out > MaxTokenApplications then None else Some (sort_strings out))"

section \<open>Names and addresses\<close>

text \<open>The pattern \<^verbatim>\<open>^[a-z0-9][a-z0-9._%+'-]{0,63}@[a-z0-9.-]{1,253}$\<close>.\<close>

definition emailPattern :: "string \<Rightarrow> bool" where
  "emailPattern s \<longleftrightarrow> (case cut_at CHR ''@'' s of (user, domain, found) \<Rightarrow>
     found \<and> user \<noteq> [] \<and> label_char (hd user) \<and> length user \<le> 64 \<and>
     list_all (\<lambda>c. label_char c \<or> c \<in> set ''._%+-'' \<or> c = CHR 0x27) user \<and>
     domain \<noteq> [] \<and> length domain \<le> 253 \<and> list_all (\<lambda>c. label_char c \<or> c \<in> set ''.-'') domain)"

definition NormalizeEmail :: "string \<Rightarrow> string option" where
  "NormalizeEmail address =
     (let email = to_lower (trim_space address); domain = fst (snd (cut_at CHR ''@'' email))
      in if length email > 254 \<or> \<not> emailPattern email \<or> \<not> ValidateDomain domain then None else Some email)"

definition maxGroupName :: nat where "maxGroupName = 256"

definition ValidGroup :: "string \<Rightarrow> bool" where
  "ValidGroup name \<longleftrightarrow> name \<noteq> [] \<and> length name \<le> maxGroupName \<and> trim_space name = name \<and>
     list_all (\<lambda>c. \<not> (byte_val c < 32 \<or> byte_val c = 127)) name"

definition maxPersonName :: nat where "maxPersonName = 254"

definition person_char :: "char \<Rightarrow> bool" where
  "person_char c \<longleftrightarrow> is_digit c \<or> (65 \<le> byte_val c \<and> byte_val c \<le> 90) \<or> (97 \<le> byte_val c \<and> byte_val c \<le> 122) \<or>
     c \<in> set ''._%+@|:=#~-'' \<or> c = CHR 0x27"

definition ValidatePersonName :: "string \<Rightarrow> bool" where
  "ValidatePersonName name \<longleftrightarrow> name \<noteq> [] \<and> length name \<le> maxPersonName \<and> list_all person_char name"

definition DefaultNameClaim :: string where
  "DefaultNameClaim = ''email''"

definition PersonName :: "string \<Rightarrow> string \<Rightarrow> string option" where
  "PersonName claim v =
     (if claim = DefaultNameClaim \<or> claim = [] then NormalizeEmail v
      else if ValidatePersonName v then Some v else None)"

section \<open>Rules\<close>

datatype access_kind = AccessEmail | AccessGroup | AccessDomain | AccessName | OtherKind string

record AccessRule =
  ar_id :: int
  ar_kind :: access_kind
  ar_subject :: string
  ar_role :: Role
  ar_applications :: "string list"
  ar_createdAt :: go_time
  ar_createdBy :: string

definition MaxAccessRules :: nat where "MaxAccessRules = 200"

definition ValidateAccessSubject :: "access_kind \<Rightarrow> string \<Rightarrow> string option" where
  "ValidateAccessSubject kind subject =
     (case kind of
        AccessEmail \<Rightarrow> NormalizeEmail subject
      | AccessDomain \<Rightarrow>
          (let domain = to_lower (trim_space subject)
           in if \<not> ValidateDomain domain \<or> has_prefix domain ''*'' then None else Some domain)
      | AccessGroup \<Rightarrow> if ValidGroup subject then Some subject else None
      | AccessName \<Rightarrow> if ValidatePersonName subject then Some subject else None
      | OtherKind _ \<Rightarrow> None)"

definition ParseAccessSubject :: "string \<Rightarrow> (access_kind \<times> string) option" where
  "ParseAccessSubject s =
     (let valid = (\<lambda>kind subject. map_option (Pair kind) (ValidateAccessSubject kind subject))
      in if has_prefix s ''group:'' then valid AccessGroup (trim_prefix s ''group:'')
         else if has_prefix s ''name:'' then valid AccessName (trim_prefix s ''name:'')
         else if has_prefix s ''*@'' then valid AccessDomain (trim_prefix s ''*@'')
         else if CHR ''@'' \<in> set s then valid AccessEmail s
         else None)"

definition Who :: "access_kind \<Rightarrow> string \<Rightarrow> string" where
  "Who kind subject =
     (case kind of
        AccessGroup \<Rightarrow> ''group:'' @ subject
      | AccessDomain \<Rightarrow> ''*@'' @ subject
      | AccessName \<Rightarrow> ''name:'' @ subject
      | _ \<Rightarrow> subject)"

definition WhoOf :: "string \<Rightarrow> string" where
  "WhoOf name = (if NormalizeEmail name = Some name then name else ''name:'' @ name)"

record Grant =
  gr_role :: Role
  gr_applications :: "string list"

definition grantOf :: "AccessRule \<Rightarrow> Grant" where
  "grantOf r = \<lparr>gr_role = ar_role r, gr_applications = ar_applications r\<rparr>"

text \<open>
  The loop over the rules: a rule by name ends it; otherwise the rule by address, the rules by group and the
  rule by domain are kept, of an address and of a domain the last one.
\<close>

fun scan_rules ::
    "string \<Rightarrow> string list \<Rightarrow> string \<Rightarrow> string \<Rightarrow> AccessRule option \<times> AccessRule list \<times> AccessRule option \<Rightarrow> AccessRule list \<Rightarrow>
      AccessRule + AccessRule option \<times> AccessRule list \<times> AccessRule option" where
  "scan_rules name groups email domain found [] = Inr found"
| "scan_rules name groups email domain (byEmail, byGroup, byDomain) (r # rules) =
     (if ar_kind r = AccessName \<and> ar_subject r = name then Inl r
      else scan_rules name groups email domain
        (if ar_kind r = AccessEmail \<and> email \<noteq> [] \<and> ar_subject r = email then (Some r, byGroup, byDomain)
         else if ar_kind r = AccessGroup \<and> ar_subject r \<in> set groups then (byEmail, byGroup @ [r], byDomain)
         else if ar_kind r = AccessDomain \<and> domain \<noteq> [] \<and> ar_subject r = domain then (byEmail, byGroup, Some r)
         else (byEmail, byGroup, byDomain)) rules)"

definition merge_group :: "AccessRule \<Rightarrow> Grant \<Rightarrow> Grant" where
  "merge_group r best =
     (let g = grantOf r
      in if gr_role g \<noteq> gr_role best then (if Covers (gr_role g) (gr_role best) then g else best)
         else if gr_applications g = [] \<or> gr_applications best = [] then best\<lparr>gr_applications := []\<rparr>
         else best\<lparr>gr_applications := sort_strings (add_new (gr_applications best) (gr_applications g))\<rparr>)"

definition ResolveAccess :: "AccessRule list \<Rightarrow> string \<Rightarrow> string list \<Rightarrow> Grant option" where
  "ResolveAccess rules name groups =
     (let (email, domain) = (case NormalizeEmail name of None \<Rightarrow> ([], []) | Some a \<Rightarrow> (a, fst (snd (cut_at CHR ''@'' a))))
      in case scan_rules name groups email domain (None, [], None) rules of
           Inl r \<Rightarrow> Some (grantOf r)
         | Inr (Some r, _, _) \<Rightarrow> Some (grantOf r)
         | Inr (None, r # rs, _) \<Rightarrow> Some (fold merge_group rs (grantOf r))
         | Inr (None, [], Some r) \<Rightarrow> Some (grantOf r)
         | Inr (None, [], None) \<Rightarrow> None)"

section \<open>What the rules give\<close>

lemma Covers_simps [simp]:
  "Covers r r" "Covers RoleAdmin r" "Covers r RoleAdmin \<longleftrightarrow> r = RoleAdmin"
  "Covers RoleDeploy RoleRead" "\<not> Covers RoleRead RoleDeploy"
  "\<not> Covers (UnknownRole s) RoleRead" "\<not> Covers (UnknownRole s) RoleDeploy" "Covers r (UnknownRole s)"
  by (cases r; simp add: Covers_def roleOrder_def)+

lemma Covers_trans: "Covers a b \<Longrightarrow> Covers b c \<Longrightarrow> Covers a c"
  by (simp add: Covers_def)

lemma Covers_total: "Covers a b \<or> Covers b a"
  by (auto simp: Covers_def)

lemma Covers_antisym: "role_valid a \<Longrightarrow> role_valid b \<Longrightarrow> Covers a b \<Longrightarrow> Covers b a \<Longrightarrow> a = b"
  by (auto simp: role_valid_def roleOrder_def)

lemma set_insert_string [simp]: "set (insert_string s ts) = insert s (set ts)"
  by (induction ts) auto

lemma set_sort_strings [simp]: "set (sort_strings ss) = set ss"
  by (induction ss) (simp_all add: sort_strings_def)

lemma set_add_new [simp]: "set (add_new out names) = set out \<union> set names"
  unfolding add_new_def by (induction names arbitrary: out) auto

text \<open>Whether a rule is about a person, and how specific it is.\<close>

definition matches_person :: "string \<Rightarrow> string list \<Rightarrow> AccessRule \<Rightarrow> bool" where
  "matches_person name groups r =
     (case ar_kind r of
        AccessName \<Rightarrow> ar_subject r = name
      | AccessEmail \<Rightarrow> NormalizeEmail name = Some (ar_subject r)
      | AccessGroup \<Rightarrow> ar_subject r \<in> set groups
      | AccessDomain \<Rightarrow> (case NormalizeEmail name of None \<Rightarrow> False | Some a \<Rightarrow> fst (snd (cut_at CHR ''@'' a)) = ar_subject r)
      | OtherKind _ \<Rightarrow> False)"

fun specific :: "access_kind \<Rightarrow> nat" where
  "specific AccessName = 3"
| "specific AccessEmail = 2"
| "specific AccessGroup = 1"
| "specific AccessDomain = 0"
| "specific (OtherKind _) = 0"

definition within :: "string list \<Rightarrow> string \<Rightarrow> bool" where
  "within applications a \<longleftrightarrow> applications = [] \<or> a \<in> set applications"

text \<open>Rules as the store keeps them: one per kind and subject, with a role that exists.\<close>

definition rules_ok :: "AccessRule list \<Rightarrow> bool" where
  "rules_ok rules \<longleftrightarrow> distinct (map (\<lambda>r. (ar_kind r, ar_subject r)) rules) \<and> list_all (\<lambda>r. role_valid (ar_role r)) rules"

definition group_merge :: "AccessRule list \<Rightarrow> Grant \<Rightarrow> bool" where
  "group_merge rs g \<longleftrightarrow> (\<exists>r \<in> set rs. ar_role r = gr_role g) \<and> (\<forall>r \<in> set rs. Covers (gr_role g) (ar_role r)) \<and>
     (\<forall>a. within (gr_applications g) a \<longleftrightarrow> (\<exists>r \<in> set rs. ar_role r = gr_role g \<and> within (ar_applications r) a))"

lemma sort_strings_Nil [simp]: "sort_strings ss = [] \<longleftrightarrow> ss = []"
  by (metis set_empty set_sort_strings)

lemma add_new_Nil [simp]: "add_new out names = [] \<longleftrightarrow> out = [] \<and> names = []"
  by (metis set_add_new Un_empty set_empty)

lemma merge_group_step:
  assumes "group_merge rs g" "role_valid (ar_role r)" "\<forall>r \<in> set rs. role_valid (ar_role r)"
  shows "group_merge (rs @ [r]) (merge_group r g)"
proof -
  have valid: "role_valid (gr_role g)"
    using assms(1,3) by (auto simp: group_merge_def)
  consider (more) "ar_role r \<noteq> gr_role g" "Covers (ar_role r) (gr_role g)" | (less) "ar_role r \<noteq> gr_role g" "\<not> Covers (ar_role r) (gr_role g)"
    | (same) "ar_role r = gr_role g"
    by blast
  then show ?thesis
  proof cases
    case more
    then have "merge_group r g = grantOf r"
      by (simp add: merge_group_def grantOf_def)
    moreover have "ar_role r' \<noteq> ar_role r" "Covers (ar_role r) (ar_role r')" if "r' \<in> set rs" for r'
      using that assms(1) more Covers_trans Covers_antisym[OF assms(2) valid] unfolding group_merge_def by metis+
    ultimately show ?thesis
      by (auto simp: group_merge_def grantOf_def)
  next
    case less
    then have "merge_group r g = g"
      by (simp add: merge_group_def grantOf_def)
    moreover have "Covers (gr_role g) (ar_role r)"
      using less Covers_total by blast
    ultimately show ?thesis
      using assms(1) less by (auto simp: group_merge_def)
  next
    case same
    then have "gr_role (merge_group r g) = gr_role g"
      "within (gr_applications (merge_group r g)) a \<longleftrightarrow> within (gr_applications g) a \<or> within (ar_applications r) a" for a
      by (auto simp: merge_group_def grantOf_def within_def Let_def)
    then show ?thesis
      using assms(1) same by (auto simp: group_merge_def)
  qed
qed

lemma merge_groups:
  "group_merge rs g \<Longrightarrow> \<forall>r \<in> set (rs @ qs). role_valid (ar_role r) \<Longrightarrow> group_merge (rs @ qs) (fold merge_group qs g)"
proof (induction qs arbitrary: rs g)
  case (Cons q qs)
  have "group_merge (rs @ [q]) (merge_group q g)"
    using Cons.prems by (intro merge_group_step) auto
  from Cons.IH[OF this] Cons.prems(2) show ?case
    by simp
qed simp

text \<open>What the loop has found.\<close>

lemma scan_rules_found:
  assumes "distinct (map (\<lambda>r. (ar_kind r, ar_subject r)) (before @ rules))"
    and "byEmail = find (\<lambda>r. ar_kind r = AccessEmail \<and> email \<noteq> [] \<and> ar_subject r = email) before"
    and "byGroup = filter (\<lambda>r. ar_kind r = AccessGroup \<and> ar_subject r \<in> set groups) before"
    and "byDomain = find (\<lambda>r. ar_kind r = AccessDomain \<and> domain \<noteq> [] \<and> ar_subject r = domain) before"
    and "find (\<lambda>r. ar_kind r = AccessName \<and> ar_subject r = name) before = None"
  shows "scan_rules name groups email domain (byEmail, byGroup, byDomain) rules =
    (case find (\<lambda>r. ar_kind r = AccessName \<and> ar_subject r = name) (before @ rules) of
       Some r \<Rightarrow> Inl r
     | None \<Rightarrow> Inr (find (\<lambda>r. ar_kind r = AccessEmail \<and> email \<noteq> [] \<and> ar_subject r = email) (before @ rules),
         filter (\<lambda>r. ar_kind r = AccessGroup \<and> ar_subject r \<in> set groups) (before @ rules),
         find (\<lambda>r. ar_kind r = AccessDomain \<and> domain \<noteq> [] \<and> ar_subject r = domain) (before @ rules)))"
  using assms
proof (induction rules arbitrary: before byEmail byGroup byDomain)
  case (Cons r rules)
  have fa: "find P (xs @ ys) = (case find P xs of None \<Rightarrow> find P ys | Some x \<Rightarrow> Some x)" for P and xs ys :: "AccessRule list"
    by (induction xs) auto
  have fresh: "(ar_kind r, ar_subject r) \<notin> (\<lambda>r. (ar_kind r, ar_subject r)) ` set before"
    using Cons.prems(1) by auto
  have new: "\<not> (ar_kind q = ar_kind r \<and> ar_subject q = ar_subject r)" if "q \<in> set before" for q
  proof
    assume "ar_kind q = ar_kind r \<and> ar_subject q = ar_subject r"
    then have "(ar_kind r, ar_subject r) \<in> (\<lambda>r. (ar_kind r, ar_subject r)) ` set before"
      by (intro image_eqI[OF _ that]) simp
    then show False
      using fresh by contradiction
  qed
  have ih: "distinct (map (\<lambda>r. (ar_kind r, ar_subject r)) ((before @ [r]) @ rules))"
    using Cons.prems(1) by simp
  show ?case
  proof (cases "ar_kind r = AccessName \<and> ar_subject r = name")
    case True
    then show ?thesis
      using Cons.prems(5) by (simp add: fa)
  next
    case False
    have "find (\<lambda>r. ar_kind r = AccessName \<and> ar_subject r = name) (before @ [r]) = None"
      using False Cons.prems(5) by (simp add: fa)
    note step = Cons.IH[OF ih refl refl refl this]
    let ?E = "\<lambda>r. ar_kind r = AccessEmail \<and> email \<noteq> [] \<and> ar_subject r = email"
      and ?G = "\<lambda>r. ar_kind r = AccessGroup \<and> ar_subject r \<in> set groups"
      and ?D = "\<lambda>r. ar_kind r = AccessDomain \<and> domain \<noteq> [] \<and> ar_subject r = domain"
    have e: "?E r \<Longrightarrow> find ?E before = None" and d: "?D r \<Longrightarrow> find ?D before = None"
      using new by (auto simp: find_None_iff')
    have kept: "find ?E (before @ [r]) = (if ?E r then Some r else byEmail)" "filter ?G (before @ [r]) = (if ?G r then byGroup @ [r] else byGroup)"
      "find ?D (before @ [r]) = (if ?D r then Some r else byDomain)"
      using e d by (simp_all add: fa Cons.prems(2-4) option.case_eq_if)
    have "scan_rules name groups email domain (byEmail, byGroup, byDomain) (r # rules) =
        scan_rules name groups email domain (find ?E (before @ [r]), filter ?G (before @ [r]), find ?D (before @ [r])) rules"
      unfolding kept using False by (cases "ar_kind r") simp_all
    then show ?thesis
      using step by (simp only: append.assoc append.simps)
  qed
qed simp

section \<open>Addresses\<close>

lemma cut_at_join: "cut_at sep s = (a, b, True) \<Longrightarrow> s = a @ sep # b"
  by (induction s arbitrary: a) (auto split: if_splits prod.splits)

definition email_char :: "char \<Rightarrow> bool" where
  "email_char c \<longleftrightarrow> label_char c \<or> c \<in> set ''._%+-@'' \<or> c = CHR 0x27"

lemma email_char_simps:
  assumes "email_char c"
  shows "visible c" "lower_char c = c" "c \<noteq> CHR '':''" "c \<noteq> CHR ''*''"
  using assms by (auto simp: email_char_def label_char_def is_digit_def visible_def lower_char_def byte_val_def)

lemma emailPattern_chars: "emailPattern s \<Longrightarrow> list_all email_char s \<and> CHR ''@'' \<in> set s \<and> s \<noteq> []"
  by (auto simp: emailPattern_def list_all_iff email_char_def dest!: cut_at_join split: prod.splits)

lemma email_chars_normal:
  assumes "list_all email_char s"
  shows "to_lower (trim_space s) = s"
proof -
  have v: "list_all visible s"
    using assms by (auto simp: list_all_iff email_char_simps)
  then have "to_lower s = map lower_char s"
    by (intro to_lower_ascii) (auto simp: list_all_iff visible_ascii)
  also have "\<dots> = s"
    using assms by (intro map_idI) (auto simp: list_all_iff email_char_simps)
  finally show ?thesis
    by (simp add: trim_space_visible[OF v])
qed

lemma NormalizeEmail_facts:
  assumes "NormalizeEmail address = Some a"
  shows "list_all email_char a" "CHR ''@'' \<in> set a" "a \<noteq> []" "fst (snd (cut_at CHR ''@'' a)) \<noteq> []" "NormalizeEmail a = Some a"
proof -
  have a: "emailPattern a" "ValidateDomain (fst (snd (cut_at CHR ''@'' a)))" "\<not> length a > 254"
    using assms by (auto simp: NormalizeEmail_def Let_def split: if_splits)
  show "list_all email_char a" "CHR ''@'' \<in> set a" "a \<noteq> []"
    using emailPattern_chars[OF a(1)] by auto
  show "fst (snd (cut_at CHR ''@'' a)) \<noteq> []"
    using label_not_empty[OF a(2)] .
  show "NormalizeEmail a = Some a"
    using a email_chars_normal[OF \<open>list_all email_char a\<close>] by (simp add: NormalizeEmail_def)
qed

lemma domain_normal:
  assumes "ValidateDomain d"
  shows "to_lower (trim_space d) = d"
  using normal_hostname[OF domain_chars[OF assms]] by (simp add: normalize_hostname_def)

lemma has_prefix_in: "has_prefix s p \<Longrightarrow> set p \<subseteq> set s"
  by (metis has_prefix_split set_append Un_upper1)

lemma parse_Who:
  assumes "ValidateAccessSubject kind written = Some subject"
  shows "ParseAccessSubject (Who kind subject) = Some (kind, subject)"
proof (cases kind)
  case AccessEmail
  then have n: "NormalizeEmail written = Some subject"
    using assms by (simp add: ValidateAccessSubject_def)
  note f = NormalizeEmail_facts[OF n]
  have "c \<noteq> CHR '':'' \<and> c \<noteq> CHR ''*''" if "c \<in> set subject" for c
    using f(1) that email_char_simps(3,4)[of c] by (simp add: list_all_iff)
  then have "CHR '':'' \<notin> set subject" "CHR ''*'' \<notin> set subject"
    by blast+
  then have "\<not> has_prefix subject ''group:''" "\<not> has_prefix subject ''name:''" "\<not> has_prefix subject ''*@''"
    using has_prefix_in by fastforce+
  then show ?thesis
    using f(2,5) by (simp add: AccessEmail Who_def ParseAccessSubject_def ValidateAccessSubject_def)
next
  case AccessDomain
  then have "ValidateDomain subject" "\<not> has_prefix subject ''*''"
    using assms by (auto simp: ValidateAccessSubject_def Let_def split: if_splits)
  then show ?thesis
    using domain_normal by (simp add: AccessDomain Who_def ParseAccessSubject_def ValidateAccessSubject_def trim_prefix_def Let_def)
qed (use assms in \<open>auto simp: Who_def ParseAccessSubject_def ValidateAccessSubject_def trim_prefix_def split: if_splits\<close>)

text \<open>
  A rule's subject, written out for the command line, reads back as the same kind and subject.
\<close>

theorem Who_reads_back:
  assumes "ValidateAccessSubject kind written = Some subject"
  shows "ParseAccessSubject (Who kind subject) = Some (kind, subject)"
  by (rule parse_Who[OF assms])

theorem Who_reads_back_witness:
  "ParseAccessSubject (Who AccessEmail ''ada@example.com'') = Some (AccessEmail, ''ada@example.com'')"
proof -
  have "ValidateAccessSubject AccessEmail ''ada@example.com'' = Some ''ada@example.com''"
    by code_simp
  then show ?thesis
    by (rule Who_reads_back)
qed

lemma matching_parts:
  assumes "(email, domain) = (case NormalizeEmail name of None \<Rightarrow> ([], []) | Some a \<Rightarrow> (a, fst (snd (cut_at CHR ''@'' a))))"
  shows "matches_person name groups r \<longleftrightarrow>
    ar_kind r = AccessName \<and> ar_subject r = name \<or>
    ar_kind r = AccessEmail \<and> email \<noteq> [] \<and> ar_subject r = email \<or>
    ar_kind r = AccessGroup \<and> ar_subject r \<in> set groups \<or>
    ar_kind r = AccessDomain \<and> domain \<noteq> [] \<and> ar_subject r = domain"
proof (cases "NormalizeEmail name")
  case (Some a)
  then show ?thesis
    using assms NormalizeEmail_facts[OF Some] by (cases "ar_kind r") (auto simp: matches_person_def)
qed (use assms in \<open>cases "ar_kind r"; auto simp: matches_person_def\<close>)

text \<open>
  C38: What the rules give a person: nothing exactly if no rule is about them. Otherwise the most specific kind of
  rule about them decides, and alone: a rule for the name, else for the address, else those for the groups, else for
  the domain. Of the groups the highest role counts, for every application that some group with that role allows.
\<close>

theorem most_specific_rule_decides:
  assumes "rules_ok rules"
  shows "case ResolveAccess rules name groups of
      None \<Rightarrow> \<forall>r \<in> set rules. \<not> matches_person name groups r
    | Some g \<Rightarrow> \<exists>r \<in> set rules. matches_person name groups r \<and>
        (\<forall>q \<in> set rules. matches_person name groups q \<longrightarrow> specific (ar_kind q) \<le> specific (ar_kind r)) \<and>
        (if ar_kind r = AccessGroup then group_merge (filter (\<lambda>q. ar_kind q = AccessGroup \<and> matches_person name groups q) rules) g
         else g = grantOf r)"
proof -
  obtain email domain where ed: "(email, domain) = (case NormalizeEmail name of None \<Rightarrow> ([], []) | Some a \<Rightarrow> (a, fst (snd (cut_at CHR ''@'' a))))"
    by (metis prod.exhaust)
  note m = matching_parts[OF ed]
  let ?N = "\<lambda>r. ar_kind r = AccessName \<and> ar_subject r = name"
    and ?E = "\<lambda>r. ar_kind r = AccessEmail \<and> email \<noteq> [] \<and> ar_subject r = email"
    and ?G = "\<lambda>r. ar_kind r = AccessGroup \<and> ar_subject r \<in> set groups"
    and ?D = "\<lambda>r. ar_kind r = AccessDomain \<and> domain \<noteq> [] \<and> ar_subject r = domain"
  have scan: "scan_rules name groups email domain (None, [], None) rules =
      (case find ?N rules of Some r \<Rightarrow> Inl r | None \<Rightarrow> Inr (find ?E rules, filter ?G rules, find ?D rules))"
    using scan_rules_found[of "[]" rules None email "[]" groups None domain name, unfolded append.simps] assms by (simp add: rules_ok_def)
  have valid: "\<forall>r \<in> set rules. role_valid (ar_role r)"
    using assms by (simp add: rules_ok_def list_all_iff)
  show ?thesis
  proof (cases "find ?N rules")
    case (Some r)
    then have "r \<in> set rules" "?N r"
      using find_SomeD[OF Some] by auto
    moreover have "specific k \<le> 3" for k
      by (cases k) simp_all
    ultimately show ?thesis
      using Some by (auto simp: ResolveAccess_def scan ed[symmetric] m intro!: bexI[of _ r])
  next
    case no_name: None
    then have n: "\<not> ?N q" if "q \<in> set rules" for q
      using that by (simp add: find_None_iff')
    show ?thesis
    proof (cases "find ?E rules")
      case (Some r)
      then have "r \<in> set rules" "?E r"
        using find_SomeD[OF Some] by auto
      then show ?thesis
        using Some no_name n by (auto simp: ResolveAccess_def scan ed[symmetric] m intro!: bexI[of _ r])
    next
      case no_email: None
      then have e: "\<not> ?E q" if "q \<in> set rules" for q
        using that by (simp add: find_None_iff')
      have same: "filter (\<lambda>q. ar_kind q = AccessGroup \<and> matches_person name groups q) rules = filter ?G rules"
        by (intro filter_cong refl) (auto simp: m)
      show ?thesis
      proof (cases "filter ?G rules")
        case (Cons r rs)
        then have r: "r \<in> set rules" "?G r"
          using list.set_intros(1)[of r rs] unfolding Cons[symmetric] by simp_all
        have "set (r # rs) \<subseteq> set rules"
          unfolding Cons[symmetric] by auto
        then have "\<forall>q \<in> set ([r] @ rs). role_valid (ar_role q)"
          using valid by auto
        moreover have "group_merge [r] (grantOf r)"
          by (simp add: group_merge_def grantOf_def)
        ultimately have "group_merge (r # rs) (fold merge_group rs (grantOf r))"
          using merge_groups[of "[r]" "grantOf r" rs] by simp
        then show ?thesis
          using r no_name no_email n e same by (auto simp: ResolveAccess_def scan ed[symmetric] m Cons intro!: bexI[of _ r])
      next
        case no_group: Nil
        then have g: "\<not> ?G q" if "q \<in> set rules" for q
          using that by (simp add: filter_empty_conv)
        show ?thesis
        proof (cases "find ?D rules")
          case (Some r)
          then have "r \<in> set rules" "?D r"
            using find_SomeD[OF Some] by auto
          then show ?thesis
            using Some no_name no_email no_group n e g by (auto simp: ResolveAccess_def scan ed[symmetric] m intro!: bexI[of _ r])
        next
          case None
          then have "\<not> ?D q" if "q \<in> set rules" for q
            using that by (simp add: find_None_iff')
          then show ?thesis
            using None no_name no_email no_group n e g by (auto simp: ResolveAccess_def scan ed[symmetric] m)
        qed
      qed
    qed
  qed
qed

text \<open>A rule for exactly this person, written the way the agent suggests, is about this person.\<close>

lemma rule_for_person:
  assumes "PersonName claim v = Some name"
  shows "\<exists>kind subject. ParseAccessSubject (WhoOf name) = Some (kind, subject) \<and>
    matches_person name groups \<lparr>ar_id = i, ar_kind = kind, ar_subject = subject, ar_role = role, ar_applications = apps, ar_createdAt = t, ar_createdBy = by\<rparr>"
proof (cases "NormalizeEmail name = Some name")
  case True
  then have "ParseAccessSubject (Who AccessEmail name) = Some (AccessEmail, name)"
    by (intro parse_Who) (simp add: ValidateAccessSubject_def)
  then show ?thesis
    using True by (simp add: WhoOf_def Who_def matches_person_def)
next
  case False
  then have "ValidatePersonName name"
    using assms NormalizeEmail_facts(5) by (auto simp: PersonName_def split: if_splits)
  then show ?thesis
    using False by (simp add: WhoOf_def ParseAccessSubject_def ValidateAccessSubject_def trim_prefix_def matches_person_def)
qed

definition demo_rule :: "int \<Rightarrow> access_kind \<Rightarrow> string \<Rightarrow> Role \<Rightarrow> string list \<Rightarrow> AccessRule" where
  "demo_rule i kind subject role apps = \<lparr>ar_id = i, ar_kind = kind, ar_subject = subject, ar_role = role, ar_applications = apps,
     ar_createdAt = 0, ar_createdBy = ''root''\<rparr>"

definition demo_rules :: "AccessRule list" where
  "demo_rules = [demo_rule 1 AccessGroup ''web'' RoleDeploy [''web''], demo_rule 2 AccessDomain ''example.com'' RoleAdmin [],
     demo_rule 3 AccessGroup ''api'' RoleDeploy [''api'']]"

theorem most_specific_rule_decides_witness:
  "ResolveAccess demo_rules ''ada@example.com'' [''api'', ''web''] = Some \<lparr>gr_role = RoleDeploy, gr_applications = [''api'', ''web'']\<rparr> \<and>
   group_merge [demo_rule 1 AccessGroup ''web'' RoleDeploy [''web''], demo_rule 3 AccessGroup ''api'' RoleDeploy [''api'']]
     \<lparr>gr_role = RoleDeploy, gr_applications = [''api'', ''web'']\<rparr>"
proof -
  have "rules_ok demo_rules"
    by code_simp
  note t = most_specific_rule_decides[OF this, of "''ada@example.com''" "[''api'', ''web'']"]
  have g: "ResolveAccess demo_rules ''ada@example.com'' [''api'', ''web''] = Some \<lparr>gr_role = RoleDeploy, gr_applications = [''api'', ''web'']\<rparr>"
    by code_simp
  have "filter (\<lambda>q. ar_kind q = AccessGroup \<and> matches_person ''ada@example.com'' [''api'', ''web''] q) demo_rules =
      [demo_rule 1 AccessGroup ''web'' RoleDeploy [''web''], demo_rule 3 AccessGroup ''api'' RoleDeploy [''api'']]"
    by code_simp
  moreover have "ar_kind r = AccessGroup"
    if "r \<in> set demo_rules" "\<forall>q \<in> set demo_rules. matches_person ''ada@example.com'' [''api'', ''web''] q \<longrightarrow> specific (ar_kind q) \<le> specific (ar_kind r)" for r
  proof -
    have "matches_person ''ada@example.com'' [''api'', ''web''] (demo_rule 1 AccessGroup ''web'' RoleDeploy [''web''])"
      by code_simp
    then have "specific (ar_kind (demo_rule 1 AccessGroup ''web'' RoleDeploy [''web''])) \<le> specific (ar_kind r)"
      using that(2) by (simp add: demo_rules_def)
    then show ?thesis
      using that(1) by (auto simp: demo_rules_def demo_rule_def)
  qed
  ultimately show ?thesis
    using t g by auto
qed

end
