(* ===== verification/Access_Store.thy ===== *)
theory Access_Store
  imports Access_Rules
begin

text \<open>
  The tables of tokens, access rules and sessions (\<^verbatim>\<open>src/agent/internal/store/tokens.go\<close>,
  \<^verbatim>\<open>tokens_update.go\<close>, \<^verbatim>\<open>access.go\<close>) and the statements on them; a transaction is a function on the tables.
  The text in which the times are kept compares the way the times do. The ids of tokens are those of SQLite without
  AUTOINCREMENT: one more than the highest there is; those of rules and sessions are never used again.
\<close>

section \<open>Tables\<close>

record Token =
  to_id :: int
  to_name :: string
  to_role :: Role
  to_hash :: string
  to_createdAt :: go_time
  to_lastUsedAt :: "go_time option"
  to_applications :: "string list"
  to_expiresAt :: "go_time option"

record Session =
  se_id :: int
  se_hash :: string
  se_email :: string
  se_groups :: "string list"
  se_role :: Role
  se_applications :: "string list"
  se_createdAt :: go_time
  se_expiresAt :: go_time
  se_lastUsedAt :: "go_time option"
  se_endedAt :: "go_time option"
  se_endedReason :: string
  se_nameClaim :: string
  se_tenant :: string

record access_db =
  ax_tokens :: "Token list"
  ax_rules :: "AccessRule list"
  ax_rule_seq :: int
  ax_sessions :: "Session list"
  ax_session_seq :: int

datatype access_error = ErrTokenExists | ErrTooManyAccessRules | NoSuchAccessRow | UniqueHash | Unchangeable

section \<open>Tokens\<close>

definition next_token_id :: "access_db \<Rightarrow> int" where
  "next_token_id db = fold (\<lambda>t m. max m (to_id t)) (ax_tokens db) 0 + 1"

definition CreateToken :: "Token \<Rightarrow> access_db \<Rightarrow> access_error + Token \<times> access_db" where
  "CreateToken t db =
     (if list_ex (\<lambda>r. to_name r = to_name t) (ax_tokens db) then Inl ErrTokenExists
      else if list_ex (\<lambda>r. to_hash r = to_hash t) (ax_tokens db) then Inl UniqueHash
      else let t' = t\<lparr>to_id := next_token_id db, to_lastUsedAt := None\<rparr> in Inr (t', db\<lparr>ax_tokens := ax_tokens db @ [t']\<rparr>))"

definition GetTokenByHash :: "string \<Rightarrow> access_db \<Rightarrow> Token option" where
  "GetTokenByHash hash db = find (\<lambda>t. to_hash t = hash) (ax_tokens db)"

definition DeleteToken :: "string \<Rightarrow> access_db \<Rightarrow> access_error + access_db" where
  "DeleteToken name db =
     (if list_ex (\<lambda>t. to_name t = name) (ax_tokens db) then Inr (db\<lparr>ax_tokens := filter (\<lambda>t. to_name t \<noteq> name) (ax_tokens db)\<rparr>)
      else Inl NoSuchAccessRow)"

definition TouchToken :: "int \<Rightarrow> go_time \<Rightarrow> access_db \<Rightarrow> access_db" where
  "TouchToken i now db = db\<lparr>ax_tokens := map (\<lambda>t. if to_id t = i then t\<lparr>to_lastUsedAt := Some now\<rparr> else t) (ax_tokens db)\<rparr>"

text \<open>Whatever \<open>change\<close> makes of the token, only its applications and its end are stored.\<close>

definition UpdateToken :: "string \<Rightarrow> (Token \<Rightarrow> Token option) \<Rightarrow> access_db \<Rightarrow> access_error + Token \<times> Token \<times> access_db" where
  "UpdateToken name change db =
     (case find (\<lambda>t. to_name t = name) (ax_tokens db) of
        None \<Rightarrow> Inl NoSuchAccessRow
      | Some before \<Rightarrow>
          (case change before of
             None \<Rightarrow> Inl Unchangeable
           | Some changed \<Rightarrow>
               Inr (before,
                 changed\<lparr>to_id := to_id before, to_name := to_name before, to_role := to_role before, to_hash := to_hash before\<rparr>,
                 db\<lparr>ax_tokens := map (\<lambda>t. if to_id t = to_id before
                     then t\<lparr>to_applications := to_applications changed, to_expiresAt := to_expiresAt changed\<rparr> else t) (ax_tokens db)\<rparr>)))"

text \<open>What \<open>handleUpdateToken\<close> passes as the change, once the request has been found reasonable.\<close>

definition token_change :: "string list option \<Rightarrow> bool \<Rightarrow> go_time option \<Rightarrow> Token \<Rightarrow> Token option" where
  "token_change applications neverExpires expiresAt t =
     (let expire = (\<lambda>t. if neverExpires then t\<lparr>to_expiresAt := None\<rparr>
        else case expiresAt of None \<Rightarrow> t | Some at \<Rightarrow> t\<lparr>to_expiresAt := Some (time_truncate at second)\<rparr>)
      in case applications of
           None \<Rightarrow> Some (expire t)
         | Some apps \<Rightarrow>
             (case ValidateTokenApplications (to_role t) apps of
                None \<Rightarrow> None
              | Some valid \<Rightarrow> Some (expire (t\<lparr>to_applications := valid\<rparr>))))"

section \<open>Rules\<close>

definition same_subject :: "AccessRule \<Rightarrow> AccessRule \<Rightarrow> bool" where
  "same_subject r q \<longleftrightarrow> ar_kind q = ar_kind r \<and> ar_subject q = ar_subject r"

definition GrantAccess :: "AccessRule \<Rightarrow> access_db \<Rightarrow> access_error + AccessRule \<times> bool \<times> access_db" where
  "GrantAccess r db =
     (case find (same_subject r) (ax_rules db) of
        Some old \<Rightarrow>
          (let r' = r\<lparr>ar_id := ar_id old\<rparr>
           in Inr (r', True, db\<lparr>ax_rules := map (\<lambda>q. if ar_id q = ar_id old then
                q\<lparr>ar_role := ar_role r, ar_applications := ar_applications r, ar_createdAt := ar_createdAt r, ar_createdBy := ar_createdBy r\<rparr>
                else q) (ax_rules db)\<rparr>))
      | None \<Rightarrow>
          if MaxAccessRules \<le> length (ax_rules db) then Inl ErrTooManyAccessRules
          else let i = ax_rule_seq db + 1; r' = r\<lparr>ar_id := i\<rparr>
               in Inr (r', False, db\<lparr>ax_rules := ax_rules db @ [r'], ax_rule_seq := i\<rparr>))"

definition RevokeAccess :: "int \<Rightarrow> access_db \<Rightarrow> access_error + AccessRule \<times> access_db" where
  "RevokeAccess i db =
     (case find (\<lambda>r. ar_id r = i) (ax_rules db) of
        None \<Rightarrow> Inl NoSuchAccessRow
      | Some r \<Rightarrow> Inr (r, db\<lparr>ax_rules := filter (\<lambda>r. ar_id r \<noteq> i) (ax_rules db)\<rparr>))"

section \<open>Sessions\<close>

definition sessionsKeptFor :: duration where
  "sessionsKeptFor = 24 * hour"

definition CreateSession :: "Session \<Rightarrow> access_db \<Rightarrow> access_error + Session \<times> access_db" where
  "CreateSession s db =
     (if list_ex (\<lambda>r. se_hash r = se_hash s) (ax_sessions db) then Inl UniqueHash
      else let i = ax_session_seq db + 1;
             s' = s\<lparr>se_id := i, se_lastUsedAt := None, se_endedAt := None, se_endedReason := [],
               se_nameClaim := (if se_nameClaim s = [] then DefaultNameClaim else se_nameClaim s)\<rparr>
           in Inr (s', db\<lparr>ax_session_seq := i,
                ax_sessions := filter (\<lambda>r. \<not> se_expiresAt r < se_createdAt s - sessionsKeptFor) (ax_sessions db @ [s'])\<rparr>))"

definition GetSessionByHash :: "string \<Rightarrow> access_db \<Rightarrow> Session option" where
  "GetSessionByHash hash db = find (\<lambda>s. se_hash s = hash) (ax_sessions db)"

definition ActiveSessions :: "go_time \<Rightarrow> access_db \<Rightarrow> Session list" where
  "ActiveSessions now db = sort_key se_id (filter (\<lambda>s. se_endedAt s = None \<and> se_expiresAt s > now) (ax_sessions db))"

definition on_sessions :: "(Session \<Rightarrow> bool) \<Rightarrow> (Session \<Rightarrow> Session) \<Rightarrow> access_db \<Rightarrow> access_db" where
  "on_sessions P f db = db\<lparr>ax_sessions := map (\<lambda>s. if P s then f s else s) (ax_sessions db)\<rparr>"

definition EndSession :: "int \<Rightarrow> string \<Rightarrow> go_time \<Rightarrow> access_db \<Rightarrow> access_db" where
  "EndSession i reason now = on_sessions (\<lambda>s. se_id s = i \<and> se_endedAt s = None) (\<lambda>s. s\<lparr>se_endedAt := Some now, se_endedReason := reason\<rparr>)"

definition EndSessionsOf :: "string \<Rightarrow> string \<Rightarrow> go_time \<Rightarrow> access_db \<Rightarrow> nat \<times> access_db" where
  "EndSessionsOf email reason now db =
     (let hit = (\<lambda>s. se_email s = email \<and> se_endedAt s = None \<and> se_expiresAt s > now)
      in (length (filter hit (ax_sessions db)), on_sessions hit (\<lambda>s. s\<lparr>se_endedAt := Some now, se_endedReason := reason\<rparr>) db))"

definition DeleteSession :: "int \<Rightarrow> access_db \<Rightarrow> access_db" where
  "DeleteSession i db = db\<lparr>ax_sessions := filter (\<lambda>s. se_id s \<noteq> i) (ax_sessions db)\<rparr>"

definition TouchSession :: "int \<Rightarrow> go_time \<Rightarrow> access_db \<Rightarrow> access_db" where
  "TouchSession i now = on_sessions (\<lambda>s. se_id s = i) (\<lambda>s. s\<lparr>se_lastUsedAt := Some now\<rparr>)"

section \<open>The statements keep the tables in order\<close>

text \<open>Every credential, rule and id is unique; no id is ahead of its counter; roles of rules exist.\<close>

definition access_ok :: "access_db \<Rightarrow> bool" where
  "access_ok db \<longleftrightarrow> distinct (map to_id (ax_tokens db)) \<and> distinct (map to_name (ax_tokens db)) \<and> distinct (map to_hash (ax_tokens db)) \<and>
     rules_ok (ax_rules db) \<and> distinct (map ar_id (ax_rules db)) \<and> (\<forall>r \<in> set (ax_rules db). ar_id r \<le> ax_rule_seq db) \<and>
     length (ax_rules db) \<le> MaxAccessRules \<and>
     distinct (map se_hash (ax_sessions db)) \<and> distinct (map se_id (ax_sessions db)) \<and> (\<forall>s \<in> set (ax_sessions db). se_id s \<le> ax_session_seq db)"

inductive access_step :: "access_db \<Rightarrow> access_db \<Rightarrow> bool" where
  create_token: "CreateToken t db = Inr (t', db') \<Longrightarrow> access_step db db'"
| update_token: "UpdateToken name change db = Inr (t, t', db') \<Longrightarrow> access_step db db'"
| delete_token: "DeleteToken name db = Inr db' \<Longrightarrow> access_step db db'"
| touch_token: "access_step db (TouchToken i now db)"
| grant: "role_valid (ar_role r) \<Longrightarrow> GrantAccess r db = Inr (r', replaced, db') \<Longrightarrow> access_step db db'"
| revoke: "RevokeAccess i db = Inr (r, db') \<Longrightarrow> access_step db db'"
| create_session: "CreateSession s db = Inr (s', db') \<Longrightarrow> access_step db db'"
| end_session: "access_step db (EndSession i reason now db)"
| end_sessions: "access_step db (snd (EndSessionsOf email reason now db))"
| delete_session: "access_step db (DeleteSession i db)"
| touch_session: "access_step db (TouchSession i now db)"

lemma map_keep: "(\<And>x. x \<in> set xs \<Longrightarrow> f (g x) = f x) \<Longrightarrow> map f (map g xs) = map f xs"
  by simp

lemma distinct_map_filter': "distinct (map f xs) \<Longrightarrow> distinct (map f (filter P xs))"
  by (rule distinct_map_filter)

lemma fold_max_ge: "i \<le> fold (\<lambda>t m. max m (to_id t)) ts i \<and> (\<forall>t \<in> set ts. to_id t \<le> fold (\<lambda>t m. max m (to_id t)) ts i)"
proof (induction ts arbitrary: i)
  case (Cons t ts)
  show ?case
    using Cons.IH[of "max i (to_id t)"] by (auto simp: max.bounded_iff)
qed simp

lemma next_token_id_fresh: "t \<in> set (ax_tokens db) \<Longrightarrow> to_id t < next_token_id db"
  using fold_max_ge[of 0 "ax_tokens db"] by (fastforce simp: next_token_id_def)

lemma on_sessions_ok:
  assumes "access_ok db" "\<And>s. se_id (f s) = se_id s \<and> se_hash (f s) = se_hash s"
  shows "access_ok (on_sessions P f db)"
proof -
  have "map se_hash (map (\<lambda>s. if P s then f s else s) (ax_sessions db)) = map se_hash (ax_sessions db)"
    "map se_id (map (\<lambda>s. if P s then f s else s) (ax_sessions db)) = map se_id (ax_sessions db)"
    by (simp_all add: assms(2))
  then show ?thesis
    using assms unfolding access_ok_def on_sessions_def by (simp add: map_map[symmetric] del: map_map) (auto split: if_splits)
qed

lemma access_step_ok: "access_step db db' \<Longrightarrow> access_ok db \<Longrightarrow> access_ok db'"
proof (induction rule: access_step.induct)
  case (create_token t db t' db')
  then show ?case
    using next_token_id_fresh[of _ db] unfolding CreateToken_def access_ok_def
    by (fastforce simp: Let_def list_ex_iff split: if_splits)
next
  case (update_token name change db t t' db')
  then show ?case
    by (auto simp: UpdateToken_def access_ok_def comp_def if_distrib split: option.splits cong: if_cong)
next
  case (delete_token name db db')
  then show ?case
    by (auto simp: DeleteToken_def access_ok_def intro: distinct_map_filter' split: if_splits)
next
  case (touch_token db i now)
  then show ?case
    by (auto simp: TouchToken_def access_ok_def comp_def if_distrib cong: if_cong)
next
  case (grant r db r' replaced db')
  show ?case
  proof (cases "find (same_subject r) (ax_rules db)")
    case (Some old)
    then have old: "old \<in> set (ax_rules db)"
      using find_SomeD by fastforce
    let ?f = "\<lambda>q. if ar_id q = ar_id old then q\<lparr>ar_role := ar_role r, ar_applications := ar_applications r, ar_createdAt := ar_createdAt r,
      ar_createdBy := ar_createdBy r\<rparr> else q"
    have "map (\<lambda>r. (ar_kind r, ar_subject r)) (map ?f (ax_rules db)) = map (\<lambda>r. (ar_kind r, ar_subject r)) (ax_rules db)"
      "map ar_id (map ?f (ax_rules db)) = map ar_id (ax_rules db)"
      by simp_all
    moreover have "db' = db\<lparr>ax_rules := map ?f (ax_rules db)\<rparr>"
      using grant(2) Some by (simp add: GrantAccess_def Let_def)
    ultimately show ?thesis
      using grant unfolding access_ok_def rules_ok_def by (simp add: map_map[symmetric] del: map_map) (auto simp: list_all_iff)
  next
    case None
    have fresh: "(ar_kind r, ar_subject r) \<notin> (\<lambda>r. (ar_kind r, ar_subject r)) ` set (ax_rules db)"
      using None by (auto simp: find_None_iff' same_subject_def)
    have "db' = db\<lparr>ax_rules := ax_rules db @ [r\<lparr>ar_id := ax_rule_seq db + 1\<rparr>], ax_rule_seq := ax_rule_seq db + 1\<rparr>" "length (ax_rules db) < MaxAccessRules"
      using grant(2) None by (auto simp: GrantAccess_def Let_def split: if_splits)
    then show ?thesis
      using grant(1,3) fresh unfolding access_ok_def rules_ok_def by (fastforce simp: list_all_iff)
  qed
next
  case (revoke i db r db')
  then show ?case
    by (auto simp: RevokeAccess_def access_ok_def rules_ok_def list_all_iff intro: distinct_map_filter' le_trans[OF length_filter_le] split: option.splits)
next
  case (create_session s db s' db')
  then show ?case
    unfolding CreateSession_def access_ok_def
    by (fastforce simp: Let_def list_ex_iff intro!: distinct_map_filter' split: if_splits)
next
  case (delete_session db i)
  then show ?case
    by (auto simp: DeleteSession_def access_ok_def intro: distinct_map_filter')
qed (simp_all add: EndSession_def EndSessionsOf_def TouchSession_def on_sessions_ok Let_def)

end
