(* ===== verification/Access.thy ===== *)
theory Access
  imports Access_Store Rate_Limit
begin

text \<open>
  The way of a request to its handler (\<^verbatim>\<open>src/agent/internal/api/access.go\<close>, \<^verbatim>\<open>auth.go\<close>, \<^verbatim>\<open>server.go\<close>,
  \<^verbatim>\<open>audit.go\<close>, the sessions of \<^verbatim>\<open>signin.go\<close>): whose credential it carries, whether the caller may use the
  endpoint, and what the audit trail says of it. The endpoints are those that \<open>Handler\<close> registers.

  SHA-256 is a parameter \<open>h\<close>. What the outside does in one request is a record: the times the clock is read,
  which calls of the store fail, and how the handler ends. Handlers themselves are not part of the model.
\<close>

section \<open>Endpoints\<close>

record auditedRoute =
  au_action :: string
  au_target :: string
  au_detail :: string

definition audited :: "string \<Rightarrow> string \<Rightarrow> string \<Rightarrow> auditedRoute" where
  "audited action target detail = \<lparr>au_action = action, au_target = target, au_detail = detail\<rparr>"

definition auditedRoutes :: "(string \<times> auditedRoute) list" where
  "auditedRoutes =
    [(''DELETE /api/v1/applications/{name}'', audited ''application.delete'' [] []),
     (''POST /api/v1/applications/{name}/deploy'', audited ''deploy'' [] []),
     (''POST /api/v1/applications/{name}/redeploy'', audited ''redeploy'' [] []),
     (''POST /api/v1/applications/{name}/rollback'', audited ''rollback'' [] []),
     (''POST /api/v1/applications/{name}/stop'', audited ''stop'' [] []),
     (''POST /api/v1/applications/{name}/start'', audited ''start'' [] []),
     (''POST /api/v1/applications/{name}/images'', audited ''image.upload'' [] []),
     (''PUT /api/v1/applications/{name}/static'', audited ''static.upload'' [] []),
     (''POST /api/v1/applications/{name}/jobs/{job}/run'', audited ''job.run'' ''job'' []),
     (''POST /api/v1/applications/{name}/run'', audited ''run'' [] []),
     (''POST /api/v1/applications/{name}/backups'', audited ''backup.create'' [] []),
     (''POST /api/v1/applications/{name}/backups/{id}/verify'', audited ''backup.verify'' ''id'' []),
     (''POST /api/v1/applications/{name}/backups/{id}/restore'', audited ''backup.restore'' ''id'' []),
     (''GET /api/v1/applications/{name}/backups/{id}/volumes/{volume}/archive'', audited ''backup.download'' ''id'' ''volume''),
     (''DELETE /api/v1/applications/{name}/backups/{id}'', audited ''backup.delete'' ''id'' []),
     (''POST /api/v1/server/backups'', audited ''server.backup'' [] []),
     (''POST /api/v1/server/backups/adopt'', audited ''backup.adopt'' [] []),
     (''GET /api/v1/applications/{name}/volumes/{volume}/archive'', audited ''volume.download'' ''volume'' []),
     (''PUT /api/v1/applications/{name}/volumes/{volume}/archive'', audited ''volume.restore'' ''volume'' []),
     (''DELETE /api/v1/volumes/{name}'', audited ''volume.delete'' ''name'' []),
     (''PUT /api/v1/secrets/{name}'', audited ''secret.set'' ''name'' []),
     (''DELETE /api/v1/secrets/{name}'', audited ''secret.delete'' ''name'' []),
     (''PUT /api/v1/registries/{registry}'', audited ''registry.login'' ''registry'' []),
     (''DELETE /api/v1/registries/{registry}'', audited ''registry.logout'' ''registry'' []),
     (''PUT /api/v1/certificates/{hostname}'', audited ''certificate.set'' ''hostname'' []),
     (''DELETE /api/v1/certificates/{hostname}'', audited ''certificate.delete'' ''hostname'' []),
     (''POST /api/v1/tokens'', audited ''token.create'' [] []),
     (''DELETE /api/v1/tokens/{name}'', audited ''token.revoke'' ''name'' []),
     (''POST /api/v1/server/rotate-key'', audited ''key.rotate'' [] []),
     (''POST /api/v1/export'', audited ''export.download'' [] []),
     (''POST /api/v1/exports'', audited ''export.create'' [] []),
     (''POST /api/v1/import'', audited ''import'' [] []),
     (''POST /api/v1/standby/pull'', audited ''standby.pull'' [] []),
     (''POST /api/v1/standby/promote'', audited ''standby.promote'' [] []),
     (''DELETE /api/v1/auth/session'', audited ''signout'' [] []),
     (''POST /api/v1/access/rules'', audited ''access.grant'' [] []),
     (''DELETE /api/v1/access/rules/{id}'', audited ''access.revoke'' ''id'' []),
     (''DELETE /api/v1/access/sessions/{email}'', audited ''access.signout'' ''email'' []),
     (''PUT /api/v1/tokens/{name}'', audited ''token.update'' ''name'' []),
     (''GET /api/v1/audit/export'', audited ''audit.export'' [] []),
     (''POST /api/v1/applications'', audited ''deploy'' [] []),
     (''POST /api/v1/server/cloudflare/verify'', audited ''cloudflare.verify'' [] [])]"

definition unauditedRoutes :: "string list" where
  "unauditedRoutes =
    [''POST /api/v1/applications/{name}/validate'',
     ''POST /api/v1/applications/{name}/images/missing'',
     ''POST /api/v1/validate'']"

definition documentRoutes :: "string list" where
  "documentRoutes = [''POST /api/v1/applications'', ''POST /api/v1/validate'']"

definition applicationPrefix :: string where
  "applicationPrefix = ''/api/v1/applications/{name}''"

record route =
  rt_method :: string
  rt_path :: string
  rt_role :: Role
  rt_application :: bool
  rt_document :: bool
  rt_audit :: "auditedRoute option"

definition newRoute :: "string \<Rightarrow> Role \<Rightarrow> route" where
  "newRoute pattern role =
     (case cut_at CHR '' '' pattern of (method, path, _) \<Rightarrow>
        \<lparr>rt_method = method, rt_path = path, rt_role = role,
          rt_application = (path = applicationPrefix \<or> has_prefix path (applicationPrefix @ ''/'')),
          rt_document = (pattern \<in> set documentRoutes),
          rt_audit = map_of auditedRoutes pattern\<rparr>)"

text \<open>What \<open>Handler\<close> registers, itself and through the function of each file, with the roles of \<open>read\<close>, \<open>deploy\<close> and \<open>admin\<close>.\<close>

definition handlerRoutes :: "(string \<times> Role) list" where
  "handlerRoutes =
    [(''GET /api/v1/server'', RoleRead),
     (''GET /api/v1/applications'', RoleRead),
     (''GET /api/v1/applications/{name}'', RoleRead),
     (''DELETE /api/v1/applications/{name}'', RoleAdmin),
     (''POST /api/v1/applications/{name}/deploy'', RoleDeploy),
     (''POST /api/v1/applications/{name}/redeploy'', RoleDeploy),
     (''POST /api/v1/applications/{name}/rollback'', RoleDeploy),
     (''POST /api/v1/applications/{name}/stop'', RoleDeploy),
     (''POST /api/v1/applications/{name}/start'', RoleDeploy),
     (''GET /api/v1/applications/{name}/logs'', RoleRead),
     (''GET /api/v1/applications/{name}/events'', RoleRead),
     (''GET /api/v1/applications/{name}/metrics'', RoleRead),
     (''GET /api/v1/deployments'', RoleRead),
     (''GET /api/v1/deployments/{id}'', RoleRead)]"

definition jobRoutes :: "(string \<times> Role) list" where
  "jobRoutes =
    [(''GET /api/v1/applications/{name}/jobs'', RoleRead),
     (''GET /api/v1/applications/{name}/runs'', RoleRead),
     (''GET /api/v1/applications/{name}/runs/{id}'', RoleRead),
     (''POST /api/v1/applications/{name}/jobs/{job}/run'', RoleDeploy),
     (''POST /api/v1/applications/{name}/run'', RoleDeploy)]"

definition volumeRoutes :: "(string \<times> Role) list" where
  "volumeRoutes =
    [(''GET /api/v1/applications/{name}/volumes'', RoleRead),
     (''GET /api/v1/applications/{name}/volumes/{volume}/archive'', RoleAdmin),
     (''PUT /api/v1/applications/{name}/volumes/{volume}/archive'', RoleAdmin)]"

definition managedVolumeRoutes :: "(string \<times> Role) list" where
  "managedVolumeRoutes =
    [(''GET /api/v1/volumes'', RoleRead),
     (''DELETE /api/v1/volumes/{name}'', RoleAdmin)]"

definition tokenRoutes :: "(string \<times> Role) list" where
  "tokenRoutes =
    [(''GET /api/v1/tokens'', RoleAdmin),
     (''POST /api/v1/tokens'', RoleAdmin),
     (''DELETE /api/v1/tokens/{name}'', RoleAdmin),
     (''PUT /api/v1/tokens/{name}'', RoleAdmin)]"

definition metricsRoutes :: "(string \<times> Role) list" where
  "metricsRoutes =
    [(''GET /api/v1/applications/{name}/metrics/history'', RoleRead)]"

definition imageRoutes :: "(string \<times> Role) list" where
  "imageRoutes =
    [(''POST /api/v1/applications/{name}/images'', RoleDeploy),
     (''POST /api/v1/applications/{name}/images/missing'', RoleDeploy)]"

definition secretRoutes :: "(string \<times> Role) list" where
  "secretRoutes =
    [(''GET /api/v1/secrets'', RoleRead),
     (''PUT /api/v1/secrets/{name}'', RoleAdmin),
     (''DELETE /api/v1/secrets/{name}'', RoleAdmin)]"

definition staticRoutes :: "(string \<times> Role) list" where
  "staticRoutes =
    [(''PUT /api/v1/applications/{name}/static'', RoleDeploy)]"

definition validateRoutes :: "(string \<times> Role) list" where
  "validateRoutes =
    [(''POST /api/v1/applications/{name}/validate'', RoleDeploy)]"

definition backupRoutes :: "(string \<times> Role) list" where
  "backupRoutes =
    [(''GET /api/v1/applications/{name}/backups'', RoleRead),
     (''GET /api/v1/applications/{name}/backups/{id}'', RoleRead),
     (''POST /api/v1/applications/{name}/backups'', RoleDeploy),
     (''POST /api/v1/applications/{name}/backups/{id}/verify'', RoleDeploy),
     (''POST /api/v1/applications/{name}/backups/{id}/restore'', RoleAdmin),
     (''GET /api/v1/applications/{name}/backups/{id}/volumes/{volume}/archive'', RoleAdmin),
     (''DELETE /api/v1/applications/{name}/backups/{id}'', RoleAdmin),
     (''GET /api/v1/server/backups'', RoleAdmin),
     (''GET /api/v1/server/backups/{id}'', RoleAdmin),
     (''POST /api/v1/server/backups'', RoleAdmin),
     (''POST /api/v1/server/backups/adopt'', RoleAdmin)]"

definition trafficRoutes :: "(string \<times> Role) list" where
  "trafficRoutes =
    [(''GET /api/v1/applications/{name}/traffic'', RoleRead),
     (''GET /api/v1/applications/{name}/requests'', RoleRead)]"

definition registryRoutes :: "(string \<times> Role) list" where
  "registryRoutes =
    [(''GET /api/v1/registries'', RoleRead),
     (''PUT /api/v1/registries/{registry}'', RoleAdmin),
     (''DELETE /api/v1/registries/{registry}'', RoleAdmin),
     (''POST /api/v1/server/rotate-key'', RoleAdmin)]"

definition certificateRoutes :: "(string \<times> Role) list" where
  "certificateRoutes =
    [(''GET /api/v1/certificates'', RoleRead),
     (''PUT /api/v1/certificates/{hostname}'', RoleAdmin),
     (''DELETE /api/v1/certificates/{hostname}'', RoleAdmin)]"

definition prometheusRoutes :: "(string \<times> Role) list" where
  "prometheusRoutes =
    [(''GET /metrics'', RoleRead)]"

definition exportRoutes :: "(string \<times> Role) list" where
  "exportRoutes =
    [(''POST /api/v1/export'', RoleAdmin),
     (''GET /api/v1/exports'', RoleAdmin),
     (''GET /api/v1/exports/{id}'', RoleAdmin),
     (''POST /api/v1/exports'', RoleAdmin),
     (''POST /api/v1/import'', RoleAdmin),
     (''GET /api/v1/import'', RoleAdmin),
     (''GET /api/v1/standby'', RoleRead),
     (''POST /api/v1/standby/pull'', RoleAdmin),
     (''POST /api/v1/standby/promote'', RoleAdmin),
     (''GET /api/v1/standby/promotion'', RoleRead)]"

definition auditRoutes :: "(string \<times> Role) list" where
  "auditRoutes =
    [(''GET /api/v1/audit'', RoleAdmin),
     (''GET /api/v1/audit/export'', RoleAdmin)]"

definition configRoutes :: "(string \<times> Role) list" where
  "configRoutes =
    [(''GET /api/v1/applications/{name}/config'', RoleDeploy),
     (''POST /api/v1/applications'', RoleDeploy),
     (''POST /api/v1/validate'', RoleDeploy)]"

definition logRoutes :: "(string \<times> Role) list" where
  "logRoutes =
    [(''GET /api/v1/applications/{name}/logs/archive'', RoleRead),
     (''GET /api/v1/applications/{name}/logs/archive/{id}'', RoleRead),
     (''GET /api/v1/applications/{name}/logs/search'', RoleRead)]"

definition cloudflareRoutes :: "(string \<times> Role) list" where
  "cloudflareRoutes =
    [(''POST /api/v1/server/cloudflare/verify'', RoleAdmin)]"

definition signInRoutes :: "(string \<times> Role) list" where
  "signInRoutes =
    [(''DELETE /api/v1/auth/session'', RoleRead),
     (''GET /api/v1/access/rules'', RoleAdmin),
     (''POST /api/v1/access/rules'', RoleAdmin),
     (''DELETE /api/v1/access/rules/{id}'', RoleAdmin),
     (''GET /api/v1/access/sessions'', RoleAdmin),
     (''DELETE /api/v1/access/sessions/{email}'', RoleAdmin)]"

definition registered :: "(string \<times> Role) list" where
  "registered =
     handlerRoutes @ jobRoutes @ volumeRoutes @ managedVolumeRoutes @ tokenRoutes @ metricsRoutes @
     imageRoutes @ secretRoutes @ staticRoutes @ validateRoutes @ backupRoutes @ trafficRoutes @ registryRoutes @
     certificateRoutes @ prometheusRoutes @ exportRoutes @ auditRoutes @ configRoutes @ logRoutes @ cloudflareRoutes @ signInRoutes"

section \<open>Authorization\<close>

definition printable :: "string \<Rightarrow> string" where
  "printable segment =
     (if segment = [] \<or> length segment > 128 then ''(invalid)''
      else if list_all (\<lambda>c. 33 \<le> byte_val c \<and> byte_val c \<le> 126) segment then segment else ''(invalid)'')"

datatype refusal =
    CodeForbidden Role Role
  | NotAboutOneApplication "string list"
  | NamesNoApplication "string list"
  | OtherApplication "string list" string

definition authorize :: "TokenIdentity \<Rightarrow> route \<Rightarrow> string \<Rightarrow> refusal option" where
  "authorize who rt name =
     (if \<not> Covers (id_role who) (rt_role rt) then Some (CodeForbidden (id_role who) (rt_role rt))
      else if rt_role rt = RoleRead \<or> \<not> Limited who then None
      else if \<not> rt_application rt \<and> \<not> rt_document rt then Some (NotAboutOneApplication (id_applications who))
      else if rt_document rt \<and> name = [] then Some (NamesNoApplication (id_applications who))
      else if Allows who name then None
      else Some (OtherApplication (id_applications who) (printable name)))"

section \<open>Whose credential\<close>

definition identityOf :: "string \<Rightarrow> Role \<Rightarrow> string list \<Rightarrow> go_time option \<Rightarrow> TokenIdentity" where
  "identityOf name role applications expiresAt =
     \<lparr>id_kind = ActorToken, id_name = name, id_role = role, id_applications = applications, id_expiresAt = expiresAt\<rparr>"

definition sessionIdentity :: "Session \<Rightarrow> TokenIdentity" where
  "sessionIdentity s = (identityOf (se_email s) (se_role s) (se_applications s) (Some (se_expiresAt s)))\<lparr>id_kind := ActorUser\<rparr>"

text \<open>How people sign in: the claim that names them and the tenants that are accepted; no provider, none.\<close>

record signIn =
  si_nameClaim :: "string option"
  si_tenantAllowed :: "string \<Rightarrow> bool"

definition nameClaim :: "signIn \<Rightarrow> string" where
  "nameClaim si = (case si_nameClaim si of None \<Rightarrow> DefaultNameClaim | Some c \<Rightarrow> c)"

definition stillVouchedFor :: "signIn \<Rightarrow> Session \<Rightarrow> bool" where
  "stillVouchedFor si s \<longleftrightarrow> se_nameClaim s = nameClaim si \<and> (si_nameClaim si = None \<or> si_tenantAllowed si (se_tenant s))"

record audit_entry =
  en_id :: int
  en_at :: go_time
  en_kind :: caller_kind
  en_actor :: string
  en_address :: string
  en_action :: string
  en_application :: string
  en_target :: string
  en_detail :: string
  en_status :: nat
  en_outcome :: string

record api_server =
  sv_db :: access_db
  sv_limiter :: rateLimiter
  sv_lastUsed :: "int \<Rightarrow> go_time option"
  sv_used :: "int \<Rightarrow> go_time option"
  sv_audit :: "audit_entry list"
  sv_audit_seq :: int

text \<open>
  One request's dealings with the outside: what the clock says to the lookup, to the limiter and to the check of
  the end; when the audit entry is begun; which calls of the store work; the status the handler ends with (500 for a panic, 200 for none), and
  whether an export broke off after it.
\<close>

record api_env =
  ev_now :: go_time
  ev_limiter_now :: go_time
  ev_checked :: go_time
  ev_served :: go_time
  ev_token_lookup :: bool
  ev_session_lookup :: bool
  ev_rules_read :: bool
  ev_session_end :: bool
  ev_touch :: bool
  ev_audit :: bool
  ev_status :: nat
  ev_broken :: bool

record request =
  rq_address :: string
  rq_authorization :: string
  rq_path :: "string \<Rightarrow> string"
  rq_document :: "string option"

definition lastUsedResolution :: duration where
  "lastUsedResolution = minute"

definition SessionLifetime :: duration where
  "SessionLifetime = 10 * hour"

definition recordUse :: "api_env \<Rightarrow> Token \<Rightarrow> api_server \<Rightarrow> api_server" where
  "recordUse e t srv =
     (let seen = (case sv_lastUsed srv (to_id t) of Some at \<Rightarrow> Some at | None \<Rightarrow> to_lastUsedAt t);
          srv' = srv\<lparr>sv_lastUsed := (sv_lastUsed srv)(to_id t := Some (ev_now e))\<rparr>
      in if (case seen of None \<Rightarrow> False | Some at \<Rightarrow> time_sub (ev_now e) at < lastUsedResolution) then srv
         else if ev_touch e then srv'\<lparr>sv_db := TouchToken (to_id t) (ev_now e) (sv_db srv')\<rparr> else srv')"

definition recordSessionUse :: "api_env \<Rightarrow> Session \<Rightarrow> api_server \<Rightarrow> api_server" where
  "recordSessionUse e s srv =
     (let seen = (case sv_used srv (se_id s) of Some at \<Rightarrow> Some at | None \<Rightarrow> se_lastUsedAt s);
          used = (sv_used srv)(se_id s := Some (ev_now e));
          kept = (\<lambda>i. case used i of None \<Rightarrow> None | Some at \<Rightarrow> if time_sub (ev_now e) at > SessionLifetime then None else Some at);
          srv' = srv\<lparr>sv_used := kept\<rparr>
      in if (case seen of None \<Rightarrow> False | Some at \<Rightarrow> time_sub (ev_now e) at < lastUsedResolution) then srv
         else if ev_touch e then srv'\<lparr>sv_db := TouchSession (se_id s) (ev_now e) (sv_db srv')\<rparr> else srv')"

datatype identified = NotKnown | Known TokenIdentity string

definition SessionEndedRuleRemoved :: string where "SessionEndedRuleRemoved = ''rule_removed''"
definition SessionEndedAccessChanged :: string where "SessionEndedAccessChanged = ''access_changed''"
definition SessionEndedSignedOut :: string where "SessionEndedSignedOut = ''signed_out''"
definition SessionEndedSignInChanged :: string where "SessionEndedSignInChanged = ''sign_in_changed''"

text \<open>Why a session that is neither over nor ended does not stand any more, \<open>[]\<close> if it does.\<close>

definition session_verdict :: "signIn \<Rightarrow> AccessRule list \<Rightarrow> Session \<Rightarrow> string" where
  "session_verdict si rules s =
     (if \<not> stillVouchedFor si s then SessionEndedSignInChanged
      else case ResolveAccess rules (se_email s) (se_groups s) of
          None \<Rightarrow> SessionEndedRuleRemoved
        | Some g \<Rightarrow> if g \<noteq> \<lparr>gr_role = se_role s, gr_applications = se_applications s\<rparr> then SessionEndedAccessChanged else [])"

definition identifySession :: "api_env \<Rightarrow> signIn \<Rightarrow> string \<Rightarrow> api_server \<Rightarrow> identified \<times> api_server" where
  "identifySession e si presented srv =
     (case (if ev_session_lookup e then GetSessionByHash presented (sv_db srv) else None) of
        None \<Rightarrow> (NotKnown, srv)
      | Some s \<Rightarrow>
          if se_hash s \<noteq> presented then (NotKnown, srv)
          else
            let who = sessionIdentity s
            in if se_endedAt s \<noteq> None then (Known who (se_endedReason s), srv)
               else if \<not> ev_now e < se_expiresAt s then (Known who [], srv)
               else if \<not> ev_rules_read e then (NotKnown, srv)
               else let verdict = session_verdict si (ax_rules (sv_db srv)) s
                    in if verdict \<noteq> [] then
                         (Known who verdict,
                          (if ev_session_end e then srv\<lparr>sv_db := EndSession (se_id s) verdict (ev_now e) (sv_db srv)\<rparr> else srv))
                       else (Known who [], recordSessionUse e s srv))"

definition identify :: "api_env \<Rightarrow> signIn \<Rightarrow> string \<Rightarrow> string \<Rightarrow> api_server \<Rightarrow> identified \<times> api_server" where
  "identify e si root presented srv =
     (if presented = root then (Known (identityOf RootTokenName RoleAdmin [] None) [], srv)
      else if \<not> ev_token_lookup e then (NotKnown, srv)
      else case GetTokenByHash presented (sv_db srv) of
          None \<Rightarrow> identifySession e si presented srv
        | Some t \<Rightarrow>
            if to_hash t \<noteq> presented then (NotKnown, srv)
            else (Known (identityOf (to_name t) (to_role t) (to_applications t) (to_expiresAt t)) [],
                  (if (case to_expiresAt t of None \<Rightarrow> True | Some at \<Rightarrow> ev_now e < at) then recordUse e t srv else srv)))"

section \<open>A request\<close>

definition nameDocument :: "route \<Rightarrow> request \<Rightarrow> request" where
  "nameDocument rt rq =
     (if \<not> rt_document rt then rq
      else case rq_document rq of None \<Rightarrow> rq | Some name \<Rightarrow> rq\<lparr>rq_path := (rq_path rq)(''name'' := name)\<rparr>)"

definition beginAudit :: "go_time \<Rightarrow> TokenIdentity \<Rightarrow> route \<Rightarrow> auditedRoute \<Rightarrow> request \<Rightarrow> nat \<Rightarrow> string \<Rightarrow> audit_entry" where
  "beginAudit now who rt a rq status outcome =
     \<lparr>en_id = 0, en_at = now, en_kind = id_kind who, en_actor = id_name who, en_address = rq_address rq, en_action = au_action a,
       en_application = (if (rt_application rt \<or> rt_document rt) \<and> ValidateName (rq_path rq ''name'') then rq_path rq ''name'' else []),
       en_target = (if au_target a \<noteq> [] then printable (rq_path rq (au_target a)) else []),
       en_detail = (if au_detail a \<noteq> [] then au_detail a @ '' '' @ printable (rq_path rq (au_detail a)) else []),
       en_status = status, en_outcome = outcome\<rparr>"

definition AuditRetention :: duration where "AuditRetention = 365 * 24 * hour"
definition AuditMaxEntries :: int where "AuditMaxEntries = 100000"

text \<open>The entry is written, and what has outlived the retention or is beyond the count goes, in one transaction.\<close>

definition AddAuditEntry :: "audit_entry \<Rightarrow> api_server \<Rightarrow> api_server" where
  "AddAuditEntry en srv =
     (let i = sv_audit_seq srv + 1
      in srv\<lparr>sv_audit_seq := i,
           sv_audit := filter (\<lambda>r. \<not> en_at r < en_at en - AuditRetention \<and> \<not> en_id r \<le> i - AuditMaxEntries)
             (sv_audit srv @ [en\<lparr>en_id := i\<rparr>])\<rparr>)"

definition audit_outcome :: "nat \<Rightarrow> bool \<Rightarrow> string" where
  "audit_outcome status broken =
     (if status < 400 \<and> broken then ''failed'' else if status < 400 then ''ok'' else if status = 403 then ''refused'' else ''failed'')"

datatype answer = RateLimited duration | Unauthorized | Ended TokenIdentity string | Expired TokenIdentity | Refused TokenIdentity refusal | Served TokenIdentity string

text \<open>An entry that could not be written is logged, and the request answered all the same.\<close>

definition serve :: "api_env \<Rightarrow> route \<Rightarrow> TokenIdentity \<Rightarrow> request \<Rightarrow> api_server \<Rightarrow> answer \<times> api_server" where
  "serve e rt who rq srv =
     (let rq' = nameDocument rt rq;
          name = rq_path rq' ''name'';
          write = (\<lambda>status broken. case rt_audit rt of
              None \<Rightarrow> srv
            | Some a \<Rightarrow> if ev_audit e then AddAuditEntry (beginAudit (ev_served e) who rt a rq' status (audit_outcome status broken)) srv else srv)
      in case authorize who rt name of
           Some r \<Rightarrow> (Refused who r, write 403 False)
         | None \<Rightarrow> (Served who name, write (ev_status e) (ev_broken e)))"

text \<open>The header without \<open>Bearer\<close> is hashed as it is, and not accepted.\<close>

definition authenticate ::
    "(string \<Rightarrow> string) \<Rightarrow> api_env \<Rightarrow> signIn \<Rightarrow> string \<Rightarrow> route \<Rightarrow> request \<Rightarrow> api_server \<Rightarrow> answer \<times> api_server" where
  "authenticate h e si root rt rq srv =
     (let ok = has_prefix (rq_authorization rq) ''Bearer '';
          token = trim_prefix (rq_authorization rq) ''Bearer ''
      in case identify e si root (h token) srv of (found, srv1) \<Rightarrow>
         case (if ok then found else NotKnown) of
           NotKnown \<Rightarrow>
             (case limited (rq_address rq) (ev_limiter_now e) (sv_limiter srv1) of
                (Some wait, l) \<Rightarrow> (RateLimited wait, srv1\<lparr>sv_limiter := l\<rparr>)
              | (None, l) \<Rightarrow> (Unauthorized, srv1\<lparr>sv_limiter := failed (rq_address rq) (ev_limiter_now e) l\<rparr>))
         | Known who ended \<Rightarrow>
             if ended \<noteq> [] then (Ended who ended, srv1)
             else if (case id_expiresAt who of None \<Rightarrow> False | Some at \<Rightarrow> \<not> ev_checked e < at) then (Expired who, srv1)
             else serve e rt who rq srv1)"

lemma AddAuditEntry_rest [simp]: "sv_db (AddAuditEntry en srv) = sv_db srv" "sv_limiter (AddAuditEntry en srv) = sv_limiter srv"
    "AddAuditEntry en (srv\<lparr>sv_limiter := l\<rparr>) = (AddAuditEntry en srv)\<lparr>sv_limiter := l\<rparr>"
  by (simp_all add: AddAuditEntry_def Let_def)

section \<open>What a limited caller may change\<close>

definition under_applications :: "string \<Rightarrow> bool" where
  "under_applications pattern \<longleftrightarrow>
     (let path = fst (snd (cut_at CHR '' '' pattern)) in path = applicationPrefix \<or> has_prefix path (applicationPrefix @ ''/''))"

lemma newRoute_fields [simp]:
  "rt_role (newRoute pattern role) = role" "rt_method (newRoute pattern role) = fst (cut_at CHR '' '' pattern)"
  "rt_audit (newRoute pattern role) = map_of auditedRoutes pattern" "rt_document (newRoute pattern role) \<longleftrightarrow> pattern \<in> set documentRoutes"
  "rt_application (newRoute pattern role) \<longleftrightarrow> under_applications pattern"
  by (simp_all add: newRoute_def under_applications_def Let_def split: prod.splits)

lemma deploy_routes: "list_all (\<lambda>(pattern, role). if role = RoleDeploy then under_applications pattern \<or> pattern \<in> set documentRoutes
    else role = RoleRead \<or> role = RoleAdmin) registered"
  by code_simp

text \<open>
  C35: Of all endpoints of the API, a deploy credential that is limited to some applications may use exactly those that
  need no more than reading, and those for deploying where the path, or the document, names one of its applications.
\<close>

theorem limited_caller_confined:
  assumes "(pattern, role) \<in> set registered" "id_role who = RoleDeploy" "id_applications who \<noteq> []" "list_all ValidateName (id_applications who)"
  shows "authorize who (newRoute pattern role) name = None \<longleftrightarrow> role = RoleRead \<or> role = RoleDeploy \<and> name \<in> set (id_applications who)"
proof -
  have r: "role \<in> {RoleRead, RoleDeploy, RoleAdmin}" "role = RoleDeploy \<longrightarrow> rt_application (newRoute pattern role) \<or> rt_document (newRoute pattern role)"
    using deploy_routes assms(1) by (auto simp: list_all_iff split: if_splits)
  have "[] \<notin> set (id_applications who)"
    using assms(4) by (auto simp: list_all_iff ValidateName_def label_pattern_def)
  moreover have "Limited who"
    using assms(2,3) by (simp add: Limited_def)
  ultimately show ?thesis
    using r assms(2) by (auto simp: authorize_def Allows_def)
qed

section \<open>Whose requests are served\<close>

text \<open>The reason of an end is never empty.\<close>

definition ends_explained :: "access_db \<Rightarrow> bool" where
  "ends_explained db \<longleftrightarrow> (\<forall>s \<in> set (ax_sessions db). se_endedAt s \<noteq> None \<longrightarrow> se_endedReason s \<noteq> [])"

lemma GetTokenByHash_Some: "GetTokenByHash k db = Some t \<Longrightarrow> t \<in> set (ax_tokens db) \<and> to_hash t = k"
  using find_SomeD by (fastforce simp: GetTokenByHash_def)

lemma GetSessionByHash_Some: "GetSessionByHash k db = Some s \<Longrightarrow> s \<in> set (ax_sessions db) \<and> se_hash s = k"
  using find_SomeD by (fastforce simp: GetSessionByHash_def)

lemma session_verdict_Nil:
  "session_verdict si rules s = [] \<longleftrightarrow>
     stillVouchedFor si s \<and> ResolveAccess rules (se_email s) (se_groups s) = Some \<lparr>gr_role = se_role s, gr_applications = se_applications s\<rparr>"
  by (simp add: session_verdict_def SessionEndedRuleRemoved_def SessionEndedAccessChanged_def SessionEndedSignInChanged_def split: option.splits)

definition stands :: "(string \<Rightarrow> string) \<Rightarrow> signIn \<Rightarrow> string \<Rightarrow> access_db \<Rightarrow> go_time \<Rightarrow> string \<Rightarrow> TokenIdentity \<Rightarrow> bool" where
  "stands h si root db now token who \<longleftrightarrow>
     h token = root \<and> who = identityOf RootTokenName RoleAdmin [] None \<or>
     (\<exists>t \<in> set (ax_tokens db). to_hash t = h token \<and> who = identityOf (to_name t) (to_role t) (to_applications t) (to_expiresAt t) \<and>
        (case to_expiresAt t of None \<Rightarrow> True | Some at \<Rightarrow> now < at)) \<or>
     (\<exists>s \<in> set (ax_sessions db). se_hash s = h token \<and> who = sessionIdentity s \<and> se_endedAt s = None \<and> now < se_expiresAt s \<and>
        stillVouchedFor si s \<and>
        ResolveAccess (ax_rules db) (se_email s) (se_groups s) = Some \<lparr>gr_role = se_role s, gr_applications = se_applications s\<rparr>)"

lemma identity_fields [simp]:
  "id_expiresAt (identityOf n r a x) = x" "id_expiresAt (sessionIdentity s) = Some (se_expiresAt s)"
  by (simp_all add: identityOf_def sessionIdentity_def)

lemma identified_stands:
  assumes "identify e si root k srv = (Known who [], srv')" "ends_explained (sv_db srv)" "k = h token"
    and "case id_expiresAt who of None \<Rightarrow> True | Some at \<Rightarrow> ev_checked e < at" "ev_now e \<le> ev_checked e"
  shows "stands h si root (sv_db srv) (ev_checked e) token who"
proof (cases "k = root \<or> \<not> ev_token_lookup e \<or> GetTokenByHash k (sv_db srv) \<noteq> None")
  case True
  then show ?thesis
    using assms by (auto simp: identify_def stands_def dest: GetTokenByHash_Some split: if_splits option.splits)
next
  case False
  then have i: "identifySession e si k srv = (Known who [], srv')"
    using assms(1) by (simp add: identify_def)
  then obtain s where s: "GetSessionByHash k (sv_db srv) = Some s" "who = sessionIdentity s" "se_endedAt s = None \<or> se_endedReason s = []"
    "\<not> ev_now e < se_expiresAt s \<or> se_endedAt s \<noteq> None \<or> session_verdict si (ax_rules (sv_db srv)) s = []"
    by (auto simp: identifySession_def Let_def split: if_splits option.splits)
  note m = GetSessionByHash_Some[OF s(1)]
  have "se_endedAt s = None"
    using s(3) assms(2) m by (auto simp: ends_explained_def)
  moreover have "ev_checked e < se_expiresAt s"
    using assms(4) s(2) by simp
  ultimately show ?thesis
    using s m assms(3,5) session_verdict_Nil by (auto simp: stands_def)
qed

text \<open>
  C33: A request reaches its handler only with the root token, with a stored token that has not expired, or with a session
  that has neither expired nor ended and to which the rules give, at this very request, what they gave at the sign-in; and
  only if the caller's role covers the endpoint.
\<close>

theorem served_has_standing:
  assumes "authenticate h e si root rt rq srv = (Served who name, srv')" "ends_explained (sv_db srv)" "ev_now e \<le> ev_checked e"
  shows "\<exists>token. rq_authorization rq = ''Bearer '' @ token \<and> stands h si root (sv_db srv) (ev_checked e) token who \<and>
    Covers (id_role who) (rt_role rt) \<and> authorize who rt name = None"
proof -
  let ?token = "trim_prefix (rq_authorization rq) ''Bearer ''"
  obtain found srv1 where f: "identify e si root (h ?token) srv = (found, srv1)"
    by (rule prod.exhaust)
  have bearer: "has_prefix (rq_authorization rq) ''Bearer ''" and known: "found = Known who []"
    and exp: "case id_expiresAt who of None \<Rightarrow> True | Some at \<Rightarrow> ev_checked e < at" and auth: "authorize who rt name = None"
    using assms(1) f by (auto simp: authenticate_def serve_def Let_def split: if_splits identified.splits option.splits prod.splits)
  have "rq_authorization rq = ''Bearer '' @ ?token"
    using has_prefix_split[OF bearer] bearer by (simp add: trim_prefix_def)
  moreover have "stands h si root (sv_db srv) (ev_checked e) ?token who"
    by (rule identified_stands[where h = h and token = ?token, OF f[unfolded known] assms(2) refl exp assms(3)])
  moreover have "Covers (id_role who) (rt_role rt)"
    using auth by (simp add: authorize_def split: if_splits)
  ultimately show ?thesis
    using auth by blast
qed

text \<open>
  C36: The limit on failed sign-ins never stands in the way of a credential that is known, and its use is not counted: the
  answer is the same whatever the limiter holds, and the limiter is left as it is.
\<close>

theorem known_never_limited:
  assumes "identify e si root (h token) srv = (Known who ended, srv1)" "rq_authorization rq = ''Bearer '' @ token"
  shows "(\<forall>wait. fst (authenticate h e si root rt rq (srv\<lparr>sv_limiter := l\<rparr>)) \<noteq> RateLimited wait) \<and>
    fst (authenticate h e si root rt rq (srv\<lparr>sv_limiter := l\<rparr>)) = fst (authenticate h e si root rt rq srv) \<and>
    sv_limiter (snd (authenticate h e si root rt rq (srv\<lparr>sv_limiter := l\<rparr>))) = l"
proof -
  have uses: "recordUse e t (srv\<lparr>sv_limiter := l\<rparr>) = (recordUse e t srv)\<lparr>sv_limiter := l\<rparr>"
    "recordSessionUse e s (srv\<lparr>sv_limiter := l\<rparr>) = (recordSessionUse e s srv)\<lparr>sv_limiter := l\<rparr>" for t s
    by (simp_all add: recordUse_def recordSessionUse_def Let_def)
  have "identifySession e si k (srv\<lparr>sv_limiter := l\<rparr>) = (case identifySession e si k srv of (f, x) \<Rightarrow> (f, x\<lparr>sv_limiter := l\<rparr>))" for k
    by (auto simp: identifySession_def uses Let_def split: option.splits)
  then have "identify e si root (h token) (srv\<lparr>sv_limiter := l\<rparr>) = (Known who ended, srv1\<lparr>sv_limiter := l\<rparr>)"
    using assms(1) by (auto simp: identify_def uses split: option.splits if_splits)
  moreover have "has_prefix (rq_authorization rq) ''Bearer ''" "trim_prefix (rq_authorization rq) ''Bearer '' = token"
    by (simp_all only: assms(2) has_prefix_append trim_append)
  ultimately show ?thesis
    using assms(1) by (simp add: authenticate_def serve_def Let_def split: option.splits)
qed

section \<open>What leaves a trace\<close>

lemma changes_audited: "list_all (\<lambda>(pattern, role). if fst (cut_at CHR '' '' pattern) = ''GET'' then True
    else if pattern \<in> set unauditedRoutes then True
    else (case map_of auditedRoutes pattern of None \<Rightarrow> False | Some a \<Rightarrow> au_action a \<noteq> [])) registered"
  by code_simp

lemma recordUse_audit [simp]: "sv_audit (recordUse e t srv) = sv_audit srv" "sv_audit (recordSessionUse e s srv) = sv_audit srv"
  by (simp_all add: recordUse_def recordSessionUse_def Let_def)

lemma recordUse_audit_seq [simp]: "sv_audit_seq (recordUse e t srv) = sv_audit_seq srv" "sv_audit_seq (recordSessionUse e s srv) = sv_audit_seq srv"
  by (simp_all add: recordUse_def recordSessionUse_def Let_def)

lemma AddAuditEntry_audit:
  "sv_audit (AddAuditEntry en srv) =
     filter (\<lambda>r. en_at en - AuditRetention \<le> en_at r \<and> sv_audit_seq srv + 1 - AuditMaxEntries < en_id r) (sv_audit srv) @
     [en\<lparr>en_id := sv_audit_seq srv + 1\<rparr>]"
  by (simp add: AddAuditEntry_def Let_def linorder_not_less linorder_not_le AuditMaxEntries_def AuditRetention_def hour_def minute_def)

lemma identify_audit: "identify e si root k srv = (f, srv') \<Longrightarrow> sv_audit srv' = sv_audit srv \<and> sv_audit_seq srv' = sv_audit_seq srv"
  by (auto simp: identify_def identifySession_def Let_def split: option.splits if_splits)

text \<open>The caller an answer is about, and whether he was refused the endpoint; and what a new entry leaves of the trail.\<close>

definition known_caller :: "answer \<Rightarrow> (TokenIdentity \<times> bool) option" where
  "known_caller answer = (case answer of Served who name \<Rightarrow> Some (who, False) | Refused who r \<Rightarrow> Some (who, True) | _ \<Rightarrow> None)"

definition still_kept :: "api_env \<Rightarrow> api_server \<Rightarrow> audit_entry list" where
  "still_kept e srv =
     filter (\<lambda>r. ev_served e - AuditRetention \<le> en_at r \<and> sv_audit_seq srv + 1 - AuditMaxEntries < en_id r) (sv_audit srv)"

lemma beginAudit_fields [simp]:
  "en_at (beginAudit now who rt a rq status outcome) = now" "en_kind (beginAudit now who rt a rq status outcome) = id_kind who"
  "en_actor (beginAudit now who rt a rq status outcome) = id_name who" "en_action (beginAudit now who rt a rq status outcome) = au_action a"
  "en_outcome (beginAudit now who rt a rq status outcome) = outcome"
  "en_application (beginAudit now who rt a rq status outcome) =
     (if (rt_application rt \<or> rt_document rt) \<and> ValidateName (rq_path rq ''name'') then rq_path rq ''name'' else [])"
  by (simp_all add: beginAudit_def)

lemma serve_traces:
  assumes "map_of auditedRoutes pattern = Some a" "au_action a \<noteq> []" "serve e (newRoute pattern role) who rq srv = (answer, srv')"
    and "name = rq_path (nameDocument (newRoute pattern role) rq) ''name''"
  shows "case known_caller answer of
      None \<Rightarrow> sv_audit srv' = sv_audit srv
    | Some (who, refused) \<Rightarrow>
        if \<not> ev_audit e then sv_audit srv' = sv_audit srv
        else \<exists>en a. sv_audit srv' = still_kept e srv @ [en] \<and> map_of auditedRoutes pattern = Some a \<and> au_action a \<noteq> [] \<and>
          en_id en = sv_audit_seq srv + 1 \<and> en_at en = ev_served e \<and> en_kind en = id_kind who \<and> en_actor en = id_name who \<and>
          en_action en = au_action a \<and> (refused \<longrightarrow> en_outcome en = ''refused'') \<and>
          en_application en = (if (under_applications pattern \<or> pattern \<in> set documentRoutes) \<and> ValidateName name then name else [])"
proof -
  define entry where "entry status broken = (beginAudit (ev_served e) who (newRoute pattern role) a (nameDocument (newRoute pattern role) rq) status
      (audit_outcome status broken))\<lparr>en_id := sv_audit_seq srv + 1\<rparr>" for status broken
  have wrote: "sv_audit (AddAuditEntry (beginAudit (ev_served e) who (newRoute pattern role) a (nameDocument (newRoute pattern role) rq) status
      (audit_outcome status broken)) srv) = still_kept e srv @ [entry status broken]" for status broken
    by (simp add: AddAuditEntry_audit still_kept_def entry_def)
  have fields: "en_id (entry status broken) = sv_audit_seq srv + 1" "en_at (entry status broken) = ev_served e"
    "en_kind (entry status broken) = id_kind who" "en_actor (entry status broken) = id_name who" "en_action (entry status broken) = au_action a"
    "en_outcome (entry status broken) = audit_outcome status broken"
    "en_application (entry status broken) = (if (under_applications pattern \<or> pattern \<in> set documentRoutes) \<and> ValidateName name then name else [])"
    for status broken
    by (simp_all add: entry_def assms(4))
  show ?thesis
  proof (cases "authorize who (newRoute pattern role) name")
    case None
    then have "answer = Served who name" "srv' = (if ev_audit e then AddAuditEntry (beginAudit (ev_served e) who (newRoute pattern role) a
        (nameDocument (newRoute pattern role) rq) (ev_status e) (audit_outcome (ev_status e) (ev_broken e))) srv else srv)"
      using assms(1,3,4) by (auto simp: serve_def Let_def)
    then show ?thesis
      using wrote[of "ev_status e" "ev_broken e"] fields[of "ev_status e" "ev_broken e"] assms(1,2)
      by (auto simp: known_caller_def intro!: exI[of _ "entry (ev_status e) (ev_broken e)"])
  next
    case (Some r)
    then have "answer = Refused who r" "srv' = (if ev_audit e then AddAuditEntry (beginAudit (ev_served e) who (newRoute pattern role) a
        (nameDocument (newRoute pattern role) rq) 403 (audit_outcome 403 False)) srv else srv)"
      using assms(1,3,4) by (auto simp: serve_def Let_def)
    then show ?thesis
      using wrote[of 403 False] fields[of 403 False] assms(1,2)
      by (auto simp: known_caller_def audit_outcome_def intro!: exI[of _ "entry 403 False"])
  qed
qed

text \<open>
  C37: A request to change something, by whatever caller, leaves exactly one new entry in the audit trail once the caller is
  known, provided the database takes it: the trail is then the one before, less what is older than a year or beyond the
  hundred thousand entries kept, and one entry with the next id, the time, the caller, the endpoint's action and
  the application that the path or the document names, whether the caller is served or refused. If the write fails,
  the trail stays as it is and the request is answered all the same. A request with no credential that
  counts, or with one that has ended or expired, leaves nothing.
\<close>

theorem changes_leave_a_trace:
  assumes "(pattern, role) \<in> set registered" "fst (cut_at CHR '' '' pattern) \<noteq> ''GET''" "pattern \<notin> set unauditedRoutes"
    and "authenticate h e si root (newRoute pattern role) rq srv = (answer, srv')"
    and "name = rq_path (nameDocument (newRoute pattern role) rq) ''name''"
  shows "case known_caller answer of
      None \<Rightarrow> sv_audit srv' = sv_audit srv
    | Some (who, refused) \<Rightarrow>
        if \<not> ev_audit e then sv_audit srv' = sv_audit srv
        else \<exists>en a. sv_audit srv' = still_kept e srv @ [en] \<and> map_of auditedRoutes pattern = Some a \<and> au_action a \<noteq> [] \<and>
          en_id en = sv_audit_seq srv + 1 \<and> en_at en = ev_served e \<and> en_kind en = id_kind who \<and> en_actor en = id_name who \<and>
          en_action en = au_action a \<and> (refused \<longrightarrow> en_outcome en = ''refused'') \<and>
          en_application en = (if (under_applications pattern \<or> pattern \<in> set documentRoutes) \<and> ValidateName name then name else [])"
proof -
  have "case map_of auditedRoutes pattern of None \<Rightarrow> False | Some a \<Rightarrow> au_action a \<noteq> []"
    using changes_audited assms(1-3) by (auto simp: list_all_iff)
  then obtain a where a: "map_of auditedRoutes pattern = Some a" "au_action a \<noteq> []"
    by (auto split: option.splits)
  obtain found srv1 where f: "identify e si root (h (trim_prefix (rq_authorization rq) ''Bearer '')) srv = (found, srv1)"
    by (rule prod.exhaust)
  note same = identify_audit[OF f]
  show ?thesis
  proof (cases "if has_prefix (rq_authorization rq) ''Bearer '' then found else NotKnown")
    case NotKnown
    then show ?thesis
      using assms(4) f same by (auto simp: authenticate_def known_caller_def split: prod.splits option.splits)
  next
    case (Known who ended)
    then have bearer: "has_prefix (rq_authorization rq) ''Bearer ''" and found: "found = Known who ended"
      by (auto split: if_splits)
    show ?thesis
    proof (cases "ended \<noteq> [] \<or> (case id_expiresAt who of None \<Rightarrow> False | Some at \<Rightarrow> \<not> ev_checked e < at)")
      case True
      then show ?thesis
        using assms(4) f same bearer found by (auto simp: authenticate_def known_caller_def split: if_splits option.splits)
    next
      case False
      then have s: "serve e (newRoute pattern role) who rq srv1 = (answer, srv')"
        using assms(4) f bearer found by (simp add: authenticate_def)
      have kept: "still_kept e srv1 = still_kept e srv" "sv_audit_seq srv1 = sv_audit_seq srv" "sv_audit srv1 = sv_audit srv"
        using same by (simp_all add: still_kept_def)
      show ?thesis
        using serve_traces[where e = e and srv = srv1, OF a s assms(5)] unfolding kept .
    qed
  qed
qed

section \<open>Access that is taken away\<close>

text \<open>
  What happens to the server: requests on their way to their handlers, and the statements of the handlers that
  manage tokens, rules and sessions. \<open>k\<close> is the hash of a credential; none is drawn a second time.
\<close>

inductive handler_step :: "string \<Rightarrow> access_db \<Rightarrow> access_db \<Rightarrow> bool" for k :: string where
  create_token: "to_hash t \<noteq> k \<Longrightarrow> CreateToken t db = Inr (t', db') \<Longrightarrow> handler_step k db db'"
| update_token: "UpdateToken name (token_change apps never expires) db = Inr (t, t', db') \<Longrightarrow> handler_step k db db'"
| delete_token: "DeleteToken name db = Inr db' \<Longrightarrow> handler_step k db db'"
| grant: "GrantAccess r db = Inr (r', replaced, db') \<Longrightarrow> handler_step k db db'"
| revoke: "RevokeAccess i db = Inr (r, db') \<Longrightarrow> handler_step k db db'"
| create_session: "se_hash s \<noteq> k \<Longrightarrow> CreateSession s db = Inr (s', db') \<Longrightarrow> handler_step k db db'"
| end_sessions: "handler_step k db (snd (EndSessionsOf email SessionEndedSignedOut now db))"
| delete_session: "handler_step k db (DeleteSession i db)"

inductive server_step :: "(string \<Rightarrow> string) \<Rightarrow> string \<Rightarrow> string \<Rightarrow> api_server \<Rightarrow> api_server \<Rightarrow> bool" for h :: "string \<Rightarrow> string" and root k :: string where
  request: "authenticate h e si root rt rq srv = (answer, srv') \<Longrightarrow> server_step h root k srv srv'"
| handler: "handler_step k (sv_db srv) db' \<Longrightarrow> server_step h root k srv (srv\<lparr>sv_db := db'\<rparr>)"

text \<open>A hash that no token has, and a session only if it has ended.\<close>

definition spent :: "string \<Rightarrow> access_db \<Rightarrow> bool" where
  "spent k db \<longleftrightarrow> (\<forall>t \<in> set (ax_tokens db). to_hash t \<noteq> k) \<and>
     (\<forall>s \<in> set (ax_sessions db). se_hash s = k \<longrightarrow> se_endedAt s \<noteq> None \<and> se_endedReason s \<noteq> [])"

lemma spent_on_sessions:
  assumes "spent k db" "\<And>s. P s \<Longrightarrow> se_hash (f s) = se_hash s"
    and "\<And>s. P s \<Longrightarrow> se_endedAt s \<noteq> None \<and> se_endedReason s \<noteq> [] \<Longrightarrow> se_endedAt (f s) \<noteq> None \<and> se_endedReason (f s) \<noteq> []"
  shows "spent k (on_sessions P f db)"
  using assms unfolding spent_def on_sessions_def by fastforce

lemma spent_TouchToken: "spent k db \<Longrightarrow> spent k (TouchToken i now db)"
  by (auto simp: spent_def TouchToken_def)

lemma spent_handler: "handler_step k db db' \<Longrightarrow> spent k db \<Longrightarrow> spent k db'"
proof (induction rule: handler_step.induct)
  case (create_token t db t' db')
  then show ?case
    by (auto simp: spent_def CreateToken_def Let_def split: if_splits)
next
  case (update_token name apps never expires db t t' db')
  then obtain i f where "db' = db\<lparr>ax_tokens := map (\<lambda>t. if to_id t = i then f t else t) (ax_tokens db)\<rparr>" "\<And>t. to_hash (f t) = to_hash t"
    by (fastforce simp: UpdateToken_def split: option.splits)
  then show ?case
    using update_token(2) by (force simp: spent_def)
next
  case (delete_token name db db')
  then show ?case
    by (auto simp: spent_def DeleteToken_def split: if_splits)
next
  case (grant r db r' replaced db')
  then show ?case
    by (auto simp: spent_def GrantAccess_def Let_def split: option.splits if_splits)
next
  case (revoke i db r db')
  then show ?case
    by (auto simp: spent_def RevokeAccess_def split: option.splits)
next
  case (create_session s db s' db')
  then show ?case
    by (auto simp: spent_def CreateSession_def Let_def split: if_splits)
next
  case (end_sessions db email now)
  then show ?case
    by (auto simp: EndSessionsOf_def Let_def SessionEndedSignedOut_def intro!: spent_on_sessions)
next
  case (delete_session db i)
  then show ?case
    by (auto simp: spent_def DeleteSession_def)
qed

lemma recordUse_db:
  "sv_db (recordUse e t srv) = sv_db srv \<or> sv_db (recordUse e t srv) = TouchToken (to_id t) (ev_now e) (sv_db srv)"
  "sv_db (recordSessionUse e s srv) = sv_db srv \<or> sv_db (recordSessionUse e s srv) = TouchSession (se_id s) (ev_now e) (sv_db srv)"
  by (simp_all add: recordUse_def recordSessionUse_def Let_def)

lemma identifySession_db:
  assumes "identifySession e si p srv = (f, srv')"
  shows "sv_db srv' = sv_db srv \<or> (\<exists>i. sv_db srv' = TouchSession i (ev_now e) (sv_db srv)) \<or>
    (\<exists>i v. v \<noteq> [] \<and> sv_db srv' = EndSession i v (ev_now e) (sv_db srv))"
proof (cases "if ev_session_lookup e then GetSessionByHash p (sv_db srv) else None")
  case None
  then show ?thesis
    using assms by (simp add: identifySession_def)
next
  case (Some s)
  define v where "v = session_verdict si (ax_rules (sv_db srv)) s"
  have "srv' = srv \<or> srv' = recordSessionUse e s srv \<or> v \<noteq> [] \<and> srv' = srv\<lparr>sv_db := EndSession (se_id s) v (ev_now e) (sv_db srv)\<rparr>"
    using assms unfolding identifySession_def Some by (auto simp: Let_def v_def split: if_splits)
  then show ?thesis
    using recordUse_db(2)[of e s srv] by (elim disjE conjE) auto
qed

lemma identify_db:
  assumes "identify e si root p srv = (f, srv')"
  shows "sv_db srv' = sv_db srv \<or> (\<exists>i. sv_db srv' = TouchToken i (ev_now e) (sv_db srv)) \<or> (\<exists>i. sv_db srv' = TouchSession i (ev_now e) (sv_db srv)) \<or>
    (\<exists>i v. v \<noteq> [] \<and> sv_db srv' = EndSession i v (ev_now e) (sv_db srv))"
proof (cases "p = root \<or> \<not> ev_token_lookup e")
  case True
  then show ?thesis
    using assms by (auto simp: identify_def split: if_splits)
next
  case False
  show ?thesis
  proof (cases "GetTokenByHash p (sv_db srv)")
    case None
    then have "identifySession e si p srv = (f, srv')"
      using assms False by (simp add: identify_def)
    then show ?thesis
      using identifySession_db by blast
  next
    case (Some t)
    then have "srv' = srv \<or> srv' = recordUse e t srv"
      using assms False by (auto simp: identify_def split: if_splits)
    then show ?thesis
      using recordUse_db(1)[of e t srv] by (elim disjE) auto
  qed
qed

lemma spent_identify:
  assumes "identify e si root p srv = (f, srv')" "spent k (sv_db srv)"
  shows "spent k (sv_db srv')"
proof -
  have "spent k (TouchSession i now (sv_db srv))" "v \<noteq> [] \<Longrightarrow> spent k (EndSession i v now (sv_db srv))" for i now v
    using assms(2) unfolding TouchSession_def EndSession_def by (auto intro!: spent_on_sessions)
  then show ?thesis
    using identify_db[OF assms(1)] assms(2) spent_TouchToken by (elim disjE exE conjE) simp_all
qed

lemma serve_db: "serve e rt who rq srv = (a, srv') \<Longrightarrow> sv_db srv' = sv_db srv"
  by (auto simp: serve_def Let_def split: option.splits)

lemma spent_authenticate:
  assumes "authenticate h e si root rt rq srv = (answer, srv')" "spent k (sv_db srv)"
  shows "spent k (sv_db srv')"
proof -
  obtain found srv1 where f: "identify e si root (h (trim_prefix (rq_authorization rq) ''Bearer '')) srv = (found, srv1)"
    by (rule prod.exhaust)
  have "sv_db srv' = sv_db srv1"
    using assms(1) f serve_db by (auto simp: authenticate_def split: identified.splits prod.splits option.splits if_splits)
  then show ?thesis
    using spent_identify[OF f assms(2)] by simp
qed

lemma spent_server_steps:
  "(server_step h root k)\<^sup>*\<^sup>* srv srv' \<Longrightarrow> spent k (sv_db srv) \<Longrightarrow> spent k (sv_db srv')"
proof (induction rule: rtranclp_induct)
  case (step srv1 srv2)
  then show ?case
    using spent_authenticate spent_handler by (auto elim!: server_step.cases)
qed

lemma spent_not_served:
  assumes "spent (h token) (sv_db srv)" "h token \<noteq> root" "rq_authorization rq = ''Bearer '' @ token"
  shows "fst (authenticate h e si root rt rq srv) \<noteq> Served who name"
proof -
  have "has_prefix (rq_authorization rq) ''Bearer ''" and t: "trim_prefix (rq_authorization rq) ''Bearer '' = token"
    by (simp_all only: assms(3) has_prefix_append trim_append)
  moreover have "GetTokenByHash (h token) (sv_db srv) = None"
    using assms(1) by (auto simp: GetTokenByHash_def spent_def find_None_iff')
  moreover have "fst (identifySession e si (h token) srv) = NotKnown \<or>
      (\<exists>who r. r \<noteq> [] \<and> fst (identifySession e si (h token) srv) = Known who r)"
    using assms(1) GetSessionByHash_Some[of "h token" "sv_db srv"] unfolding identifySession_def spent_def
    by (auto simp: Let_def split: option.splits)
  ultimately show ?thesis
    using assms(2) by (auto simp: authenticate_def identify_def split: prod.splits option.splits identified.splits if_splits)
qed

text \<open>
  C34: A session whose rule was removed or changed is refused at its very next request, whatever the endpoint, provided that the
  tables of tokens, sessions and rules can be read. If the end that this request finds can also be recorded (the code only logs a
  write that fails), it is refused for good: also when the same access is granted again later, no request with it is ever served.
\<close>

theorem withdrawn_access_ends_session:
  assumes "access_ok (sv_db srv)" "s \<in> set (ax_sessions (sv_db srv))" "se_hash s = h token" "h token \<noteq> root"
    and "\<forall>t \<in> set (ax_tokens (sv_db srv)). to_hash t \<noteq> h token" "se_endedAt s = None" "ev_now e < se_expiresAt s"
    and "session_verdict si (ax_rules (sv_db srv)) s \<noteq> []" "rq_authorization rq = ''Bearer '' @ token"
    and "ev_token_lookup e" "ev_session_lookup e" "ev_rules_read e"
    and "authenticate h e si root rt rq srv = (answer, srv')" "(server_step h root (h token))\<^sup>*\<^sup>* srv' later"
    and "rq_authorization rq' = ''Bearer '' @ token"
  shows "answer = Ended (sessionIdentity s) (session_verdict si (ax_rules (sv_db srv)) s) \<and>
    (ev_session_end e \<longrightarrow> fst (authenticate h e' si' root rt' rq' later) \<noteq> Served who name)"
proof -
  let ?v = "session_verdict si (ax_rules (sv_db srv)) s"
  have b: "has_prefix (rq_authorization rq) ''Bearer ''" "trim_prefix (rq_authorization rq) ''Bearer '' = token"
    by (simp_all only: assms(9) has_prefix_append trim_append)
  have hashes: "distinct (map se_hash (ax_sessions (sv_db srv)))" and ids: "distinct (map se_id (ax_sessions (sv_db srv)))"
    using assms(1) by (simp_all add: access_ok_def)
  have found: "GetSessionByHash (h token) (sv_db srv) = Some s"
    using find_Some_iff_distinct[OF hashes] assms(2,3) by (simp add: GetSessionByHash_def)
  have no_token: "GetTokenByHash (h token) (sv_db srv) = None"
    using assms(5) by (auto simp: GetTokenByHash_def find_None_iff')
  define db' where "db' = EndSession (se_id s) ?v (ev_now e) (sv_db srv)"
  have i: "identify e si root (h token) srv = (Known (sessionIdentity s) ?v, if ev_session_end e then srv\<lparr>sv_db := db'\<rparr> else srv)"
    using assms(4,6-8,10-12) found no_token assms(3) by (simp add: identify_def identifySession_def Let_def db'_def)
  have answer: "answer = Ended (sessionIdentity s) ?v" and srv': "ev_session_end e \<Longrightarrow> sv_db srv' = db'"
    using assms(13,8) i b by (auto simp: authenticate_def split: if_splits)
  have "spent (h token) db'"
  proof -
    have "r = s" if "r \<in> set (ax_sessions (sv_db srv))" "se_hash r = h token" for r
      using inj_onD[OF distinct_map[THEN iffD1, THEN conjunct2, OF hashes]] that assms(2,3) by simp
    then show ?thesis
      using assms(5,6,8) by (auto simp: spent_def db'_def EndSession_def on_sessions_def)
  qed
  then have "ev_session_end e \<Longrightarrow> spent (h token) (sv_db later)"
    using spent_server_steps[OF assms(14)] srv' by simp
  then show ?thesis
    using answer spent_not_served[where h = h and token = token, OF _ assms(4,15)] by blast
qed

section \<open>Concrete inputs\<close>

definition demo_hash :: "string \<Rightarrow> string" where
  "demo_hash t = ''h:'' @ t"

definition demo_token :: Token where
  "demo_token = \<lparr>to_id = 1, to_name = ''ci'', to_role = RoleDeploy, to_hash = demo_hash ''swk_1'', to_createdAt = 0, to_lastUsedAt = None,
     to_applications = [''web''], to_expiresAt = Some 1000\<rparr>"

definition demo_session :: Session where
  "demo_session = \<lparr>se_id = 1, se_hash = demo_hash ''sws_1'', se_email = ''ada@example.com'', se_groups = [''web''], se_role = RoleDeploy,
     se_applications = [''web''], se_createdAt = 0, se_expiresAt = 1000, se_lastUsedAt = None, se_endedAt = None, se_endedReason = [],
     se_nameClaim = ''email'', se_tenant = []\<rparr>"

definition demo_access :: "AccessRule list \<Rightarrow> access_db" where
  "demo_access rules = \<lparr>ax_tokens = [demo_token], ax_rules = rules, ax_rule_seq = 3, ax_sessions = [demo_session], ax_session_seq = 1\<rparr>"

definition demo_server :: "AccessRule list \<Rightarrow> api_server" where
  "demo_server rules = \<lparr>sv_db = demo_access rules, sv_limiter = newRateLimiter, sv_lastUsed = (\<lambda>_. None), sv_used = (\<lambda>_. None), sv_audit = [], sv_audit_seq = 0\<rparr>"

definition demo_env :: api_env where
  "demo_env = \<lparr>ev_now = 10, ev_limiter_now = 10, ev_checked = 10, ev_served = 10, ev_token_lookup = True, ev_session_lookup = True, ev_rules_read = True,
     ev_session_end = True, ev_touch = True, ev_audit = True, ev_status = 202, ev_broken = False\<rparr>"

definition demo_signIn :: signIn where
  "demo_signIn = \<lparr>si_nameClaim = Some ''email'', si_tenantAllowed = (\<lambda>_. True)\<rparr>"

definition demo_request :: "string \<Rightarrow> string \<Rightarrow> request" where
  "demo_request token name = \<lparr>rq_address = ''192.0.2.1'', rq_authorization = ''Bearer '' @ token,
     rq_path = (\<lambda>x. if x = ''name'' then name else []), rq_document = None\<rparr>"

abbreviation demo_pattern :: string where
  "demo_pattern \<equiv> ''POST /api/v1/applications/{name}/deploy''"

abbreviation demo_route :: route where
  "demo_route \<equiv> newRoute demo_pattern RoleDeploy"

lemma demo_registered: "(demo_pattern, RoleDeploy) \<in> set registered"
  by code_simp

theorem limited_caller_confined_witness:
  "authorize (sessionIdentity demo_session) demo_route ''web'' = None \<and> authorize (sessionIdentity demo_session) demo_route ''api'' \<noteq> None"
proof -
  have "id_role (sessionIdentity demo_session) = RoleDeploy" "id_applications (sessionIdentity demo_session) = [''web'']"
    by (simp_all add: sessionIdentity_def identityOf_def demo_session_def)
  moreover have "ValidateName ''web''"
    by code_simp
  ultimately show ?thesis
    using limited_caller_confined[OF demo_registered, of "sessionIdentity demo_session"] by simp
qed

lemma demo_served: "fst (authenticate demo_hash demo_env demo_signIn ''root'' demo_route (demo_request ''swk_1'' ''web'') (demo_server [])) =
    Served (identityOf ''ci'' RoleDeploy [''web''] (Some 1000)) ''web''"
  by code_simp

lemma demo_ends: "ends_explained (sv_db (demo_server rules))"
  by (simp add: ends_explained_def demo_server_def demo_access_def demo_session_def)

lemma demo_parts:
  "ax_sessions (sv_db (demo_server rules)) = [demo_session]" "ax_tokens (sv_db (demo_server rules)) = [demo_token]" "sv_audit (demo_server rules) = []"
  "se_hash demo_session = demo_hash ''sws_1''" "to_hash demo_token = demo_hash ''swk_1''" "se_endedAt demo_session = None" "se_expiresAt demo_session = 1000"
  by (simp_all add: demo_server_def demo_access_def demo_session_def demo_token_def)

theorem served_has_standing_witness:
  "\<exists>token. rq_authorization (demo_request ''swk_1'' ''web'') = ''Bearer '' @ token \<and>
     stands demo_hash demo_signIn ''root'' (demo_access []) 10 token (identityOf ''ci'' RoleDeploy [''web''] (Some 1000))"
proof -
  obtain srv' where "authenticate demo_hash demo_env demo_signIn ''root'' demo_route (demo_request ''swk_1'' ''web'') (demo_server []) =
      (Served (identityOf ''ci'' RoleDeploy [''web''] (Some 1000)) ''web'', srv')"
    using demo_served by (metis prod.collapse)
  from served_has_standing[OF this demo_ends] show ?thesis
    by (auto simp: demo_env_def demo_server_def)
qed

theorem known_never_limited_witness:
  "fst (authenticate demo_hash demo_env demo_signIn ''root'' demo_route (demo_request ''swk_1'' ''web'')
     (demo_server []\<lparr>sv_limiter := \<lparr>rl_clients = [''192.0.2.1'' \<mapsto> \<lparr>cf_failures = [], cf_blockedUntil = 50\<rparr>], rl_pruned = 0\<rparr>\<rparr>)) =
    Served (identityOf ''ci'' RoleDeploy [''web''] (Some 1000)) ''web''"
proof -
  have "fst (identify demo_env demo_signIn ''root'' (demo_hash ''swk_1'') (demo_server [])) = Known (identityOf ''ci'' RoleDeploy [''web''] (Some 1000)) []"
    by code_simp
  then obtain srv1 where "identify demo_env demo_signIn ''root'' (demo_hash ''swk_1'') (demo_server []) =
      (Known (identityOf ''ci'' RoleDeploy [''web''] (Some 1000)) [], srv1)"
    by (metis prod.collapse)
  from known_never_limited[where h = demo_hash and token = "''swk_1''", OF this, of "demo_request ''swk_1'' ''web''"] show ?thesis
    using demo_served by (simp add: demo_request_def)
qed

theorem changes_leave_a_trace_witness:
  "\<exists>en. sv_audit (snd (authenticate demo_hash demo_env demo_signIn ''root'' demo_route (demo_request ''swk_1'' ''web'') (demo_server []))) = [en] \<and>
     en_actor en = ''ci'' \<and> en_application en = ''web''"
proof -
  obtain srv' where a: "authenticate demo_hash demo_env demo_signIn ''root'' demo_route (demo_request ''swk_1'' ''web'') (demo_server []) =
      (Served (identityOf ''ci'' RoleDeploy [''web''] (Some 1000)) ''web'', srv')"
    using demo_served by (metis prod.collapse)
  have p: "fst (cut_at CHR '' '' demo_pattern) \<noteq> ''GET''" "demo_pattern \<notin> set unauditedRoutes"
    "rq_path (nameDocument demo_route (demo_request ''swk_1'' ''web'')) ''name'' = ''web''"
    by code_simp+
  have q: "under_applications demo_pattern" "ValidateName ''web''" "ev_audit demo_env" "still_kept demo_env (demo_server []) = []"
    by code_simp+
  show ?thesis
    using changes_leave_a_trace[OF demo_registered p(1,2) a refl] q p(3)
    by (auto simp: a known_caller_def identityOf_def)
qed

theorem withdrawn_access_ends_session_witness:
  "\<exists>srv'. authenticate demo_hash demo_env demo_signIn ''root'' demo_route (demo_request ''sws_1'' ''web'') (demo_server []) =
      (Ended (sessionIdentity demo_session) SessionEndedRuleRemoved, srv') \<and>
    (\<forall>who name. fst (authenticate demo_hash demo_env demo_signIn ''root'' demo_route (demo_request ''sws_1'' ''web'') srv') \<noteq> Served who name)"
proof -
  obtain answer srv' where a: "authenticate demo_hash demo_env demo_signIn ''root'' demo_route (demo_request ''sws_1'' ''web'') (demo_server []) = (answer, srv')"
    by (rule prod.exhaust)
  have v: "session_verdict demo_signIn (ax_rules (sv_db (demo_server []))) demo_session = SessionEndedRuleRemoved"
    by code_simp
  have ok: "access_ok (sv_db (demo_server []))"
    by (simp add: access_ok_def demo_server_def demo_access_def demo_session_def rules_ok_def MaxAccessRules_def)
  have "answer = Ended (sessionIdentity demo_session) (session_verdict demo_signIn (ax_rules (sv_db (demo_server []))) demo_session) \<and>
      (ev_session_end demo_env \<longrightarrow>
        fst (authenticate demo_hash demo_env demo_signIn ''root'' demo_route (demo_request ''sws_1'' ''web'') srv') \<noteq> Served who name)" for who name
    by (rule withdrawn_access_ends_session[where token = "''sws_1''", OF ok _ _ _ _ _ _ _ _ _ _ _ a rtranclp.rtrancl_refl])
      (simp_all add: demo_parts v SessionEndedRuleRemoved_def, simp_all add: demo_hash_def demo_env_def demo_request_def)
  moreover have "ev_session_end demo_env"
    by (simp add: demo_env_def)
  ultimately show ?thesis
    using a v by simp
qed

end
