(* ===== verification/Spec2Isabelle.thy ===== *)
theory Spec2Isabelle
  imports Cron_Meaning Jobs Rolling Rollback_Limits Locks Rate_Limit Versions Supervise_App Spec_Proxy Routing Key_Rotation Access
begin

text \<open>
  A verification development of Shipwick, a deployment platform for one server: an agent
  (\<^verbatim>\<open>src/agent\<close>) that keeps applications running in Docker containers behind a Caddy proxy, with a
  command line (\<^verbatim>\<open>src/cli\<close>) and a dashboard that talk to its HTTP API.

  \<^bold>\<open>The parts and how they meet.\<close> A deployment enters through the API as a specification
  (\<^verbatim>\<open>src/pkg/spec\<close>), is checked against the hostnames of all other applications, is recorded in
  SQLite tables (\<^verbatim>\<open>src/agent/internal/store\<close>) and is carried out by a rollout
  (\<^verbatim>\<open>src/agent/internal/deploy/rollout.go\<close>), which starts containers, waits until they are ready, tells the
  proxy and retires the ones before. A supervisor looks after what runs; operations of users (stop,
  start, delete, redeploy, rollback) exclude each other and the supervisor through a lock per
  application. A scheduler starts the jobs whose time has come. A restarted agent takes up what it finds
  unfinished.

  \<^bold>\<open>Theories.\<close>
  \<^item> \<open>Go_Prelude\<close>: Go's integers, durations and times; strings; the result monad of the operations
    (a computation on a state that ends with a value or an error) and its rules; shared lemmas on lists
    and maps; the development's collections of facts.
  \<^item> \<open>Go_Strings\<close>: what the code uses of the packages strings and strconv.
  \<^item> \<open>Calendar\<close>, \<open>Cron\<close>, \<open>Cron_Meaning\<close>: the calendar of package time; the cron schedules of
    \<^verbatim>\<open>src/pkg/cron/cron.go\<close>; and an account of what an expression means, which shares nothing with the parser.
  \<^item> \<open>Jobs\<close>: the scheduler and the runs of jobs (\<^verbatim>\<open>deploy/schedule.go\<close>, \<^verbatim>\<open>jobs.go\<close>, \<^verbatim>\<open>store/jobs.go\<close>).
  \<^item> \<open>App_Spec\<close>: the record of a specification (\<^verbatim>\<open>src/pkg/spec/spec.go\<close>).
  \<^item> \<open>Spec_Domains\<close>, \<open>Spec_Proxy\<close>: the validation of hostnames and of the proxy block
    (\<^verbatim>\<open>domains.go\<close>, \<^verbatim>\<open>wildcard.go\<close>, \<^verbatim>\<open>proxy.go\<close> and the checks of \<^verbatim>\<open>parse.go\<close> they use).
  \<^item> \<open>Deploy_State\<close>, \<open>Deployment_Store\<close>: the states of a deployment (\<^verbatim>\<open>deploy/state.go\<close>), the tables and
    the statements on them (\<^verbatim>\<open>store/deployments.go\<close>, \<^verbatim>\<open>applications.go\<close>, \<^verbatim>\<open>active.go\<close>), the abstract
    machine of the store and its invariants.
  \<^item> \<open>Runtime\<close>: the world of an operation: containers, the routing, drains, the tables, and an
    environment that decides for each numbered call whether it fails, what Docker answers, and what time
    it is; the steps the engine makes on it (\<^verbatim>\<open>engine.go\<close>, \<^verbatim>\<open>drain.go\<close>, \<^verbatim>\<open>settle.go\<close>).
  \<^item> \<open>Rollout\<close>, \<open>Rolling\<close>, \<open>Rollback_Limits\<close>: one deployment from start to end (\<^verbatim>\<open>rollout.go\<close>,
    \<^verbatim>\<open>resume.go\<close>, \<^verbatim>\<open>launch\<close> of \<^verbatim>\<open>engine.go\<close>; \<^verbatim>\<open>static.go\<close> for a folder of files, \<^verbatim>\<open>standby.go\<close> for one that
    starts nothing), what holds while the replicas are replaced, and two runs that show the limits of a rollback.
  \<^item> \<open>Supervisor\<close>, \<open>Operations\<close>, \<open>Supervise_App\<close>: the bookkeeping of a replica
    (\<^verbatim>\<open>supervisor.go\<close>), the operations of users (\<^verbatim>\<open>operations.go\<close>), and both over one server.
  \<^item> \<open>Routing\<close>: which hostname is whose and what the proxy is told (\<^verbatim>\<open>routing.go\<close>).
  \<^item> \<open>Locks\<close>: the lock of an application, waiting and shutting down (\<^verbatim>\<open>engine.go\<close>), as a step relation
    over goroutines; safety for its reachable states, and for its infinite runs that whoever waits is woken.
  \<^item> \<open>Go_Encoding\<close>, \<open>Sealing\<close>, \<open>Secret_Tables\<close>, \<open>Key_Rotation\<close>: hexadecimal and base64; how values and
    specifications are sealed and opened (\<^verbatim>\<open>store/crypto.go\<close>), with AES-GCM as a parameter; the tables of
    sealed values (\<^verbatim>\<open>secrets.go\<close>, \<^verbatim>\<open>registries.go\<close>, \<^verbatim>\<open>certificates.go\<close>, \<^verbatim>\<open>references.go\<close>); the
    rotation of the key over a disk whose every call may fail or be the process's last
    (\<^verbatim>\<open>rotation.go\<close>, \<^verbatim>\<open>config/encryption.go\<close>).
  \<^item> \<open>Access_Rules\<close>, \<open>Access_Store\<close>, \<open>Access\<close>: roles, rules and what they give a person
    (\<^verbatim>\<open>pkg/api/signin.go\<close>, \<^verbatim>\<open>access.go\<close>, \<^verbatim>\<open>tokens.go\<close>); the tables of tokens, rules and sessions; the way of a
    request to its handler (\<^verbatim>\<open>api/access.go\<close>, \<^verbatim>\<open>auth.go\<close>, \<^verbatim>\<open>server.go\<close>, \<^verbatim>\<open>audit.go\<close>, the sessions of
    \<^verbatim>\<open>signin.go\<close>), over the endpoints that \<open>Handler\<close> and the \<^verbatim>\<open>routes_*.go\<close> register, with the limiter of
    \<open>Rate_Limit\<close> and the audit trail with its pruning (\<^verbatim>\<open>store/audit.go\<close>).
  \<^item> \<open>Rate_Limit\<close>, \<open>Versions\<close>: \<^verbatim>\<open>api/ratelimit.go\<close> and \<^verbatim>\<open>pkg/version/version.go\<close>.

  \<^bold>\<open>Failures.\<close> A call to Docker, the proxy, the disk or the database takes the next call number; the
  environment, which no theorem restricts except by named hypotheses, says whether it fails and, where
  it fails, whether it took effect first. Contexts that are cancelled are failing calls. Every theorem
  about operations therefore speaks about all ways in which the outside can fail.

  \<^bold>\<open>What is assumed.\<close> Beyond failures that the environment chooses, some properties name what they rest on:
  every drain ends with its container removed (\<open>drains_remove\<close>; the code goes on without it when a removal
  fails), the database reports its commits (\<open>all_heard\<close>), no rotation of the key is begun over a pending key
  (\<open>careful\<close>), a write of the session's end works, an application's id stays its own. Where the code
  does not ensure such a thing, a lemma next to the property shows what happens without it: a deleted application leaves
  a container (\<open>delete_leaves_drained\<close>), a second rotation loses the key (\<open>second_rotation_loses_key\<close>).

  \<^bold>\<open>Interfaces.\<close> A locale states what one component relies on: the laws of a preserved property under
  the steps of the world, of a lookup after an insert, of a limiter against its specification, and so on;
  each is interpreted on the model's own definitions in the theory that provides them, and the properties
  use the interpreted facts.

  \<^bold>\<open>Loops and fuel.\<close> \<open>Cron.next_loop\<close> and \<open>Cron.add_range\<close> terminate by a measure. The waits of a
  rollout (\<open>awaitHealthy\<close>, \<open>awaitStable\<close>) run for at most the number of rounds that fit into their
  timeout, which is what the tickers of the source allow; the loops over batches, replicas and hostnames
  are recursions over lists.

  \<^bold>\<open>Not modelled.\<close> Input and output themselves: the HTTP handlers, the Docker and Caddy clients, the
  command line and the dashboard. Log lines, the event log of a deployment, metrics, alerts, backups and
  the archive of logs. Cryptography (AES-GCM, bcrypt, tokens, OIDC) is the standard library's or a
  parameter. The reading of YAML. The proxy's file system and the uploads of folders, of which a rollout only
  asks whether they are there. Goroutines are interleaved only where the source's result
  depends on it (\<open>Locks\<close>); the goroutines of \<open>parallel\<close> are run one after the other.
\<close>

end
